(* ===== verification/Rpsl_Prelude.thy ===== *)
theory Rpsl_Prelude
  imports Main "HOL-Library.Word"
begin

text \<open>
  The prelude of the development: the collections of rewrite rules the component theories
  extend, and the generic facts on lists, bits and words they share.
  Nothing here models a line of the program.
\<close>

unbundle bit_operations_syntax

named_theorems netip_simps \<open>rewrite rules of the \<^verbatim>\<open>net/netip\<close> values\<close>
named_theorems mask_simps \<open>membership rules of the length masks\<close>
named_theorems path_simps \<open>rewrite rules of the bit paths of prefixes\<close>

type_synonym u8 = "8 word"
type_synonym u32 = "32 word"
type_synonym u64 = "64 word"

text \<open>\<^verbatim>\<open>types.ASN\<close>: a 32-bit autonomous system number.\<close>

type_synonym asn = u32

subsection \<open>Small numbers kept in a byte\<close>

lemma unat_u8_of_nat [simp]: "n < 256 \<Longrightarrow> unat (of_nat n :: u8) = n"
  by (simp add: unat_of_nat take_bit_nat_eq_self)

lemma uint_u8_of_int [simp]: "0 \<le> i \<Longrightarrow> i < 256 \<Longrightarrow> uint (of_int i :: u8) = i"
  by (simp add: uint_word_of_int take_bit_int_eq_self)

lemma u8_of_int_eq_iff [simp]:
  "0 \<le> i \<Longrightarrow> i < 256 \<Longrightarrow> 0 \<le> j \<Longrightarrow> j < 256 \<Longrightarrow> (of_int i :: u8) = of_int j \<longleftrightarrow> i = j"
  by (metis uint_u8_of_int)

subsection \<open>Options built by a guard\<close>

lemma if_None_Some: "(if c then None else Some x) = Some t \<longleftrightarrow> \<not> c \<and> t = x"
  by auto

subsection \<open>Lists\<close>

lemma map_upt_eq_take_iff:
  "map f [0..<n] = map g [0..<n] \<longleftrightarrow> (\<forall>i < n. f i = g i)"
  by (auto simp: map_eq_conv)

lemma map_upt_Suc_nth: "i < n \<Longrightarrow> map f [0..<n] ! i = f i"
  by simp

lemma sorted_wrt_irrefl_distinct: "sorted_wrt R xs \<Longrightarrow> (\<And>x. \<not> R x x) \<Longrightarrow> distinct xs"
  by (induction xs) auto

lemma int_sum_list: "int (sum_list (map f xs)) = sum_list (map (\<lambda>x. int (f x)) xs)"
  by (induction xs) auto

end
