(* ===== verification/Len_Mask.thy ===== *)
theory Len_Mask
  imports Rpsl_Prelude
begin

text \<open>
  Sets of prefix lengths (\<^verbatim>\<open>lenMask\<close> of \<^verbatim>\<open>types/prefixspace.go\<close>): three 64-bit words, bit
  \<open>l mod 64\<close> of word \<open>l div 64\<close> for the length \<open>l\<close>.  The lemmas turn every operation into
  its meaning on \<open>mask_has\<close>, which is all the trie proofs use.
\<close>

unbundle bit_operations_syntax

subsection \<open>Operations\<close>

datatype lenMask = LenMask u64 u64 u64

fun mask_word :: "lenMask \<Rightarrow> nat \<Rightarrow> u64" where
  "mask_word (LenMask a b c) i = (if i = 0 then a else if i = 1 then b else c)"

definition mask_has :: "lenMask \<Rightarrow> nat \<Rightarrow> bool" where
  "mask_has m l \<longleftrightarrow> mask_word m (l div 64) AND push_bit (l mod 64) 1 \<noteq> 0"

fun mask_set :: "lenMask \<Rightarrow> nat \<Rightarrow> lenMask" where
  "mask_set (LenMask a b c) l =
     (let x = push_bit (l mod 64) 1 in
      if l div 64 = 0 then LenMask (a OR x) b c
      else if l div 64 = 1 then LenMask a (b OR x) c
      else LenMask a b (c OR x))"

definition zeroMask :: lenMask where
  "zeroMask = LenMask 0 0 0"

fun mask_isZero :: "lenMask \<Rightarrow> bool" where
  "mask_isZero (LenMask a b c) \<longleftrightarrow> a OR b OR c = 0"

fun mask_and :: "lenMask \<Rightarrow> lenMask \<Rightarrow> lenMask" where
  "mask_and (LenMask a b c) (LenMask x y z) = LenMask (a AND x) (b AND y) (c AND z)"

fun mask_or :: "lenMask \<Rightarrow> lenMask \<Rightarrow> lenMask" where
  "mask_or (LenMask a b c) (LenMask x y z) = LenMask (a OR x) (b OR y) (c OR z)"

fun mask_andNot :: "lenMask \<Rightarrow> lenMask \<Rightarrow> lenMask" where
  "mask_andNot (LenMask a b c) (LenMask x y z) = LenMask (a AND NOT x) (b AND NOT y) (c AND NOT z)"

definition mask_equal :: "lenMask \<Rightarrow> lenMask \<Rightarrow> bool" where
  "mask_equal m n \<longleftrightarrow> m = n"

text \<open>\<^verbatim>\<open>bits.TrailingZeros64\<close> of a non-zero word.\<close>

definition tz64 :: "u64 \<Rightarrow> nat" where
  "tz64 x = length (takeWhile (\<lambda>n. \<not> bit x n) [0..<64])"

fun mask_lowest :: "lenMask \<Rightarrow> int" where
  "mask_lowest (LenMask a b c) =
     (if a \<noteq> 0 then int (tz64 a)
      else if b \<noteq> 0 then 64 + int (tz64 b)
      else if c \<noteq> 0 then 128 + int (tz64 c)
      else -1)"

definition geMask :: "nat \<Rightarrow> lenMask" where
  "geMask d = foldl mask_set zeroMask [d..<129]"

definition mask_window :: "nat \<Rightarrow> nat \<Rightarrow> lenMask" where
  "mask_window lo hi = mask_andNot (geMask lo) (geMask (hi + 1))"

definition mask_one :: "nat \<Rightarrow> lenMask" where
  "mask_one l = mask_window l l"

subsection \<open>Meaning\<close>

lemma and_pow2_eq_0: "k < 64 \<Longrightarrow> (x :: u64) AND push_bit k 1 = 0 \<longleftrightarrow> \<not> bit x k"
proof
  assume "k < 64" and z: "x AND push_bit k 1 = 0"
  have "bit (x AND push_bit k 1) k = bit (0 :: u64) k" by (simp only: z)
  with \<open>k < 64\<close> show "\<not> bit x k" by (simp add: bit_and_iff bit_exp_iff)
next
  assume "k < 64" "\<not> bit x k"
  then show "x AND push_bit k 1 = 0"
    by (intro bit_word_eqI) (auto simp: bit_and_iff bit_exp_iff)
qed

lemma mask_has_bit: "mask_has m l \<longleftrightarrow> bit (mask_word m (l div 64)) (l mod 64)"
  by (simp only: mask_has_def and_pow2_eq_0[OF mod_less_divisor] zero_less_numeral not_not)

lemma mask_has_zero [mask_simps, simp]: "\<not> mask_has zeroMask l"
  by (simp add: mask_has_bit zeroMask_def)

lemma mask_has_and [mask_simps, simp]: "mask_has (mask_and m n) l \<longleftrightarrow> mask_has m l \<and> mask_has n l"
  by (cases m; cases n) (simp add: mask_has_bit bit_simps)

lemma mask_has_or [mask_simps, simp]: "mask_has (mask_or m n) l \<longleftrightarrow> mask_has m l \<or> mask_has n l"
  by (cases m; cases n) (simp add: mask_has_bit bit_simps)

lemma mask_has_andNot [mask_simps, simp]: "mask_has (mask_andNot m n) l \<longleftrightarrow> mask_has m l \<and> \<not> mask_has n l"
  by (cases m; cases n) (auto simp: mask_has_bit bit_simps)

lemma mask_word_set:
  "i < 3 \<Longrightarrow> l div 64 < 3 \<Longrightarrow> mask_word (mask_set m l) i =
     (if i = l div 64 then mask_word m i OR push_bit (l mod 64) 1 else mask_word m i)"
  by (cases m) (auto simp: Let_def)

lemma mask_has_set: "l < 192 \<Longrightarrow> k < 192 \<Longrightarrow> mask_has (mask_set m l) k \<longleftrightarrow> k = l \<or> mask_has m k"
proof -
  assume "l < 192" "k < 192"
  then have w: "k div 64 < 3" "l div 64 < 3" by linarith+
  have e: "k = l \<longleftrightarrow> k div 64 = l div 64 \<and> k mod 64 = l mod 64" by (metis div_mult_mod_eq)
  have "bit (push_bit (l mod 64) 1 :: u64) (k mod 64) \<longleftrightarrow> k mod 64 = l mod 64" by (auto simp: bit_exp_iff)
  then show ?thesis unfolding mask_has_bit mask_word_set[OF w] e by (simp add: bit_or_iff) blast
qed

lemma mask_eqI:
  assumes "\<And>l. l < 192 \<Longrightarrow> mask_has m l = mask_has n l"
  shows "m = n"
proof -
  have w: "bit (mask_word m i) j = bit (mask_word n i) j" if "i < 3" "j < 64" for i j
    using assms[of "64 * i + j"] that by (simp add: mask_has_bit)
  obtain a b c x y z where [simp]: "m = LenMask a b c" "n = LenMask x y z" by (cases m; cases n) auto
  have "a = x" "b = y" "c = z"
    by (rule bit_word_eqI; use w[of 0] w[of 1] w[of 2] in simp)+
  then show ?thesis by simp
qed

lemma mask_isZero_eq: "mask_isZero m \<longleftrightarrow> m = zeroMask"
  by (cases m) (simp add: zeroMask_def or_eq_0_iff)

lemma mask_isZero_iff: "mask_isZero m \<longleftrightarrow> (\<forall>l < 192. \<not> mask_has m l)"
  unfolding mask_isZero_eq by (auto intro: mask_eqI)

lemma mask_has_geMask [mask_simps, simp]: "l < 192 \<Longrightarrow> mask_has (geMask d) l \<longleftrightarrow> d \<le> l \<and> l \<le> 128"
proof -
  assume l: "l < 192"
  have "mask_has (foldl mask_set m xs) l \<longleftrightarrow> l \<in> set xs \<or> mask_has m l" if "\<forall>x\<in>set xs. x < 192" for m xs
    using that by (induction xs arbitrary: m) (auto simp: mask_has_set l)
  from this[of "[d..<129]"] show ?thesis by (auto simp: geMask_def)
qed

lemma mask_has_window [mask_simps, simp]:
  "l < 192 \<Longrightarrow> mask_has (mask_window lo hi) l \<longleftrightarrow> lo \<le> l \<and> l \<le> hi \<and> l \<le> 128"
  by (auto simp: mask_window_def)

lemma mask_has_one [mask_simps, simp]: "l < 192 \<Longrightarrow> mask_has (mask_one d) l \<longleftrightarrow> l = d \<and> l \<le> 128"
  by (auto simp: mask_one_def)

lemma tz64_bit: "x \<noteq> 0 \<Longrightarrow> bit x (tz64 x)" and tz64_less: "x \<noteq> 0 \<Longrightarrow> tz64 x < 64"
  and tz64_least: "x \<noteq> 0 \<Longrightarrow> n < tz64 x \<Longrightarrow> \<not> bit x n"
proof -
  assume x: "x \<noteq> 0"
  let ?t = "takeWhile (\<lambda>n. \<not> bit x n) [0..<64]"
  have "\<exists>n < 64. bit x n"
  proof (rule ccontr)
    assume "\<not> ?thesis"
    then have "x = 0" by (intro bit_word_eqI) auto
    with x show False by simp
  qed
  then have "?t \<noteq> [0..<64]" by (auto simp: takeWhile_eq_all_conv)
  then have len: "length ?t < 64"
    by (metis length_takeWhile_le length_upt diff_zero order_le_neq_trans takeWhile_eq_take take_all order_refl)
  then show "tz64 x < 64" by (simp add: tz64_def)
  show "bit x (tz64 x)" using nth_length_takeWhile[of "\<lambda>n. \<not> bit x n" "[0..<64]"] len by (simp add: tz64_def)
  show "\<not> bit x n" if "n < tz64 x"
    using that len by (simp add: tz64_def) (metis (no_types, lifting) add_0 diff_zero length_upt less_trans nth_upt takeWhile_nth nth_mem set_takeWhileD)
qed

lemma mask_lowest_cases:
  "(mask_lowest m = -1 \<and> m = zeroMask) \<or>
   (0 \<le> mask_lowest m \<and> mask_lowest m < 192 \<and> mask_has m (nat (mask_lowest m)) \<and>
    (\<forall>k < nat (mask_lowest m). \<not> mask_has m k))"
proof (cases m)
  case (LenMask a b c)
  have nat_add: "nat (64 + int t) = 64 + t" "nat (128 + int t) = 128 + t" for t by linarith+
  have dm: "(64 + t) div 64 = 1" "(64 + t) mod 64 = t" "(128 + t) div 64 = 2" "(128 + t) mod 64 = t" if "t < 64" for t :: nat
    using that mod_mult_self4[of 64 2 t] by simp_all
  have lt: "k div 64 = 0 \<or> (k div 64 = 1 \<and> k mod 64 < t)" if "k < 64 + t" "t < 64" for k t :: nat
    using that div_mult_mod_eq[of k 64] mod_less_divisor[of 64 k]
    by (cases "k div 64 = 0"; cases "k div 64 = 1") linarith+
  have lt2: "k div 64 = 0 \<or> k div 64 = 1 \<or> (k div 64 = 2 \<and> k mod 64 < t)" if "k < 128 + t" "t < 64" for k t :: nat
    using that div_mult_mod_eq[of k 64] mod_less_divisor[of 64 k]
    by (cases "k div 64 = 0"; cases "k div 64 = 1"; cases "k div 64 = 2") linarith+
  consider "a \<noteq> 0" | "a = 0" "b \<noteq> 0" | "a = 0" "b = 0" "c \<noteq> 0" | "a = 0" "b = 0" "c = 0" by blast
  then show ?thesis
  proof cases
    case 1
    then show ?thesis using tz64_bit[of a] tz64_less[of a] tz64_least[of a] by (simp add: LenMask mask_has_bit)
  next
    case 2
    note t = tz64_bit[OF 2(2)] tz64_less[OF 2(2)] tz64_least[OF 2(2)]
    have "\<not> mask_has m k" if "k < 64 + tz64 b" for k
      using lt[OF that t(2)] t(3) 2 by (auto simp: LenMask mask_has_bit)
    moreover have "mask_has m (64 + tz64 b)" using dm(1,2)[OF t(2)] t(1) by (simp add: LenMask mask_has_bit)
    ultimately show ?thesis using 2 t(2) by (simp add: LenMask nat_add)
  next
    case 3
    note t = tz64_bit[OF 3(3)] tz64_less[OF 3(3)] tz64_least[OF 3(3)]
    have "\<not> mask_has m k" if "k < 128 + tz64 c" for k
      using lt2[OF that t(2)] t(3) 3 by (auto simp: LenMask mask_has_bit)
    moreover have "mask_has m (128 + tz64 c)" using dm(3,4)[OF t(2)] t(1) by (simp add: LenMask mask_has_bit)
    ultimately show ?thesis using 3 t(2) by (simp add: LenMask nat_add)
  qed (simp add: LenMask zeroMask_def)
qed

end
