(* ===== verification/Netip.thy ===== *)
theory Netip
  imports Rpsl_Prelude
begin

text \<open>
  The part of Go's \<^verbatim>\<open>net/netip\<close> the program is written against: addresses, prefixes,
  \<^verbatim>\<open>PrefixFrom\<close>, \<^verbatim>\<open>Masked\<close>, \<^verbatim>\<open>Contains\<close>, \<^verbatim>\<open>Compare\<close> and the byte views of an address.
  It is a model of the standard library, so none of it is mapped to a file of the
  repository.  The lemmas relate an address to its bits, most significant first, and a
  prefix to its path, the list of its leading bits: the trie of prefix spaces, the
  range operations and origin validation are all stated over these paths.
\<close>

unbundle bit_operations_syntax

subsection \<open>Addresses and prefixes\<close>

text \<open>\<^verbatim>\<open>netip.Addr\<close>: the zero address, an IPv4 address, or an IPv6 address with a zone.\<close>

datatype addr = ZeroAddr | IPv4 "32 word" | IPv6 "128 word" string

fun Is4 :: "addr \<Rightarrow> bool" where
  "Is4 (IPv4 w) = True"
| "Is4 _ = False"

fun Is6 :: "addr \<Rightarrow> bool" where
  "Is6 (IPv6 w z) = True"
| "Is6 _ = False"

fun BitLen :: "addr \<Rightarrow> int" where
  "BitLen ZeroAddr = 0"
| "BitLen (IPv4 w) = 32"
| "BitLen (IPv6 w z) = 128"

fun zone :: "addr \<Rightarrow> string" where
  "zone (IPv6 w z) = z"
| "zone _ = []"

fun withoutZone :: "addr \<Rightarrow> addr" where
  "withoutZone (IPv6 w z) = IPv6 w []"
| "withoutZone a = a"

definition addr_isValid :: "addr \<Rightarrow> bool" where
  "addr_isValid a \<longleftrightarrow> a \<noteq> ZeroAddr"

text \<open>\<^verbatim>\<open>netip.Prefix\<close>: \<open>Bits\<close> is \<open>-1\<close> for an invalid prefix.\<close>

record prefix =
  Addr :: addr
  Bits :: int

definition zeroPrefix :: prefix where
  "zeroPrefix = \<lparr>Addr = ZeroAddr, Bits = -1\<rparr>"

definition PrefixFrom :: "addr \<Rightarrow> int \<Rightarrow> prefix" where
  "PrefixFrom a b =
     \<lparr>Addr = withoutZone a,
      Bits = (if a \<noteq> ZeroAddr \<and> 0 \<le> b \<and> b \<le> BitLen a then b else -1)\<rparr>"

definition prefix_isValid :: "prefix \<Rightarrow> bool" where
  "prefix_isValid p \<longleftrightarrow> 0 \<le> Bits p"

text \<open>\<^verbatim>\<open>Addr.Prefix\<close>: the error is \<open>None\<close>.\<close>

definition addr_Prefix :: "addr \<Rightarrow> int \<Rightarrow> prefix option" where
  "addr_Prefix a b =
     (if b < 0 then None
      else case a of
        ZeroAddr \<Rightarrow> Some zeroPrefix
      | IPv4 w \<Rightarrow>
          if b > 32 then None
          else Some (PrefixFrom (IPv4 (w AND NOT (mask (nat (32 - b))))) b)
      | IPv6 w z \<Rightarrow>
          if b > 128 then None
          else Some (PrefixFrom (IPv6 (w AND NOT (mask (nat (128 - b)))) []) b))"

definition Masked :: "prefix \<Rightarrow> prefix" where
  "Masked p = (case addr_Prefix (Addr p) (Bits p) of None \<Rightarrow> zeroPrefix | Some m \<Rightarrow> m)"

text \<open>\<^verbatim>\<open>Prefix.Contains\<close>: false across families, and for an address with a zone.\<close>

definition prefix_Contains :: "prefix \<Rightarrow> addr \<Rightarrow> bool" where
  "prefix_Contains p a =
     (if \<not> prefix_isValid p \<or> zone a \<noteq> [] then False
      else case (Addr p, a) of
        (IPv4 v, IPv4 w) \<Rightarrow> drop_bit (nat (32 - Bits p)) (w XOR v) = 0
      | (IPv6 v _, IPv6 w _) \<Rightarrow> (w XOR v) AND NOT (mask (nat (128 - Bits p))) = 0
      | _ \<Rightarrow> False)"

text \<open>\<^verbatim>\<open>Addr.Compare\<close>: by bit length, then value, then zone; here only its strict order.\<close>

fun addr_less :: "addr \<Rightarrow> addr \<Rightarrow> bool" where
  "addr_less (IPv4 v) (IPv4 w) = (v < w)"
| "addr_less (IPv6 v _) (IPv6 w _) = (v < w)"
| "addr_less a b = (BitLen a < BitLen b)"

text \<open>
  The values the package can build: an invalid prefix, or a valid one whose address is a
  zoneless address of a family at least as wide as the length.
\<close>

definition wf_prefix :: "prefix \<Rightarrow> bool" where
  "wf_prefix p \<longleftrightarrow>
     zone (Addr p) = [] \<and>
     (Bits p = -1 \<or> (Addr p \<noteq> ZeroAddr \<and> 0 \<le> Bits p \<and> Bits p \<le> BitLen (Addr p)))"

subsection \<open>Bits and paths\<close>

fun abit :: "addr \<Rightarrow> nat \<Rightarrow> bool" where
  "abit ZeroAddr i = False"
| "abit (IPv4 w) i = (i < 32 \<and> bit w (31 - i))"
| "abit (IPv6 w z) i = (i < 128 \<and> bit w (127 - i))"

definition prefix_path :: "prefix \<Rightarrow> bool list" where
  "prefix_path p = map (abit (Addr p)) [0..<nat (Bits p)]"

lemma BitLen_cases: "a \<noteq> ZeroAddr \<Longrightarrow> BitLen a = (if Is4 a then 32 else 128)"
  by (cases a) auto

lemma BitLen_nonneg [simp]: "0 \<le> BitLen a" and BitLen_le [simp]: "BitLen a \<le> 128"
  by (cases a; simp)+

lemma withoutZone_simps [netip_simps]:
  "Is4 (withoutZone a) = Is4 a" "Is6 (withoutZone a) = Is6 a" "BitLen (withoutZone a) = BitLen a"
  "zone (withoutZone a) = []" "abit (withoutZone a) i = abit a i"
  "(withoutZone a = ZeroAddr) = (a = ZeroAddr)"
  by (cases a; simp)+

lemma withoutZone_id: "zone a = [] \<Longrightarrow> withoutZone a = a"
  by (cases a) auto

lemma addr_eqI:
  assumes "Is4 a = Is4 b" "Is6 a = Is6 b" "zone a = zone b" "\<And>i. abit a i = abit b i"
  shows "a = b"
proof (cases a)
  case ZeroAddr
  with assms show ?thesis by (cases b) auto
next
  case (IPv4 v)
  with assms obtain w where b: "b = IPv4 w" by (cases b) auto
  have "v = w"
  proof (rule bit_word_eqI)
    fix n assume "n < LENGTH(32)"
    with assms(4)[of "31 - n"] IPv4 b show "bit v n = bit w n" by auto
  qed
  with IPv4 b show ?thesis by simp
next
  case (IPv6 v z)
  with assms obtain w where b: "b = IPv6 w z" by (cases b) auto
  have "v = w"
  proof (rule bit_word_eqI)
    fix n assume "n < LENGTH(128)"
    with assms(4)[of "127 - n"] IPv6 b show "bit v n = bit w n" by auto
  qed
  with IPv6 b show ?thesis by simp
qed

lemma abit_ge: "BitLen a \<le> int i \<Longrightarrow> \<not> abit a i"
  by (cases a) auto

subsection \<open>Masking and containment, by bits\<close>

lemma wf_prefix_PrefixFrom [netip_simps, simp]: "wf_prefix (PrefixFrom a b)"
  by (auto simp: wf_prefix_def PrefixFrom_def netip_simps)

lemma wf_prefix_zeroPrefix [netip_simps, simp]: "wf_prefix zeroPrefix"
  by (simp add: wf_prefix_def zeroPrefix_def)

lemma wf_prefix_Masked [simp]: "wf_prefix (Masked p)"
  by (auto simp: Masked_def addr_Prefix_def split: addr.splits option.splits)

lemma invalid_zeroPrefix [simp]: "\<not> prefix_isValid zeroPrefix"
  by (simp add: zeroPrefix_def prefix_isValid_def)

lemma Masked_invalid: "\<not> prefix_isValid p \<Longrightarrow> Masked p = zeroPrefix"
  by (simp add: Masked_def addr_Prefix_def prefix_isValid_def)

lemma Masked_valid:
  assumes "wf_prefix p" "prefix_isValid p"
  shows "Bits (Masked p) = Bits p" "Is4 (Addr (Masked p)) = Is4 (Addr p)"
    "Is6 (Addr (Masked p)) = Is6 (Addr p)" "zone (Addr (Masked p)) = []"
    "BitLen (Addr (Masked p)) = BitLen (Addr p)" "prefix_isValid (Masked p)"
  using assms
  by (auto simp: Masked_def addr_Prefix_def PrefixFrom_def wf_prefix_def prefix_isValid_def
      split: addr.splits)

lemma abit_Masked:
  assumes "wf_prefix p" "prefix_isValid p"
  shows "abit (Addr (Masked p)) i \<longleftrightarrow> int i < Bits p \<and> abit (Addr p) i"
proof (cases "Addr p")
  case ZeroAddr
  with assms show ?thesis by (auto simp: wf_prefix_def prefix_isValid_def)
next
  case (IPv4 w)
  with assms have b: "0 \<le> Bits p" "Bits p \<le> 32"
    by (auto simp: wf_prefix_def prefix_isValid_def)
  have "\<not> 31 - i < nat (32 - Bits p) \<longleftrightarrow> int i < Bits p" if "i < 32"
    using b that by linarith
  with IPv4 b show ?thesis
    by (auto simp: Masked_def addr_Prefix_def PrefixFrom_def bit_simps)
next
  case (IPv6 w z)
  with assms have b: "0 \<le> Bits p" "Bits p \<le> 128"
    by (auto simp: wf_prefix_def prefix_isValid_def)
  have "\<not> 127 - i < nat (128 - Bits p) \<longleftrightarrow> int i < Bits p" if "i < 128"
    using b that by linarith
  with IPv6 b show ?thesis
    by (auto simp: Masked_def addr_Prefix_def PrefixFrom_def bit_simps)
qed

lemma prefix_path_Masked [path_simps]:
  assumes "wf_prefix p"
  shows "prefix_path (Masked p) = prefix_path p"
proof (cases "prefix_isValid p")
  case True
  with assms show ?thesis
    by (auto simp: prefix_path_def abit_Masked Masked_valid)
next
  case False
  then show ?thesis
    by (simp add: prefix_path_def Masked_invalid zeroPrefix_def prefix_isValid_def)
qed

lemma length_prefix_path [path_simps]: "length (prefix_path p) = nat (Bits p)"
  by (simp add: prefix_path_def)

lemma nth_prefix_path [path_simps]: "i < nat (Bits p) \<Longrightarrow> prefix_path p ! i = abit (Addr p) i"
  by (simp add: prefix_path_def)

text \<open>Masked prefixes are determined by their family and path.\<close>

lemma masked_prefix_eqI:
  assumes p: "wf_prefix p" "prefix_isValid p" "Masked p = p"
    and q: "wf_prefix q" "prefix_isValid q" "Masked q = q"
    and fam: "Is4 (Addr p) = Is4 (Addr q)" and path: "prefix_path p = prefix_path q"
  shows "p = q"
proof -
  have len: "Bits p = Bits q"
    using p(2) q(2) arg_cong[OF path, of length]
    by (simp add: path_simps prefix_isValid_def)
  have bits: "abit (Addr p) i = abit (Addr q) i" for i
  proof (cases "int i < Bits p")
    case True
    then have i: "i < nat (Bits p)" "i < nat (Bits q)" using len by auto
    with path show ?thesis by (metis nth_prefix_path)
  next
    case False
    then have "\<not> abit (Addr p) i" "\<not> abit (Addr q) i"
      using abit_Masked[OF p(1,2), of i] abit_Masked[OF q(1,2), of i] p(3) q(3) len by auto
    then show ?thesis by simp
  qed
  have "Addr p = Addr q"
  proof (rule addr_eqI)
    show "Is6 (Addr p) = Is6 (Addr q)"
      using fam p(1,2) q(1,2) by (cases "Addr p"; cases "Addr q") (auto simp: wf_prefix_def prefix_isValid_def)
    show "zone (Addr p) = zone (Addr q)" using p(1) q(1) by (simp add: wf_prefix_def)
  qed (use fam bits in auto)
  with len show ?thesis by simp
qed

lemma Masked_idem [simp]: "wf_prefix p \<Longrightarrow> Masked (Masked p) = Masked p"
proof (cases "prefix_isValid p")
  case True
  assume wf: "wf_prefix p"
  let ?m = "Masked p"
  have v: "prefix_isValid ?m" "wf_prefix ?m" using wf True by (simp_all add: Masked_valid)
  have b: "Bits (Masked ?m) = Bits ?m" using v by (simp add: Masked_valid)
  have "Addr (Masked ?m) = Addr ?m"
    by (rule addr_eqI) (use wf True v in \<open>auto simp: Masked_valid abit_Masked\<close>)
  with b show ?thesis by simp
qed (simp add: Masked_def zeroPrefix_def addr_Prefix_def prefix_isValid_def)

lemma prefix_Contains_iff:
  assumes "wf_prefix p" "prefix_isValid p" "zone a = []"
  shows "prefix_Contains p a \<longleftrightarrow>
     Is4 (Addr p) = Is4 a \<and> Is6 (Addr p) = Is6 a \<and> (\<forall>i < nat (Bits p). abit a i = abit (Addr p) i)"
proof (cases "Addr p")
  case ZeroAddr
  with assms show ?thesis by (auto simp: wf_prefix_def prefix_isValid_def)
next
  case (IPv4 v)
  then have b: "0 \<le> Bits p" "Bits p \<le> 32" using assms by (auto simp: wf_prefix_def prefix_isValid_def)
  show ?thesis
  proof (cases a)
    case (IPv4 w)
    have "drop_bit (nat (32 - Bits p)) (w XOR v) = 0 \<longleftrightarrow> (\<forall>i < nat (Bits p). bit w (31 - i) = bit v (31 - i))"
      (is "?l \<longleftrightarrow> ?r")
    proof
      assume l: ?l
      show ?r
      proof (intro allI impI)
        fix i assume i: "i < nat (Bits p)"
        have "\<not> bit (drop_bit (nat (32 - Bits p)) (w XOR v)) (nat (Bits p) - 1 - i)" using l by simp
        moreover have "nat (32 - Bits p) + (nat (Bits p) - 1 - i) = 31 - i" using b i by linarith
        ultimately show "bit w (31 - i) = bit v (31 - i)"
          using i by (simp add: bit_drop_bit_eq bit_xor_iff)
      qed
    next
      assume r: ?r
      show ?l
      proof (rule bit_word_eqI)
        fix n assume "n < LENGTH(32)"
        show "bit (drop_bit (nat (32 - Bits p)) (w XOR v)) n = bit (0 :: 32 word) n"
        proof (cases "n < nat (Bits p)")
          case True
          then have "31 - (nat (Bits p) - 1 - n) = nat (32 - Bits p) + n" using b by linarith
          with r[rule_format, of "nat (Bits p) - 1 - n"] True show ?thesis
            by (simp add: bit_drop_bit_eq bit_xor_iff)
        next
          case False
          then have "32 \<le> nat (32 - Bits p) + n" using b by linarith
          then show ?thesis by (auto simp: bit_simps dest: bit_imp_le_length)
        qed
      qed
    qed
    with IPv4 \<open>Addr p = IPv4 v\<close> assms b show ?thesis by (auto simp: prefix_Contains_def)
  qed (use IPv4 in \<open>auto simp: prefix_Contains_def\<close>)
next
  case (IPv6 v z)
  then have b: "0 \<le> Bits p" "Bits p \<le> 128" using assms by (auto simp: wf_prefix_def prefix_isValid_def)
  show ?thesis
  proof (cases a)
    case (IPv6 w z')
    have "(w XOR v) AND NOT (mask (nat (128 - Bits p))) = 0 \<longleftrightarrow>
        (\<forall>i < nat (Bits p). bit w (127 - i) = bit v (127 - i))"
      (is "?l \<longleftrightarrow> ?r")
    proof
      assume l: ?l
      show ?r
      proof (intro allI impI)
        fix i assume i: "i < nat (Bits p)"
        have "\<not> bit ((w XOR v) AND NOT (mask (nat (128 - Bits p)))) (127 - i)" using l by simp
        moreover have "\<not> 127 - i < nat (128 - Bits p)" "127 - i < 128" using b i by linarith+
        ultimately show "bit w (127 - i) = bit v (127 - i)" by (simp add: bit_simps)
      qed
    next
      assume r: ?r
      show ?l
      proof (rule bit_word_eqI)
        fix n assume n: "n < LENGTH(128)"
        show "bit ((w XOR v) AND NOT (mask (nat (128 - Bits p)))) n = bit (0 :: 128 word) n"
        proof (cases "n < nat (128 - Bits p)")
          case False
          then have "127 - n < nat (Bits p)" using b n by simp
          with r[rule_format, of "127 - n"] n show ?thesis by (auto simp: bit_simps)
        qed (simp add: bit_simps)
      qed
    qed
    with IPv6 \<open>Addr p = IPv6 v z\<close> assms b show ?thesis by (auto simp: prefix_Contains_def)
  qed (use IPv6 in \<open>auto simp: prefix_Contains_def\<close>)
qed

lemma prefix_Contains_path:
  assumes "wf_prefix p" "prefix_isValid p" "wf_prefix q" "prefix_isValid q"
  shows "Bits p \<le> Bits q \<and> prefix_Contains p (Addr q) \<longleftrightarrow>
     Is4 (Addr p) = Is4 (Addr q) \<and> Bits p \<le> Bits q \<and> prefix_path p = take (nat (Bits p)) (prefix_path q)"
proof -
  have fam: "Is6 (Addr p) = Is6 (Addr q)" if "Is4 (Addr p) = Is4 (Addr q)"
    using that assms by (cases "Addr p"; cases "Addr q") (auto simp: wf_prefix_def prefix_isValid_def)
  have "take (nat (Bits p)) (prefix_path q) = map (abit (Addr q)) [0..<nat (Bits p)]" if "Bits p \<le> Bits q"
    using that by (simp add: prefix_path_def take_map min_def)
  moreover have "zone (Addr q) = []" using assms(3) by (simp add: wf_prefix_def)
  ultimately show ?thesis
    using fam by (auto simp: prefix_Contains_iff[OF assms(1,2)] prefix_path_def)
qed

text \<open>\<^verbatim>\<open>Addr.Prefix\<close>: the ancestor of a prefix at a shorter length.\<close>

lemma addr_Prefix_ancestor:
  assumes q: "wf_prefix q" "prefix_isValid q" and k: "0 \<le> k" "k \<le> Bits q"
  obtains m where "addr_Prefix (Addr q) k = Some m" "wf_prefix m" "prefix_isValid m" "Masked m = m"
    "Bits m = k" "Is4 (Addr m) = Is4 (Addr q)" "prefix_path m = take (nat k) (prefix_path q)"
proof -
  let ?q = "\<lparr>Addr = Addr q, Bits = k\<rparr>"
  have wf: "wf_prefix ?q" "prefix_isValid ?q" using q k by (auto simp: wf_prefix_def prefix_isValid_def)
  have "addr_Prefix (Addr q) k = Some (Masked ?q)"
    using q k by (auto simp: Masked_def addr_Prefix_def wf_prefix_def prefix_isValid_def split: addr.splits)
  moreover have "prefix_path (Masked ?q) = take (nat k) (prefix_path q)"
    using wf k by (simp add: prefix_path_Masked) (simp add: prefix_path_def take_map min_def)
  ultimately show thesis using wf by (intro that) (simp_all add: Masked_valid)
qed

lemma same_family:
  "wf_prefix p \<Longrightarrow> prefix_isValid p \<Longrightarrow> wf_prefix q \<Longrightarrow> prefix_isValid q \<Longrightarrow>
   Is4 (Addr p) = Is4 (Addr q) \<Longrightarrow> BitLen (Addr p) = BitLen (Addr q)"
  by (cases "Addr p"; cases "Addr q") (auto simp: wf_prefix_def prefix_isValid_def)

lemma prefix_bounds:
  "wf_prefix p \<Longrightarrow> prefix_isValid p \<Longrightarrow> 0 \<le> Bits p \<and> Bits p \<le> BitLen (Addr p) \<and> Bits p \<le> 128"
  by (auto simp: wf_prefix_def prefix_isValid_def intro: order_trans[OF _ BitLen_le])

subsection \<open>Addresses as big-endian bytes\<close>

definition to_bytes :: "nat \<Rightarrow> 'a::len word \<Rightarrow> u8 list" where
  "to_bytes n w = map (\<lambda>i. ucast (drop_bit (8 * (n - 1 - i)) w)) [0..<n]"

definition of_bytes :: "u8 list \<Rightarrow> 'a::len word" where
  "of_bytes bs = foldl (\<lambda>w b. push_bit 8 w OR ucast b) 0 bs"

text \<open>\<^verbatim>\<open>Addr.AsSlice\<close> and \<^verbatim>\<open>AddrFromSlice\<close> (the zone is not in the bytes).\<close>

fun AsSlice :: "addr \<Rightarrow> u8 list" where
  "AsSlice ZeroAddr = []"
| "AsSlice (IPv4 w) = to_bytes 4 w"
| "AsSlice (IPv6 w z) = to_bytes 16 w"

definition AddrFromSlice :: "u8 list \<Rightarrow> addr" where
  "AddrFromSlice bs =
     (if length bs = 4 then IPv4 (of_bytes bs)
      else if length bs = 16 then IPv6 (of_bytes bs) [] else ZeroAddr)"

text \<open>Bit \<open>i\<close> of a byte string, most significant first.\<close>

definition bbit :: "u8 list \<Rightarrow> nat \<Rightarrow> bool" where
  "bbit bs i \<longleftrightarrow> i < 8 * length bs \<and> bit (bs ! (i div 8)) (7 - i mod 8)"

lemma length_to_bytes [simp]: "length (to_bytes n w) = n"
  by (simp add: to_bytes_def)

lemma bit_of_bytes:
  "bit (of_bytes bs :: 'a::len word) j \<longleftrightarrow>
     j < LENGTH('a) \<and> j < 8 * length bs \<and> bit (bs ! (length bs - 1 - j div 8)) (j mod 8)"
proof (induction bs arbitrary: j rule: rev_induct)
  case (snoc b bs)
  have step: "of_bytes (bs @ [b]) = (push_bit 8 (of_bytes bs) OR ucast b :: 'a word)"
    by (simp add: of_bytes_def)
  show ?case
  proof (cases "j < 8")
    case True
    then show ?thesis
      unfolding step by (auto simp: bit_or_iff bit_push_bit_iff bit_ucast_iff nth_append)
  next
    case False
    then have j: "j - 8 < 8 * length bs \<longleftrightarrow> j < 8 * length (bs @ [b])" "(j - 8) mod 8 = j mod 8"
        "(j - 8) div 8 = j div 8 - 1" "1 \<le> j div 8"
      by (auto simp: le_mod_geq le_div_geq)
    have "\<not> bit b j" using False by (auto dest: bit_imp_le_length)
    moreover have "length bs - 1 - (j - 8) div 8 = length (bs @ [b]) - 1 - j div 8" using j by simp
    moreover have "length (bs @ [b]) - 1 - j div 8 < length bs \<or> \<not> j < 8 * length (bs @ [b])"
      using j(4) by auto
    ultimately show ?thesis
      unfolding step using False snoc.IH[of "j - 8"] j
      by (auto simp: bit_or_iff bit_push_bit_iff bit_ucast_iff nth_append)
  qed
qed (simp add: of_bytes_def)

lemma bbit_to_bytes:
  assumes "LENGTH('a) = 8 * n"
  shows "bbit (to_bytes n (w :: 'a::len word)) i \<longleftrightarrow> i < 8 * n \<and> bit w (8 * n - 1 - i)"
proof (cases "i < 8 * n")
  case True
  then have d: "i div 8 < n" by auto
  have "8 * (n - 1 - i div 8) + (7 - i mod 8) = 8 * n - 1 - i"
  proof -
    have "8 * (i div 8) + i mod 8 = i" by simp
    moreover have "i mod 8 < 8" by simp
    ultimately show ?thesis using d by linarith
  qed
  then show ?thesis using True d
    by (auto simp: bbit_def to_bytes_def bit_ucast_iff bit_drop_bit_eq ac_simps)
qed (simp add: bbit_def)

lemma bbit_AsSlice: "bbit (AsSlice a) i = abit a i"
  by (cases a) (auto simp: bbit_to_bytes, simp add: bbit_def)

lemma abit_AddrFromSlice:
  assumes "length bs = 4 \<or> length bs = 16"
  shows "abit (AddrFromSlice bs) i = bbit bs i"
proof -
  have *: "i < 8 * length bs \<Longrightarrow> length bs - 1 - (8 * length bs - 1 - i) div 8 = i div 8 \<and>
      (8 * length bs - 1 - i) mod 8 = 7 - i mod 8"
  proof -
    assume i: "i < 8 * length bs"
    let ?q = "length bs - 1 - i div 8"
    have "8 * (i div 8) + i mod 8 = i" "i mod 8 < 8" "i div 8 < length bs" using i by auto
    then have "8 * length bs - 1 - i = 8 * ?q + (7 - i mod 8)" "7 - i mod 8 < 8" by linarith+
    moreover have "(8 * q + c) div 8 = q" "(8 * q + c) mod 8 = c" if "c < 8" for q c :: nat
      using that by simp_all
    ultimately have "(8 * length bs - 1 - i) div 8 = ?q" "(8 * length bs - 1 - i) mod 8 = 7 - i mod 8"
      by metis+
    then show ?thesis using \<open>i div 8 < length bs\<close> by simp
  qed
  show ?thesis
    using assms * by (auto simp: AddrFromSlice_def bbit_def bit_of_bytes)
qed

lemma AddrFromSlice_family:
  assumes "length bs = length (AsSlice a)" "a \<noteq> ZeroAddr"
  shows "Is4 (AddrFromSlice bs) = Is4 a" "Is6 (AddrFromSlice bs) = Is6 a" "zone (AddrFromSlice bs) = []"
    "BitLen (AddrFromSlice bs) = BitLen a" "AddrFromSlice bs \<noteq> ZeroAddr"
  using assms by (cases a; simp add: AddrFromSlice_def)+

lemma AddrFromSlice_AsSlice: "zone a = [] \<Longrightarrow> AddrFromSlice (AsSlice a) = a"
proof (cases "a = ZeroAddr")
  case False
  assume "zone a = []"
  moreover have "length (AsSlice a) = 4 \<or> length (AsSlice a) = 16" using False by (cases a) auto
  ultimately show ?thesis
    using AddrFromSlice_family[OF refl False] by (intro addr_eqI) (simp_all add: abit_AddrFromSlice bbit_AsSlice)
qed (simp add: AddrFromSlice_def)

text \<open>Setting and clearing one bit of a byte string with the mask \<^verbatim>\<open>1 << (7 - d%8)\<close>.\<close>

definition bmask :: "nat \<Rightarrow> u8" where
  "bmask d = push_bit (7 - d mod 8) 1"

lemma bit_bmask: "bit (bmask d) n \<longleftrightarrow> n = 7 - d mod 8"
proof -
  have "7 - d mod 8 < 8" by simp
  then show ?thesis by (auto simp: bmask_def bit_exp_iff)
qed

lemma seven_minus_mod_eq: "7 - i mod 8 = 7 - j mod 8 \<longleftrightarrow> i mod 8 = j mod (8::nat)"
proof -
  have "i mod 8 < 8" "j mod 8 < 8" by simp_all
  then show ?thesis by linarith
qed

lemma div_mod_eq_iff: "i div 8 = j div 8 \<Longrightarrow> i mod 8 = j mod (8::nat) \<longleftrightarrow> i = j"
  by (metis div_mult_mod_eq)

lemma bbit_test: "d < 8 * length b \<Longrightarrow> b ! (d div 8) AND bmask d = 0 \<longleftrightarrow> \<not> bbit b d"
proof
  assume d: "d < 8 * length b" and "b ! (d div 8) AND bmask d = 0"
  then have "\<not> bit (b ! (d div 8) AND bmask d) (7 - d mod 8)" by simp
  with d show "\<not> bbit b d" by (simp add: bit_and_iff bit_bmask bbit_def)
next
  assume d: "d < 8 * length b" and "\<not> bbit b d"
  then have n: "\<not> bit (b ! (d div 8)) (7 - d mod 8)" by (simp add: bbit_def)
  show "b ! (d div 8) AND bmask d = 0"
    by (rule bit_word_eqI) (use n in \<open>auto simp: bit_and_iff bit_bmask\<close>)
qed

lemma bbit_set:
  assumes "d < 8 * length b"
  shows "bbit (b[d div 8 := b ! (d div 8) OR bmask d]) i \<longleftrightarrow> i = d \<or> bbit b i"
proof (cases "i div 8 = d div 8")
  case True
  then show ?thesis using assms div_mod_eq_iff[OF True]
    by (auto simp: bbit_def bit_or_iff bit_bmask seven_minus_mod_eq)
qed (auto simp: bbit_def nth_list_update)

lemma bbit_clear:
  assumes "d < 8 * length b"
  shows "bbit (b[d div 8 := b ! (d div 8) AND NOT (bmask d)]) i \<longleftrightarrow> i \<noteq> d \<and> bbit b i"
proof (cases "i div 8 = d div 8")
  case True
  have "i mod 8 < 8" by simp
  then have "7 - i mod 8 < 8" by linarith
  then show ?thesis using assms True div_mod_eq_iff[OF True]
    by (auto simp: bbit_def bit_simps bit_bmask seven_minus_mod_eq)
qed (auto simp: bbit_def nth_list_update)

lemma bbit_eqI:
  assumes "length a = length b" "\<And>i. bbit a i = bbit b i"
  shows "a = b"
proof (rule nth_equalityI)
  fix k assume k: "k < length a"
  show "a ! k = b ! k"
  proof (rule bit_word_eqI)
    fix n assume "n < LENGTH(8)"
    then have n: "n < 8" by simp
    have c: "(8 * k + c) div 8 = k" "(8 * k + c) mod 8 = c" if "c < 8" for c using that by simp_all
    have i: "8 * k + (7 - n) < 8 * length a" "(8 * k + (7 - n)) div 8 = k" "7 - (8 * k + (7 - n)) mod 8 = n"
      using k n c[of "7 - n"] by linarith+
    from assms(2)[of "8 * k + (7 - n)"] show "bit (a ! k) n = bit (b ! k) n"
      unfolding bbit_def i using i assms(1) by simp
  qed
qed (fact assms(1))

end
