(* ===== verification/Prefix_Range.thy ===== *)
theory Prefix_Range
  imports Netip
begin

text \<open>
  Prefix ranges and range operators (\<^verbatim>\<open>types/prefixrange.go\<close>, \<^verbatim>\<open>types/rangeop.go\<close>):
  a prefix with a window of more-specific lengths, the operators \<^verbatim>\<open>^+\<close>, \<^verbatim>\<open>^-\<close>, \<^verbatim>\<open>^n\<close>,
  \<^verbatim>\<open>^n-m\<close>, their composition, intersection and enumeration.
\<close>

subsection \<open>Data\<close>

datatype RangeOp = RangeExact | RangeMinus | RangePlus | RangeLength | RangeRange

record PrefixRange =
  rprefix :: prefix
  rlo :: u8
  rhi :: u8

record RangeOperator =
  Op :: RangeOp
  opN :: u8
  opM :: u8

definition zeroRange :: PrefixRange where
  "zeroRange = \<lparr>rprefix = zeroPrefix, rlo = 0, rhi = 0\<rparr>"

subsection \<open>Construction and observation\<close>

definition NewPrefixRange :: "prefix \<Rightarrow> int \<Rightarrow> int \<Rightarrow> PrefixRange option" where
  "NewPrefixRange p lo hi =
     (if \<not> prefix_isValid p then None
      else let p = Masked p; lo = max lo (Bits p); hi = min hi (BitLen (Addr p)) in
        if lo > hi then None
        else Some \<lparr>rprefix = p, rlo = of_int lo, rhi = of_int hi\<rparr>)"

definition Lo :: "PrefixRange \<Rightarrow> int" where "Lo r = uint (rlo r)"
definition Hi :: "PrefixRange \<Rightarrow> int" where "Hi r = uint (rhi r)"

definition range_IsZero :: "PrefixRange \<Rightarrow> bool" where
  "range_IsZero r \<longleftrightarrow> \<not> prefix_isValid (rprefix r)"

definition range_IsEmpty :: "PrefixRange \<Rightarrow> bool" where
  "range_IsEmpty r \<longleftrightarrow> range_IsZero r \<or> rlo r > rhi r"

definition range_Op :: "PrefixRange \<Rightarrow> RangeOp" where
  "range_Op r =
     (let bits = Bits (rprefix r); maxBits = BitLen (Addr (rprefix r)); lo = Lo r; hi = Hi r in
      if lo = bits \<and> hi = bits then RangeExact
      else if lo = bits \<and> hi = maxBits then RangePlus
      else if lo = bits + 1 \<and> hi = maxBits then RangeMinus
      else if lo = hi then RangeLength
      else RangeRange)"

definition range_Contains :: "PrefixRange \<Rightarrow> prefix \<Rightarrow> bool" where
  "range_Contains r p =
     (if range_IsEmpty r \<or> \<not> prefix_isValid p then False
      else let p = Masked p in
        if Bits p < Lo r \<or> Bits p > Hi r then False
        else prefix_Contains (rprefix r) (Addr p))"

definition range_Intersect :: "PrefixRange \<Rightarrow> PrefixRange \<Rightarrow> PrefixRange option" where
  "range_Intersect r s =
     (if range_IsEmpty r \<or> range_IsEmpty s then None
      else let base = (if Bits (rprefix s) > Bits (rprefix r) then rprefix s else rprefix r) in
        if \<not> prefix_Contains (rprefix r) (Addr base) \<or> \<not> prefix_Contains (rprefix s) (Addr base)
        then None
        else let lo = max (max (Lo r) (Lo s)) (Bits base); hi = min (Hi r) (Hi s) in
          if lo > hi then None
          else Some \<lparr>rprefix = base, rlo = of_int lo, rhi = of_int hi\<rparr>)"

definition op_IsZero :: "RangeOperator \<Rightarrow> bool" where
  "op_IsZero oper \<longleftrightarrow> Op oper = RangeExact"

definition op_Apply :: "RangeOperator \<Rightarrow> PrefixRange \<Rightarrow> PrefixRange option" where
  "op_Apply oper r =
     (if op_IsZero oper then Some r
      else if range_IsZero r then None
      else let k = Lo r; maxBits = BitLen (Addr (rprefix r));
               (n, m) = (case Op oper of
                   RangePlus \<Rightarrow> (k, maxBits)
                 | RangeMinus \<Rightarrow> (k + 1, maxBits)
                 | _ \<Rightarrow> (uint (opN oper), uint (opM oper)));
               m = min m maxBits;
               lo = max n k in
           if lo > m then None else NewPrefixRange (rprefix r) lo m)"

subsection \<open>Well-formed values\<close>

text \<open>
  \<^verbatim>\<open>PrefixRange\<close> is opaque: its constructors keep the base prefix masked and the window
  inside it.  The one window that is empty is that of a host prefix with \<^verbatim>\<open>^-\<close>.
\<close>

definition wf_range :: "PrefixRange \<Rightarrow> bool" where
  "wf_range r \<longleftrightarrow>
     r = zeroRange \<or>
     (wf_prefix (rprefix r) \<and> prefix_isValid (rprefix r) \<and> Masked (rprefix r) = rprefix r \<and>
      Bits (rprefix r) \<le> Lo r \<and> Hi r \<le> BitLen (Addr (rprefix r)) \<and>
      (Lo r \<le> Hi r \<or> (Lo r = Hi r + 1 \<and> Hi r = BitLen (Addr (rprefix r)) \<and> Bits (rprefix r) = Hi r)))"

text \<open>The operators \<^verbatim>\<open>ParseRangeOperator\<close> returns, and the zero operator.\<close>

definition wf_op :: "RangeOperator \<Rightarrow> bool" where
  "wf_op oper \<longleftrightarrow>
     uint (opM oper) \<le> 128 \<and>
     (case Op oper of
        RangeLength \<Rightarrow> opN oper = opM oper
      | RangeRange \<Rightarrow> opN oper \<le> opM oper
      | _ \<Rightarrow> opN oper = 0 \<and> opM oper = 0)"

lemma Lo_bounds [simp]: "0 \<le> Lo r" "Lo r < 256" and Hi_bounds [simp]: "0 \<le> Hi r" "Hi r < 256"
  using uint_lt2p[of "rlo r"] uint_lt2p[of "rhi r"] by (simp_all add: Lo_def Hi_def)

lemma range_IsEmpty_iff: "range_IsEmpty r \<longleftrightarrow> \<not> prefix_isValid (rprefix r) \<or> Hi r < Lo r"
  by (simp add: range_IsEmpty_def range_IsZero_def word_less_alt Lo_def Hi_def)

lemma range_zero [simp]: "range_IsZero zeroRange" "range_IsEmpty zeroRange"
  by (simp_all add: range_IsEmpty_def range_IsZero_def zeroRange_def zeroPrefix_def prefix_isValid_def)

lemma wf_rangeD:
  assumes "wf_range r" "\<not> range_IsEmpty r"
  shows "wf_prefix (rprefix r)" "prefix_isValid (rprefix r)" "Masked (rprefix r) = rprefix r"
    "0 \<le> Bits (rprefix r)" "Bits (rprefix r) \<le> Lo r" "Lo r \<le> Hi r"
    "Hi r \<le> BitLen (Addr (rprefix r))"
  using assms by (auto simp: wf_range_def range_IsEmpty_iff prefix_isValid_def zeroRange_def zeroPrefix_def)

lemma NewPrefixRange_Some:
  assumes "NewPrefixRange p lo hi = Some r" "wf_prefix p"
  shows "rprefix r = Masked p" "Lo r = max lo (Bits p)" "Hi r = min hi (BitLen (Addr p))"
    "prefix_isValid p" "wf_range r" "\<not> range_IsEmpty r"
proof -
  from assms have v: "prefix_isValid p" by (auto simp: NewPrefixRange_def split: if_splits)
  let ?lo = "max lo (Bits p)" and ?hi = "min hi (BitLen (Addr p))"
  have b: "0 \<le> ?lo" using v by (simp add: prefix_isValid_def)
  have le: "?lo \<le> ?hi" and r: "r = \<lparr>rprefix = Masked p, rlo = of_int ?lo, rhi = of_int ?hi\<rparr>"
    using assms v by (auto simp: NewPrefixRange_def Let_def Masked_valid split: if_splits)
  have "?hi \<le> 128" using BitLen_le[of "Addr p"] by (simp add: min_le_iff_disj)
  with b le have *: "0 \<le> ?lo" "?lo < 256" "0 \<le> ?hi" "?hi < 256" by linarith+
  show "rprefix r = Masked p" "prefix_isValid p" using r v by simp_all
  show lo: "Lo r = ?lo" and hi: "Hi r = ?hi" using r * by (simp_all only: Lo_def Hi_def) simp_all
  from r lo hi le v assms(2) show "wf_range r"
    by (auto simp: wf_range_def Masked_valid min_def max_def)
  have "\<not> Hi r < Lo r" unfolding lo hi using le by (rule leD)
  then show "\<not> range_IsEmpty r"
    using r v assms(2) by (simp add: range_IsEmpty_iff Masked_valid)
qed

lemma NewPrefixRange_None:
  "wf_prefix p \<Longrightarrow> NewPrefixRange p lo hi = None \<longleftrightarrow>
     \<not> prefix_isValid p \<or> min hi (BitLen (Addr p)) < max lo (Bits p)"
  by (auto simp: NewPrefixRange_def Let_def Masked_valid)

subsection \<open>What a range denotes\<close>

lemma range_Contains_iff:
  assumes "wf_range r" "wf_prefix p"
  shows "range_Contains r p \<longleftrightarrow>
     \<not> range_IsEmpty r \<and> prefix_isValid p \<and> Lo r \<le> Bits p \<and> Bits p \<le> Hi r \<and>
     Is4 (Addr (rprefix r)) = Is4 (Addr p) \<and>
     prefix_path (rprefix r) = take (nat (Bits (rprefix r))) (prefix_path p)"
proof (cases "\<not> range_IsEmpty r \<and> prefix_isValid p")
  case True
  note d = wf_rangeD[OF assms(1) conjunct1[OF True]]
  have m: "prefix_isValid (Masked p)" "wf_prefix (Masked p)" using True assms by (simp_all add: Masked_valid)
  have "range_Contains r p \<longleftrightarrow> Lo r \<le> Bits p \<and> Bits p \<le> Hi r \<and> prefix_Contains (rprefix r) (Addr (Masked p))"
    using True assms by (auto simp: range_Contains_def Let_def Masked_valid)
  also have "\<dots> \<longleftrightarrow> Lo r \<le> Bits p \<and> Bits p \<le> Hi r \<and> (Bits (rprefix r) \<le> Bits (Masked p) \<and> prefix_Contains (rprefix r) (Addr (Masked p)))"
    using d True assms by (auto simp: Masked_valid)
  finally show ?thesis
    unfolding prefix_Contains_path[OF d(1,2) m(2,1)]
    using True assms d by (auto simp: Masked_valid path_simps)
qed (auto simp: range_Contains_def)

lemma range_Contains_Masked:
  "wf_range r \<Longrightarrow> wf_prefix p \<Longrightarrow> range_Contains r (Masked p) = range_Contains r p"
  by (cases "prefix_isValid p")
     (auto simp: range_Contains_iff Masked_valid path_simps Masked_invalid invalid_zeroPrefix)

subsection \<open>Intersection\<close>

definition inter_base :: "PrefixRange \<Rightarrow> PrefixRange \<Rightarrow> prefix" where
  "inter_base r s = (if Bits (rprefix s) > Bits (rprefix r) then rprefix s else rprefix r)"

lemma range_Intersect_eq:
  "range_Intersect r s =
     (if range_IsEmpty r \<or> range_IsEmpty s \<or> \<not> prefix_Contains (rprefix r) (Addr (inter_base r s)) \<or>
         \<not> prefix_Contains (rprefix s) (Addr (inter_base r s)) \<or>
         min (Hi r) (Hi s) < max (max (Lo r) (Lo s)) (Bits (inter_base r s))
      then None
      else Some \<lparr>rprefix = inter_base r s,
                 rlo = of_int (max (max (Lo r) (Lo s)) (Bits (inter_base r s))),
                 rhi = of_int (min (Hi r) (Hi s))\<rparr>)"
  unfolding range_Intersect_def Let_def inter_base_def[symmetric] by (simp only: if_True if_False simp_thms split: if_split) blast

lemma inter_base:
  assumes "wf_range r" "wf_range s" "\<not> range_IsEmpty r" "\<not> range_IsEmpty s"
  shows "wf_prefix (inter_base r s)" "prefix_isValid (inter_base r s)" "Masked (inter_base r s) = inter_base r s"
    "Bits (rprefix r) \<le> Bits (inter_base r s)" "Bits (rprefix s) \<le> Bits (inter_base r s)"
    "inter_base r s = rprefix r \<or> inter_base r s = rprefix s"
  using wf_rangeD[OF assms(1,3)] wf_rangeD[OF assms(2,4)] by (simp_all add: inter_base_def)

text \<open>A base covers the other exactly when it is a prefix of its path.\<close>

lemma inter_base_covers:
  assumes "wf_range r" "wf_range s" "\<not> range_IsEmpty r" "\<not> range_IsEmpty s" "q = rprefix r \<or> q = rprefix s"
  shows "prefix_Contains q (Addr (inter_base r s)) \<longleftrightarrow>
     Is4 (Addr q) = Is4 (Addr (inter_base r s)) \<and>
     prefix_path q = take (nat (Bits q)) (prefix_path (inter_base r s))"
proof -
  note b = inter_base[OF assms(1-4)]
  have q: "wf_prefix q" "prefix_isValid q" "Bits q \<le> Bits (inter_base r s)"
    using assms wf_rangeD[OF assms(1,3)] wf_rangeD[OF assms(2,4)] b by auto
  show ?thesis using prefix_Contains_path[OF q(1,2) b(1,2)] q(3) by blast
qed

lemma range_Intersect_Some:
  assumes "range_Intersect r s = Some t" "wf_range r" "wf_range s"
  shows "rprefix t = inter_base r s" "Lo t = max (max (Lo r) (Lo s)) (Bits (inter_base r s))"
    "Hi t = min (Hi r) (Hi s)" "wf_range t" "\<not> range_IsEmpty t"
proof -
  let ?lo = "max (max (Lo r) (Lo s)) (Bits (inter_base r s))" and ?hi = "min (Hi r) (Hi s)"
  have ne: "\<not> range_IsEmpty r" "\<not> range_IsEmpty s" and le: "?lo \<le> ?hi"
    and t: "t = \<lparr>rprefix = inter_base r s, rlo = of_int ?lo, rhi = of_int ?hi\<rparr>"
    and c: "prefix_Contains (rprefix r) (Addr (inter_base r s))" "prefix_Contains (rprefix s) (Addr (inter_base r s))"
    using assms(1) by (simp_all only: range_Intersect_eq if_None_Some de_Morgan_disj simp_thms not_less)
  note b = inter_base[OF assms(2,3) ne] and d = wf_rangeD[OF assms(2) ne(1)] and e = wf_rangeD[OF assms(3) ne(2)]
  have "0 \<le> ?lo" by (simp add: le_max_iff_disj)
  moreover have "?hi < 256" by (simp add: min_less_iff_disj)
  ultimately have *: "0 \<le> ?lo" "?lo < 256" "0 \<le> ?hi" "?hi < 256" using le by linarith+
  show p: "rprefix t = inter_base r s" using t by simp
  show lo: "Lo t = ?lo" using * by (simp only: Lo_def t PrefixRange.simps uint_u8_of_int)
  show hi: "Hi t = ?hi" using * by (simp only: Hi_def t PrefixRange.simps uint_u8_of_int)
  have nless: "\<not> Hi t < Lo t" unfolding lo hi using le by (rule leD)
  then show "\<not> range_IsEmpty t" using p b by (simp add: range_IsEmpty_iff)
  have "BitLen (Addr (inter_base r s)) = BitLen (Addr (rprefix r))"
    using c(1) b(1,2) d(1,2) inter_base_covers[OF assms(2,3) ne, of "rprefix r"] by (intro same_family) auto
  moreover have "Hi t \<le> Hi r" unfolding hi by simp
  moreover have "Bits (inter_base r s) \<le> Lo t" unfolding lo by simp
  ultimately show "wf_range t" using nless p b d by (simp add: wf_range_def)
qed

lemma range_Intersect_Contains:
  assumes "wf_range r" "wf_range s" "wf_prefix p"
  shows "(\<exists>t. range_Intersect r s = Some t \<and> range_Contains t p) \<longleftrightarrow> range_Contains r p \<and> range_Contains s p"
proof (cases "range_IsEmpty r \<or> range_IsEmpty s")
  case True
  then show ?thesis using assms by (auto simp: range_Intersect_def range_Contains_iff)
next
  case False
  then have ne: "\<not> range_IsEmpty r" "\<not> range_IsEmpty s" by auto
  define b where "b = inter_base r s"
  note b = inter_base[OF assms(1,2) ne, folded b_def]
  note cov = inter_base_covers[OF assms(1,2) ne, folded b_def]
  have nat_le: "nat (Bits (rprefix r)) \<le> nat (Bits b)" "nat (Bits (rprefix s)) \<le> nat (Bits b)"
    using b by (simp_all add: nat_mono)
  show ?thesis
  proof
    assume "\<exists>t. range_Intersect r s = Some t \<and> range_Contains t p"
    then obtain t where t: "range_Intersect r s = Some t" "range_Contains t p" by blast
    note T = range_Intersect_Some[OF t(1) assms(1,2), folded b_def]
    have c: "prefix_Contains (rprefix r) (Addr b)" "prefix_Contains (rprefix s) (Addr b)"
      using t(1) by (simp_all only: range_Intersect_eq b_def if_None_Some de_Morgan_disj simp_thms)
    have p: "Lo t \<le> Bits p" "Bits p \<le> Hi t" "Is4 (Addr b) = Is4 (Addr p)" "prefix_isValid p"
      and bp: "prefix_path b = take (nat (Bits b)) (prefix_path p)"
      using t(2) T(1) by (auto simp: range_Contains_iff[OF T(4) assms(3)])
    have "take n (prefix_path b) = take n (prefix_path p)" if "n \<le> nat (Bits b)" for n
      unfolding bp using that by (simp add: min_def)
    then show "range_Contains r p \<and> range_Contains s p"
      using p T(2,3) c cov nat_le ne by (simp add: range_Contains_iff assms)
  next
    assume "range_Contains r p \<and> range_Contains s p"
    then have r: "Lo r \<le> Bits p" "Bits p \<le> Hi r" "Is4 (Addr (rprefix r)) = Is4 (Addr p)" "prefix_isValid p"
        "prefix_path (rprefix r) = take (nat (Bits (rprefix r))) (prefix_path p)"
      and s: "Lo s \<le> Bits p" "Bits p \<le> Hi s" "Is4 (Addr (rprefix s)) = Is4 (Addr p)"
        "prefix_path (rprefix s) = take (nat (Bits (rprefix s))) (prefix_path p)"
      by (auto simp: range_Contains_iff assms)
    have bp: "prefix_path b = take (nat (Bits b)) (prefix_path p)" "Is4 (Addr b) = Is4 (Addr p)"
      using b(6) r s by auto
    have "prefix_Contains (rprefix r) (Addr b)" "prefix_Contains (rprefix s) (Addr b)"
      using cov nat_le r s bp by (simp_all add: min_def)
    moreover have le: "Bits b \<le> Bits p"
      using b(6) wf_rangeD(5)[OF assms(1) ne(1)] wf_rangeD(5)[OF assms(2) ne(2)] r(1) s(1) by auto
    moreover have "\<not> min (Hi r) (Hi s) < max (max (Lo r) (Lo s)) (Bits b)" using le r s by auto
    ultimately obtain t where t: "range_Intersect r s = Some t"
      using ne by (simp add: range_Intersect_eq b_def)
    note T = range_Intersect_Some[OF t assms(1,2), folded b_def]
    have "range_Contains t p"
      using T r s bp le by (simp add: range_Contains_iff assms)
    with t show "\<exists>t. range_Intersect r s = Some t \<and> range_Contains t p" by blast
  qed
qed

subsection \<open>Operators\<close>

text \<open>
  What RFC 2622 says an operator denotes on one prefix \<open>p\<close>: the prefix itself, its
  more-specifics with or without itself, or those with a length in \<open>N..M\<close>.
\<close>

definition op_denotes :: "RangeOperator \<Rightarrow> prefix \<Rightarrow> prefix \<Rightarrow> bool" where
  "op_denotes oper p q \<longleftrightarrow>
     Is4 (Addr p) = Is4 (Addr q) \<and> Bits p \<le> Bits q \<and>
     prefix_path p = take (nat (Bits p)) (prefix_path q) \<and>
     (case Op oper of
        RangeExact \<Rightarrow> Bits q = Bits p
      | RangeMinus \<Rightarrow> Bits p < Bits q
      | RangePlus \<Rightarrow> True
      | _ \<Rightarrow> uint (opN oper) \<le> Bits q \<and> Bits q \<le> uint (opM oper))"

text \<open>The window an operator makes of an inner lower bound \<open>k\<close>.\<close>

definition op_window :: "RangeOperator \<Rightarrow> int \<Rightarrow> int \<Rightarrow> int \<times> int" where
  "op_window oper maxBits k =
     (case Op oper of
        RangePlus \<Rightarrow> (k, maxBits)
      | RangeMinus \<Rightarrow> (k + 1, maxBits)
      | _ \<Rightarrow> (max (uint (opN oper)) k, min (uint (opM oper)) maxBits))"

lemma op_Apply_window:
  assumes "\<not> op_IsZero oper" "\<not> range_IsZero r"
    and "op_window oper (BitLen (Addr (rprefix r))) (Lo r) = (lo, hi)"
  shows "op_Apply oper r = (if lo > hi then None else NewPrefixRange (rprefix r) lo hi)"
  using assms by (auto simp: op_Apply_def op_window_def op_IsZero_def Let_def max_def split: RangeOp.splits)

lemma op_Apply_Some:
  assumes "op_Apply oper r = Some t" "wf_range r" "\<not> range_IsEmpty r"
  shows "wf_range t" "\<not> range_IsEmpty t" "rprefix t = rprefix r"
proof -
  note d = wf_rangeD[OF assms(2,3)]
  have nz: "\<not> range_IsZero r" using assms(3) by (simp add: range_IsEmpty_def)
  obtain lo hi where w: "op_window oper (BitLen (Addr (rprefix r))) (Lo r) = (lo, hi)" by fastforce
  have "t = r \<or> NewPrefixRange (rprefix r) lo hi = Some t"
    using assms(1) op_Apply_window[OF _ nz w] by (auto simp: op_Apply_def split: if_splits)
  then show "wf_range t" "\<not> range_IsEmpty t" "rprefix t = rprefix r"
    using NewPrefixRange_Some[OF _ d(1), of lo hi t] assms d(3) by auto
qed

lemma op_Apply_Contains:
  assumes r: "wf_range r" "\<not> range_IsEmpty r" and q: "wf_prefix q" "prefix_isValid q"
    and nz: "\<not> op_IsZero oper"
    and w: "op_window oper (BitLen (Addr (rprefix r))) (Lo r) = (lo, hi)"
  shows "(\<exists>t. op_Apply oper r = Some t \<and> range_Contains t q) \<longleftrightarrow>
     lo \<le> Bits q \<and> Bits q \<le> hi \<and> Is4 (Addr (rprefix r)) = Is4 (Addr q) \<and>
     prefix_path (rprefix r) = take (nat (Bits (rprefix r))) (prefix_path q)"
    (is "?l \<longleftrightarrow> ?r")
proof -
  note d = wf_rangeD[OF r]
  have lo: "Bits (rprefix r) \<le> lo" and hi: "hi \<le> BitLen (Addr (rprefix r))"
    using w d nz by (auto simp: op_window_def op_IsZero_def split: RangeOp.splits)
  have "\<not> range_IsZero r" using r(2) by (simp add: range_IsEmpty_def)
  note ap = op_Apply_window[OF nz this w]
  show ?thesis
  proof (cases "op_Apply oper r")
    case None
    then have "hi < lo" using ap d lo hi by (auto simp: NewPrefixRange_None split: if_splits)
    with None show ?thesis by auto
  next
    case (Some t)
    then have n: "NewPrefixRange (rprefix r) lo hi = Some t" using ap by (auto split: if_splits)
    note T = NewPrefixRange_Some[OF n d(1)]
    have "Lo t = lo" "Hi t = hi" using T lo hi by auto
    with Some T d q show ?thesis by (auto simp: range_Contains_iff)
  qed
qed

lemma op_Apply_denotes:
  assumes r: "wf_range r" "\<not> range_IsEmpty r" and q: "wf_prefix q" "prefix_isValid q"
  shows "(\<exists>t. op_Apply oper r = Some t \<and> range_Contains t q) \<longleftrightarrow>
     (\<exists>p. wf_prefix p \<and> prefix_isValid p \<and> Masked p = p \<and> range_Contains r p \<and> op_denotes oper p q)"
    (is "?l \<longleftrightarrow> ?r")
proof -
  note d = wf_rangeD[OF r]
  have anc: ?r if *: "0 \<le> k" "k \<le> Bits q" "Lo r \<le> k" "k \<le> Hi r" "Is4 (Addr (rprefix r)) = Is4 (Addr q)"
      "prefix_path (rprefix r) = take (nat (Bits (rprefix r))) (prefix_path q)"
      "case Op oper of RangeExact \<Rightarrow> Bits q = k | RangeMinus \<Rightarrow> k < Bits q | RangePlus \<Rightarrow> True
       | _ \<Rightarrow> uint (opN oper) \<le> Bits q \<and> Bits q \<le> uint (opM oper)" for k
  proof -
    obtain m where m: "wf_prefix m" "prefix_isValid m" "Masked m = m" "Bits m = k"
      "Is4 (Addr m) = Is4 (Addr q)" "prefix_path m = take (nat k) (prefix_path q)"
      using addr_Prefix_ancestor[OF q *(1,2)] by metis
    have "Bits (rprefix r) \<le> k" using d(5) *(3) by simp
    then have "range_Contains r m" using m * r q d by (simp add: range_Contains_iff min_def nat_mono)
    moreover have "op_denotes oper m q" using m * by (simp add: op_denotes_def split: RangeOp.splits)
    ultimately show ?r using m by blast
  qed
  show ?thesis
  proof (cases "op_IsZero oper")
    case True
    have "?r" if "range_Contains r q"
      using anc[of "Bits q"] that True q r by (simp add: range_Contains_iff op_IsZero_def prefix_isValid_def)
    moreover have "range_Contains r q" if ?r
    proof -
      from that obtain p where p: "wf_prefix p" "range_Contains r p" "op_denotes oper p q" by blast
      then have "prefix_path p = prefix_path q" "Bits p = Bits q"
        using True by (auto simp: op_denotes_def op_IsZero_def path_simps)
      then show ?thesis using p r q by (auto simp: range_Contains_iff op_denotes_def)
    qed
    ultimately show ?thesis using True by (auto simp: op_Apply_def)
  next
    case False
    obtain lo hi where w: "op_window oper (BitLen (Addr (rprefix r))) (Lo r) = (lo, hi)" by fastforce
    note c = op_Apply_Contains[OF r q False w]
    show ?thesis
    proof
      assume ?l
      with c have "lo \<le> Bits q" "Bits q \<le> hi" "Is4 (Addr (rprefix r)) = Is4 (Addr q)"
        "prefix_path (rprefix r) = take (nat (Bits (rprefix r))) (prefix_path q)" by auto
      then show ?r using False w d
        by (intro anc[of "Lo r"]) (auto simp: op_window_def op_IsZero_def split: RangeOp.splits)
    next
      assume ?r
      then obtain p where p: "wf_prefix p" "prefix_isValid p" "range_Contains r p" "op_denotes oper p q" by blast
      then have rp: "Lo r \<le> Bits p" "Bits p \<le> Bits q" "Is4 (Addr (rprefix r)) = Is4 (Addr q)"
        "prefix_path (rprefix r) = take (nat (Bits (rprefix r))) (prefix_path q)"
        using r d by (auto simp: range_Contains_iff op_denotes_def min_def nat_mono)
      have "BitLen (Addr (rprefix r)) = BitLen (Addr q)" using same_family d q rp by blast
      then have "Bits q \<le> BitLen (Addr (rprefix r))" using prefix_bounds[OF q] by simp
      then show ?l unfolding c using p rp False w
        by (auto simp: op_window_def op_IsZero_def op_denotes_def split: RangeOp.splits)
    qed
  qed
qed

end
