(* ===== verification/Prefix_Space.thy ===== *)
theory Prefix_Space
  imports Len_Mask Prefix_Range
begin

text \<open>
  Exact sets of prefixes (\<^verbatim>\<open>types/prefixspace.go\<close>, \<^verbatim>\<open>types/prefixspace_ops.go\<close>): one binary
  trie per address family, each node holding a set of lengths.  This theory holds the trie,
  its construction and the three set operations, and shows what they do to membership;
  \<open>Space_Canonical\<close> treats the canonical form, \<open>Space_Subset\<close> the inclusion tests and
  \<open>Space_Ranges\<close> the listing of a space.

  A \<^verbatim>\<open>nil\<close> node is \<open>NilNode\<close>.  Nodes are immutable once built, so a node is modelled by its value;
  where the code compares node pointers the model takes the answer as a parameter.
\<close>

subsection \<open>Nodes\<close>

datatype spaceNode = NilNode | Node lenMask spaceNode spaceNode

record PrefixSpace =
  v4 :: spaceNode
  v6 :: spaceNode

datatype setOp = opUnion | opIntersect | opMinus

fun setOp_apply :: "setOp \<Rightarrow> lenMask \<Rightarrow> lenMask \<Rightarrow> lenMask" where
  "setOp_apply opUnion a b = mask_or a b"
| "setOp_apply opIntersect a b = mask_and a b"
| "setOp_apply opMinus a b = mask_andNot a b"

text \<open>\<^verbatim>\<open>n.mask\<close> and \<^verbatim>\<open>kid\<close>: a nil node has neither lengths nor children.\<close>

fun node_mask :: "spaceNode \<Rightarrow> lenMask" where
  "node_mask NilNode = zeroMask"
| "node_mask (Node m c0 c1) = m"

fun kid :: "spaceNode \<Rightarrow> nat \<Rightarrow> spaceNode" where
  "kid NilNode i = NilNode"
| "kid (Node m c0 c1) i = (if i = 0 then c0 else c1)"

definition leaf :: "spaceNode \<Rightarrow> bool" where
  "leaf n \<longleftrightarrow> n = NilNode \<or> (kid n 0 = NilNode \<and> kid n 1 = NilNode)"

definition mk :: "lenMask \<Rightarrow> spaceNode \<Rightarrow> spaceNode \<Rightarrow> spaceNode" where
  "mk m c0 c1 = (if mask_isZero m \<and> c0 = NilNode \<and> c1 = NilNode then NilNode else Node m c0 c1)"

fun without :: "spaceNode \<Rightarrow> lenMask \<Rightarrow> spaceNode" where
  "without NilNode m = NilNode"
| "without (Node k c0 c1) m = mk (mask_andNot k m) c0 c1"

definition lift :: "lenMask \<Rightarrow> spaceNode \<Rightarrow> spaceNode \<Rightarrow> nat \<Rightarrow> lenMask \<times> spaceNode \<times> spaceNode" where
  "lift m c0 c1 d =
     (if c0 = NilNode \<or> c1 = NilNode then (m, c0, c1)
      else let common = mask_and (mask_and (node_mask c0) (node_mask c1)) (geMask (d + 1)) in
        if mask_isZero common then (m, c0, c1)
        else (mask_or m common, without c0 common, without c1 common))"

fun normalize :: "spaceNode \<Rightarrow> nat \<Rightarrow> nat \<Rightarrow> lenMask \<Rightarrow> spaceNode" where
  "normalize NilNode d width cov = NilNode"
| "normalize (Node k k0 k1) d width cov =
     (let m = mask_andNot (mask_and k (geMask d)) cov in
      if d < width then
        let below = mask_and (mask_or cov m) (geMask (d + 1));
            c0 = normalize k0 (d + 1) width below;
            c1 = normalize k1 (d + 1) width below;
            (m, c0, c1) = lift m c0 c1 d
        in mk m c0 c1
      else mk m NilNode NilNode)"

text \<open>\<^verbatim>\<open>bitAt\<close>: bit \<open>d\<close> of the address's bytes.\<close>

definition bitAt :: "addr \<Rightarrow> nat \<Rightarrow> nat" where
  "bitAt a d = unat (drop_bit (7 - d mod 8) (AsSlice a ! (d div 8)) AND 1)"

subsection \<open>Construction\<close>

text \<open>One pass of \<^verbatim>\<open>SpaceOf\<close>'s inner loop: walk to the range's prefix, making nodes, and add its window.\<close>

function raw_insert :: "spaceNode \<Rightarrow> addr \<Rightarrow> nat \<Rightarrow> nat \<Rightarrow> lenMask \<Rightarrow> spaceNode" where
  "raw_insert n a bits d w =
     (let m = node_mask n; c0 = kid n 0; c1 = kid n 1 in
      if d < bits then
        if bitAt a d = 0 then Node m (raw_insert c0 a bits (d + 1) w) c1
        else Node m c0 (raw_insert c1 a bits (d + 1) w)
      else Node (mask_or m w) c0 c1)"
  by pat_completeness auto
termination
  by (relation "measure (\<lambda>(n, a, bits, d, w). bits - d)") auto

declare raw_insert.simps [simp del]

fun space_raw :: "PrefixRange list \<Rightarrow> spaceNode \<Rightarrow> spaceNode \<Rightarrow> spaceNode \<times> spaceNode" where
  "space_raw [] n4 n6 = (n4, n6)"
| "space_raw (r # rs) n4 n6 =
     (if range_IsEmpty r then space_raw rs n4 n6
      else let p = rprefix r;
               w = mask_window (nat (max (Lo r) (Bits p))) (nat (Hi r)) in
        if Is4 (Addr p) then space_raw rs (raw_insert n4 (Addr p) (nat (Bits p)) 0 w) n6
        else space_raw rs n4 (raw_insert n6 (Addr p) (nat (Bits p)) 0 w))"

definition SpaceOf :: "PrefixRange list \<Rightarrow> PrefixSpace" where
  "SpaceOf rs =
     (let (n4, n6) = space_raw rs NilNode NilNode in
      \<lparr>v4 = normalize n4 0 32 zeroMask, v6 = normalize n6 0 128 zeroMask\<rparr>)"

datatype AFI = AFIUnspecified | AFIv4 | AFIv6 | AFIAny

definition FullSpace :: "AFI \<Rightarrow> PrefixSpace" where
  "FullSpace afi =
     (let f4 = Node (mask_window 0 32) NilNode NilNode; f6 = Node (mask_window 0 128) NilNode NilNode in
      case afi of
        AFIv4 \<Rightarrow> \<lparr>v4 = f4, v6 = NilNode\<rparr>
      | AFIv6 \<Rightarrow> \<lparr>v4 = NilNode, v6 = f6\<rparr>
      | _ \<Rightarrow> \<lparr>v4 = f4, v6 = f6\<rparr>)"

definition space_IsEmpty :: "PrefixSpace \<Rightarrow> bool" where
  "space_IsEmpty s \<longleftrightarrow> v4 s = NilNode \<and> v6 s = NilNode"

fun contains_loop :: "spaceNode \<Rightarrow> addr \<Rightarrow> nat \<Rightarrow> nat \<Rightarrow> bool" where
  "contains_loop NilNode a l d = False"
| "contains_loop (Node m c0 c1) a l d =
     (if mask_has m l then True
      else if d = l then False
      else contains_loop (kid (Node m c0 c1) (bitAt a d)) a l (d + 1))"

definition space_Contains :: "PrefixSpace \<Rightarrow> prefix \<Rightarrow> bool" where
  "space_Contains s p =
     (if \<not> prefix_isValid p then False
      else let p = Masked p; n = (if Is4 (Addr p) then v4 s else v6 s) in
        contains_loop n (Addr p) (nat (Bits p)) 0)"

subsection \<open>Set operations\<close>

function merge :: "setOp \<Rightarrow> spaceNode \<Rightarrow> spaceNode \<Rightarrow> nat \<Rightarrow> nat \<Rightarrow> lenMask \<Rightarrow> lenMask \<Rightarrow> spaceNode" where
  "merge oper a b d width inA inB =
     (if mask_isZero inA \<and> mask_isZero inB \<and> oper = opUnion \<and> a = NilNode then b
      else if mask_isZero inA \<and> mask_isZero inB \<and> oper = opUnion \<and> b = NilNode then a
      else if mask_isZero inA \<and> mask_isZero inB \<and> oper = opIntersect \<and> (a = NilNode \<or> b = NilNode) then NilNode
      else if mask_isZero inA \<and> mask_isZero inB \<and> oper = opMinus \<and> a = NilNode then NilNode
      else if mask_isZero inA \<and> mask_isZero inB \<and> oper = opMinus \<and> b = NilNode then a
      else
        let fa = mask_and (mask_or inA (node_mask a)) (geMask d);
            fb = mask_and (mask_or inB (node_mask b)) (geMask d) in
        if leaf a \<and> leaf b then mk (setOp_apply oper fa fb) NilNode NilNode
        else let m = mask_and (setOp_apply oper fa fb) (mask_one d) in
          if d < width then
            let ia = mask_and fa (geMask (d + 1)); ib = mask_and fb (geMask (d + 1));
                c0 = merge oper (kid a 0) (kid b 0) (d + 1) width ia ib;
                c1 = merge oper (kid a 1) (kid b 1) (d + 1) width ia ib;
                (m, c0, c1) = lift m c0 c1 d
            in mk m c0 c1
          else mk m NilNode NilNode)"
  by pat_completeness auto
termination
  by (relation "measure (\<lambda>(oper, a, b, d, width, inA, inB). width - d)") auto

declare merge.simps [simp del]

definition combine :: "setOp \<Rightarrow> PrefixSpace \<Rightarrow> PrefixSpace \<Rightarrow> PrefixSpace" where
  "combine oper s t =
     \<lparr>v4 = merge oper (v4 s) (v4 t) 0 32 zeroMask zeroMask,
      v6 = merge oper (v6 s) (v6 t) 0 128 zeroMask zeroMask\<rparr>"

definition space_Union :: "PrefixSpace \<Rightarrow> PrefixSpace \<Rightarrow> PrefixSpace" where
  "space_Union s t = combine opUnion s t"

definition space_Intersect :: "PrefixSpace \<Rightarrow> PrefixSpace \<Rightarrow> PrefixSpace" where
  "space_Intersect s t = combine opIntersect s t"

definition space_Minus :: "PrefixSpace \<Rightarrow> PrefixSpace \<Rightarrow> PrefixSpace" where
  "space_Minus s t = combine opMinus s t"

subsection \<open>Membership by path\<close>

text \<open>
  The meaning of a node at depth \<open>d\<close>: the set of paths below it, where a path of length \<open>n\<close>
  stands for a prefix of length \<open>d + n\<close>.
\<close>

fun mem :: "spaceNode \<Rightarrow> nat \<Rightarrow> bool list \<Rightarrow> bool" where
  "mem NilNode d q = False"
| "mem (Node m c0 c1) d [] = mask_has m d"
| "mem (Node m c0 c1) d (b # q) =
     (mask_has m (d + Suc (length q)) \<or> mem (if b then c1 else c0) (Suc d) q)"

fun opb :: "setOp \<Rightarrow> bool \<Rightarrow> bool \<Rightarrow> bool" where
  "opb opUnion x y = (x \<or> y)"
| "opb opIntersect x y = (x \<and> y)"
| "opb opMinus x y = (x \<and> \<not> y)"

lemma mask_has_setOp [mask_simps, simp]:
  "mask_has (setOp_apply oper a b) l = opb oper (mask_has a l) (mask_has b l)"
  by (cases oper) auto

lemma opb_False [simp]: "\<not> opb oper False False"
  by (cases oper) auto

lemma mem_mask: "mask_has (node_mask n) (d + length q) \<Longrightarrow> n \<noteq> NilNode \<Longrightarrow> mem n d q"
  by (cases n; cases q) auto

lemma mem_mk [simp]: "d + length q < 192 \<Longrightarrow> mem (mk m c0 c1) d q = mem (Node m c0 c1) d q"
  by (cases q) (auto simp: mk_def mask_isZero_eq)

lemma mem_leaf: "leaf n \<Longrightarrow> mem n d q \<longleftrightarrow> mask_has (node_mask n) (d + length q)"
  by (cases n; cases q) (auto simp: leaf_def)

lemma mem_Nil_path: "mem n d [] \<longleftrightarrow> mask_has (node_mask n) d"
  by (cases n) auto

lemma mem_Cons_path:
  "mem n d (b # q) \<longleftrightarrow> mask_has (node_mask n) (d + Suc (length q)) \<or> mem (kid n (of_bool b)) (Suc d) q"
  by (cases n) auto

lemma mem_without:
  "d + length q < 192 \<Longrightarrow> mem (without n m) d q \<or> mask_has m (d + length q) \<longleftrightarrow>
     mem n d q \<or> mask_has m (d + length q)"
  by (cases n; cases q) auto

lemma lift_mem:
  assumes "lift m c0 c1 d = (m', c0', c1')" "d + length q < 192"
  shows "mem (Node m' c0' c1') d q = mem (Node m c0 c1) d q"
proof (cases "m' = m \<and> c0' = c0 \<and> c1' = c1")
  case False
  let ?c = "mask_and (mask_and (node_mask c0) (node_mask c1)) (geMask (d + 1))"
  have ne: "c0 \<noteq> NilNode" "c1 \<noteq> NilNode" and eq: "m' = mask_or m ?c" "c0' = without c0 ?c" "c1' = without c1 ?c"
    using assms(1) False by (auto simp: lift_def Let_def split: if_splits)
  show ?thesis
  proof (cases q)
    case Nil
    then show ?thesis using assms(2) by (simp add: eq)
  next
    case (Cons b q')
    have "mask_has ?c (Suc d + length q') \<Longrightarrow> mem c0 (Suc d) q' \<and> mem c1 (Suc d) q'"
      using ne by (simp add: mem_mask)
    then show ?thesis
      using Cons assms(2) mem_without[of "Suc d" q' c0 ?c] mem_without[of "Suc d" q' c1 ?c]
      by (auto simp: eq)
  qed
qed auto

lemma merge_mem:
  assumes "d + length q \<le> width" "width \<le> 128"
  shows "mem (merge oper a b d width inA inB) d q =
     opb oper (mask_has inA (d + length q) \<or> mem a d q) (mask_has inB (d + length q) \<or> mem b d q)"
  using assms
proof (induction oper a b d width inA inB arbitrary: q rule: merge.induct)
  case (1 oper a b d width inA inB)
  let ?l = "d + length q"
  let ?fa = "mask_and (mask_or inA (node_mask a)) (geMask d)"
  let ?fb = "mask_and (mask_or inB (node_mask b)) (geMask d)"
  let ?ia = "mask_and ?fa (geMask (d + 1))" and ?ib = "mask_and ?fb (geMask (d + 1))"
  let ?m = "mask_and (setOp_apply oper ?fa ?fb) (mask_one d)"
  let ?short = "mask_isZero inA \<and> mask_isZero inB \<and>
      (oper = opUnion \<and> (a = NilNode \<or> b = NilNode) \<or> oper = opIntersect \<and> (a = NilNode \<or> b = NilNode) \<or>
       oper = opMinus \<and> (a = NilNode \<or> b = NilNode))"
  have l: "?l < 192" "?l \<le> 128" using "1.prems" by auto
  show ?case
  proof (cases ?short)
    case True
    then show ?thesis by (subst merge.simps) (auto simp: mask_isZero_eq)
  next
    case short: False
    show ?thesis
    proof (cases "leaf a \<and> leaf b")
      case True
      then have "merge oper a b d width inA inB = mk (setOp_apply oper ?fa ?fb) NilNode NilNode"
        using short by (subst merge.simps) auto
      then show ?thesis using True l by (cases q) (auto simp: mem_leaf)
    next
      case leaf: False
      let ?c0 = "merge oper (kid a 0) (kid b 0) (d + 1) width ?ia ?ib"
      let ?c1 = "merge oper (kid a 1) (kid b 1) (d + 1) width ?ia ?ib"
      obtain m' c0' c1' where lift: "lift ?m ?c0 ?c1 d = (m', c0', c1')" by (metis prod_cases3)
      show ?thesis
      proof (cases "d < width")
        case True
        have eq: "merge oper a b d width inA inB = mk m' c0' c1'"
          using short leaf True lift by (subst merge.simps) (auto simp: Let_def)
        have me: "mem (mk m' c0' c1') d q = mem (Node ?m ?c0 ?c1) d q"
          using l(1) lift_mem[OF lift l(1)] by simp
        show ?thesis
        proof (cases q)
          case Nil
          then show ?thesis using l me unfolding eq by (simp add: mem_Nil_path[of a] mem_Nil_path[of b])
        next
          case (Cons x q')
          have "mem (kid (Node ?m ?c0 ?c1) (of_bool x)) (Suc d) q' =
              opb oper (mask_has ?ia ?l \<or> mem (kid a (of_bool x)) (Suc d) q')
                       (mask_has ?ib ?l \<or> mem (kid b (of_bool x)) (Suc d) q')"
            using "1.IH"(1)[of _ _ _ _ _ q'] "1.IH"(2)[of _ _ _ _ _ _ q'] short leaf True Cons "1.prems"
            by (cases x) auto
          then show ?thesis
            using l Cons me unfolding eq by (auto simp: mem_Cons_path)
        qed
      next
        case False
        then have "q = []" "d = width" using "1.prems" by (cases q; simp)+
        moreover have "merge oper a b d width inA inB = mk ?m NilNode NilNode"
          using short leaf False by (subst merge.simps) (auto simp: Let_def)
        ultimately show ?thesis using l by (simp add: mem_Nil_path[of a] mem_Nil_path[of b])
      qed
    qed
  qed
qed

subsection \<open>Membership of prefixes\<close>

lemma bitAt_abit: "int d < BitLen a \<Longrightarrow> bitAt a d = of_bool (abit a d)"
proof -
  assume d: "int d < BitLen a"
  then have "d < 8 * length (AsSlice a)" by (cases a) auto
  then have "bit (AsSlice a ! (d div 8)) (7 - d mod 8) = abit a d"
    using bbit_AsSlice[of a d] by (simp add: bbit_def)
  then show ?thesis
    by (simp add: bitAt_def and_one_eq mod_2_eq_odd odd_iff_mod_2_eq_one[symmetric] bit_iff_odd_drop_bit[symmetric])
qed

lemma contains_loop_mem:
  "int l \<le> BitLen a \<Longrightarrow> d \<le> l \<Longrightarrow> contains_loop n a l d = mem n d (map (abit a) [d..<l])"
proof (induction n arbitrary: d)
  case (Node m c0 c1)
  show ?case
  proof (cases "d = l")
    case False
    then have "d < l" using Node.prems by simp
    then have "[d..<l] = d # [Suc d..<l]" "l = d + Suc (length [Suc d..<l])" by (simp_all add: upt_conv_Cons)
    moreover have "bitAt a d = of_bool (abit a d)" using \<open>d < l\<close> Node.prems by (intro bitAt_abit) simp
    ultimately show ?thesis using Node.IH[of "Suc d"] Node.prems \<open>d < l\<close> by simp
  qed simp
qed simp

definition fam_node :: "PrefixSpace \<Rightarrow> prefix \<Rightarrow> spaceNode" where
  "fam_node s p = (if Is4 (Addr p) then v4 s else v6 s)"

lemma space_Contains_mem:
  assumes "wf_prefix p"
  shows "space_Contains s p \<longleftrightarrow> prefix_isValid p \<and> mem (fam_node s p) 0 (prefix_path p)"
proof (cases "prefix_isValid p")
  case True
  note M = Masked_valid[OF assms True]
  have "prefix_path (Masked p) = map (abit (Addr (Masked p))) [0..<nat (Bits p)]"
    by (simp add: prefix_path_def M)
  then show ?thesis
    using True M assms prefix_bounds[OF assms True] prefix_path_Masked[OF assms]
    by (simp add: space_Contains_def Let_def fam_node_def contains_loop_mem)
qed (simp add: space_Contains_def)

definition fam_width :: "prefix \<Rightarrow> nat" where
  "fam_width p = (if Is4 (Addr p) then 32 else 128)"

lemma path_le_width:
  "wf_prefix p \<Longrightarrow> prefix_isValid p \<Longrightarrow> length (prefix_path p) \<le> fam_width p \<and> fam_width p \<le> 128"
  by (cases "Addr p") (simp_all add: path_simps fam_width_def wf_prefix_def prefix_isValid_def)

lemma combine_Contains:
  assumes "wf_prefix p" "prefix_isValid p"
  shows "space_Contains (combine oper s t) p = opb oper (space_Contains s p) (space_Contains t p)"
proof -
  have "fam_node (combine oper s t) p = merge oper (fam_node s p) (fam_node t p) 0 (fam_width p) zeroMask zeroMask"
    by (simp add: fam_node_def combine_def fam_width_def)
  then show ?thesis
    using assms path_le_width[OF assms] by (simp add: space_Contains_mem merge_mem)
qed

subsection \<open>Construction, by membership\<close>

lemma raw_insert_mem:
  assumes "int bits \<le> BitLen a" "d \<le> bits"
  shows "mem (raw_insert n a bits d w) d q \<longleftrightarrow>
     mem n d q \<or> (bits \<le> d + length q \<and> take (bits - d) q = map (abit a) [d..<bits] \<and> mask_has w (d + length q))"
  using assms
proof (induction n a bits d w arbitrary: q rule: raw_insert.induct)
  case (1 n a bits d w)
  show ?case
  proof (cases "d < bits")
    case True
    have b: "bitAt a d = of_bool (abit a d)" using True "1.prems" by (intro bitAt_abit) simp
    let ?r0 = "raw_insert (kid n 0) a bits (d + 1) w" and ?r1 = "raw_insert (kid n 1) a bits (d + 1) w"
    have eq: "raw_insert n a bits d w =
        (if abit a d then Node (node_mask n) (kid n 0) ?r1 else Node (node_mask n) ?r0 (kid n 1))"
      using True b by (subst raw_insert.simps) (simp add: Let_def)
    show ?thesis
    proof (cases q)
      case Nil
      then show ?thesis using True by (simp add: eq mem_Nil_path)
    next
      case (Cons x q')
      have IH: "mem (raw_insert (kid n (of_bool (abit a d))) a bits (Suc d) w) (Suc d) q' \<longleftrightarrow>
          mem (kid n (of_bool (abit a d))) (Suc d) q' \<or>
          (bits \<le> Suc d + length q' \<and> take (bits - Suc d) q' = map (abit a) [Suc d..<bits] \<and>
           mask_has w (Suc d + length q'))"
        using "1.IH"[of _ _ _ q'] True b "1.prems" by (cases "abit a d") auto
      have t: "take (bits - d) (x # q') = x # take (bits - Suc d) q'" "[d..<bits] = d # [Suc d..<bits]"
        using Suc_diff_Suc[OF True, symmetric] upt_conv_Cons[OF True] by simp_all
      show ?thesis using IH True unfolding Cons t by (auto simp: eq mem_Cons_path[of n])
    qed
  next
    case False
    then have d: "d = bits" using "1.prems" by simp
    have "raw_insert n a bits d w = Node (mask_or (node_mask n) w) (kid n 0) (kid n 1)"
      using False by (subst raw_insert.simps) (simp add: Let_def)
    then show ?thesis using d by (cases q) (auto simp: mem_Nil_path mem_Cons_path[of n])
  qed
qed

lemma normalize_mem:
  assumes "d + length q \<le> width" "width \<le> 128"
  shows "mem (normalize n d width cov) d q \<or> mask_has cov (d + length q) \<longleftrightarrow>
     mem n d q \<or> mask_has cov (d + length q)"
  using assms
proof (induction n arbitrary: d q cov)
  case (Node k k0 k1)
  let ?l = "d + length q"
  let ?m = "mask_andNot (mask_and k (geMask d)) cov"
  let ?below = "mask_and (mask_or cov ?m) (geMask (d + 1))"
  let ?c0 = "normalize k0 (d + 1) width ?below" and ?c1 = "normalize k1 (d + 1) width ?below"
  have l: "?l < 192" "?l \<le> 128" using Node.prems by auto
  obtain m' c0' c1' where lift: "lift ?m ?c0 ?c1 d = (m', c0', c1')" by (metis prod_cases3)
  show ?case
  proof (cases "d < width")
    case True
    have eq: "normalize (Node k k0 k1) d width cov = mk m' c0' c1'" using True lift by (simp add: Let_def)
    have me: "mem (mk m' c0' c1') d q = mem (Node ?m ?c0 ?c1) d q"
      using l(1) lift_mem[OF lift l(1)] by simp
    show ?thesis
    proof (cases q)
      case Nil
      then show ?thesis using l me unfolding eq by auto
    next
      case (Cons x q')
      have "Suc d + length q' \<le> width" using Cons Node.prems by simp
      from Node.IH(1)[OF this Node.prems(2), of ?below] Node.IH(2)[OF this Node.prems(2), of ?below]
      show ?thesis using l Cons me unfolding eq by (auto simp: Let_def)
    qed
  next
    case False
    then have "q = []" "d = width" using Node.prems by (cases q; simp)+
    then show ?thesis using l by (auto simp: Let_def)
  qed
qed simp


subsection \<open>SpaceOf holds exactly the prefixes of its ranges\<close>

text \<open>The trie of one family after one more range.\<close>

lemma raw_insert_range:
  assumes r: "wf_range r" "\<not> range_IsEmpty r" and p: "wf_prefix p" "prefix_isValid p"
    and fam: "Is4 (Addr (rprefix r)) = Is4 (Addr p)"
  shows "mem (raw_insert n (Addr (rprefix r)) (nat (Bits (rprefix r))) 0
            (mask_window (nat (max (Lo r) (Bits (rprefix r)))) (nat (Hi r)))) 0 (prefix_path p) \<longleftrightarrow>
     mem n 0 (prefix_path p) \<or> range_Contains r p"
proof -
  note d = wf_rangeD[OF r]
  have b: "Hi r \<le> 128" "0 \<le> Bits p" "Bits p \<le> 128" "max (Lo r) (Bits (rprefix r)) = Lo r"
    using d prefix_bounds[OF p] BitLen_le[of "Addr (rprefix r)"] by linarith+
  have c: "range_Contains r p \<longleftrightarrow> Lo r \<le> Bits p \<and> Bits p \<le> Hi r \<and>
      prefix_path (rprefix r) = take (nat (Bits (rprefix r))) (prefix_path p)"
    using range_Contains_iff[OF r(1) p(1)] r(2) p(2) fam by simp
  have w: "mask_has (mask_window (nat (Lo r)) (nat (Hi r))) (nat (Bits p)) \<longleftrightarrow> Lo r \<le> Bits p \<and> Bits p \<le> Hi r"
    using b Lo_bounds[of r] by (auto simp: nat_le_eq_zle)
  have i: "int (nat (Bits (rprefix r))) \<le> BitLen (Addr (rprefix r))" using d by linarith
  show ?thesis
    unfolding b(4) raw_insert_mem[OF i le0] c
    using d w b by (auto simp: path_simps prefix_path_def[of "rprefix r"])
qed

lemma space_raw_mem:
  assumes "\<forall>r \<in> set rs. wf_range r" and p: "wf_prefix p" "prefix_isValid p"
    and res: "space_raw rs n4 n6 = (m4, m6)"
  shows "mem (if Is4 (Addr p) then m4 else m6) 0 (prefix_path p) \<longleftrightarrow>
     mem (if Is4 (Addr p) then n4 else n6) 0 (prefix_path p) \<or> (\<exists>r \<in> set rs. range_Contains r p)"
  using assms(1) res
proof (induction rs arbitrary: n4 n6)
  case (Cons r rs)
  show ?case
  proof (cases "range_IsEmpty r")
    case True
    then have "\<not> range_Contains r p" by (simp add: range_Contains_def)
    with True Cons show ?thesis by auto
  next
    case ne: False
    then show ?thesis
    proof (cases "Is4 (Addr (rprefix r)) = Is4 (Addr p)")
      case True
      with ne Cons.prems show ?thesis
        using Cons.IH raw_insert_range[OF _ ne p True] by (auto simp: Let_def split: if_splits)
    next
      case False
      then have "\<not> range_Contains r p" using Cons.prems(1) p by (simp add: range_Contains_iff)
      with False ne Cons show ?thesis by (auto simp: Let_def split: if_splits)
    qed
  qed
qed simp

lemma SpaceOf_mem:
  assumes "\<forall>r \<in> set rs. wf_range r" and p: "wf_prefix p"
  shows "space_Contains (SpaceOf rs) p \<longleftrightarrow> (\<exists>r \<in> set rs. range_Contains r p)"
proof (cases "prefix_isValid p")
  case True
  obtain n4 n6 where raw: "space_raw rs NilNode NilNode = (n4, n6)" by fastforce
  have "fam_node (SpaceOf rs) p = normalize (if Is4 (Addr p) then n4 else n6) 0 (fam_width p) zeroMask"
    by (simp add: fam_node_def SpaceOf_def raw fam_width_def)
  then show ?thesis
    using True p path_le_width[OF p True] space_raw_mem[OF assms(1) p True raw]
      normalize_mem[of 0 "prefix_path p" "fam_width p" "if Is4 (Addr p) then n4 else n6" zeroMask]
    by (simp add: space_Contains_mem if_distrib[of "\<lambda>n. mem n 0 (prefix_path p)"])
qed (auto simp: space_Contains_def range_Contains_def)

end
