(* ===== verification/Space_Canonical.thy ===== *)
theory Space_Canonical
  imports Prefix_Space
begin

text \<open>
  The canonical form of prefix spaces: the shape the comment on \<^verbatim>\<open>spaceNode\<close> describes, that
  \<^verbatim>\<open>SpaceOf\<close> and the three set operations establish and keep it, and that it is unique, which
  makes \<^verbatim>\<open>Equal\<close> exact.  The set operations are then an algebra of sets of prefixes; the locale
  \<open>prefix_algebra\<close> states the contract and derives the laws that hold for the values themselves.
\<close>

subsection \<open>Equality\<close>

text \<open>
  \<^verbatim>\<open>equalNode\<close> first compares the node pointers; \<open>same\<close> is that comparison.  Two pointers that
  are equal lead to the same node, and the nil pointer equals itself.
\<close>

definition pointer_eq :: "(spaceNode \<Rightarrow> spaceNode \<Rightarrow> bool) \<Rightarrow> bool" where
  "pointer_eq same \<longleftrightarrow> same NilNode NilNode \<and> (\<forall>a b. same a b \<longrightarrow> a = b)"

fun equalNode :: "(spaceNode \<Rightarrow> spaceNode \<Rightarrow> bool) \<Rightarrow> spaceNode \<Rightarrow> spaceNode \<Rightarrow> bool" where
  "equalNode same NilNode b = same NilNode b"
| "equalNode same (Node m c0 c1) NilNode = same (Node m c0 c1) NilNode"
| "equalNode same (Node m c0 c1) (Node k e0 e1) =
     (same (Node m c0 c1) (Node k e0 e1) \<or>
      (mask_equal m k \<and> equalNode same c0 e0 \<and> equalNode same c1 e1))"

definition space_Equal :: "(spaceNode \<Rightarrow> spaceNode \<Rightarrow> bool) \<Rightarrow> PrefixSpace \<Rightarrow> PrefixSpace \<Rightarrow> bool" where
  "space_Equal same s t \<longleftrightarrow> equalNode same (v4 s) (v4 t) \<and> equalNode same (v6 s) (v6 t)"

lemma equalNode_eq: "pointer_eq same \<Longrightarrow> equalNode same a b \<longleftrightarrow> a = b"
proof (induction same a b rule: equalNode.induct)
  case (1 same b)
  then show ?case unfolding pointer_eq_def by (cases b) auto
next
  case (3 same m c0 c1 k e0 e1)
  have "same (Node m c0 c1) (Node k e0 e1) \<Longrightarrow> Node m c0 c1 = Node k e0 e1"
    using 3(3) unfolding pointer_eq_def by blast
  with 3 show ?case by (auto simp: mask_equal_def)
qed (auto simp: pointer_eq_def)

lemma space_Equal_eq: "pointer_eq same \<Longrightarrow> space_Equal same s t \<longleftrightarrow> s = t"
  by (auto simp: space_Equal_def equalNode_eq intro: PrefixSpace.equality)

subsection \<open>The canonical form\<close>

text \<open>
  \<open>canon n d width cov\<close>: the node \<open>n\<close> at depth \<open>d\<close> is canonical below ancestors holding the
  lengths \<open>cov\<close>.
\<close>

fun canon :: "spaceNode \<Rightarrow> nat \<Rightarrow> nat \<Rightarrow> lenMask \<Rightarrow> bool" where
  "canon NilNode d width cov = True"
| "canon (Node m c0 c1) d width cov \<longleftrightarrow>
     d \<le> width \<and>
     (\<forall>l < 192. mask_has m l \<longrightarrow> d \<le> l \<and> l \<le> width \<and> \<not> mask_has cov l) \<and>
     \<not> (m = zeroMask \<and> c0 = NilNode \<and> c1 = NilNode) \<and>
     (\<forall>l < 192. \<not> (mask_has (node_mask c0) l \<and> mask_has (node_mask c1) l)) \<and>
     canon c0 (Suc d) width (mask_or cov m) \<and> canon c1 (Suc d) width (mask_or cov m)"

definition canon_space :: "PrefixSpace \<Rightarrow> bool" where
  "canon_space s \<longleftrightarrow> canon (v4 s) 0 32 zeroMask \<and> canon (v6 s) 0 128 zeroMask"

lemma canon_cov:
  assumes "canon n d width cov" "width \<le> 128"
    "\<And>l. d \<le> l \<Longrightarrow> l \<le> width \<Longrightarrow> mask_has cov' l \<Longrightarrow> mask_has cov l"
  shows "canon n d width cov'"
  using assms
proof (induction n arbitrary: d cov cov')
  case (Node m c0 c1)
  have c: "canon c0 (Suc d) width (mask_or cov m)" "canon c1 (Suc d) width (mask_or cov m)"
    using Node.prems(1) by simp_all
  have s: "mask_has (mask_or cov m) l" if "Suc d \<le> l" "l \<le> width" "mask_has (mask_or cov' m) l" for l
    using Node.prems(3)[of l] that by auto
  have "canon c0 (Suc d) width (mask_or cov' m)" "canon c1 (Suc d) width (mask_or cov' m)"
    by (rule Node.IH(1)[OF c(1) Node.prems(2)], erule (2) s)
       (rule Node.IH(2)[OF c(2) Node.prems(2)], erule (2) s)
  then show ?case using Node.prems by auto
qed simp

lemma canon_mask:
  assumes "canon n d width cov" "mask_has (node_mask n) l" "l < 192"
  shows "d \<le> l" "l \<le> width" "\<not> mask_has cov l"
  using assms by (cases n; auto)+

lemma canon_kid: "canon n d width cov \<Longrightarrow> width \<le> 128 \<Longrightarrow> canon (kid n i) (Suc d) width zeroMask"
  by (cases n) (auto intro: canon_cov)

text \<open>A canonical subtree holds nothing an ancestor holds, and is not empty.\<close>

lemma canon_covered:
  "canon n d width cov \<Longrightarrow> mask_has cov (d + length q) \<Longrightarrow> d + length q < 192 \<Longrightarrow> \<not> mem n d q"
proof (induction n arbitrary: d cov q)
  case (Node m c0 c1)
  then show ?case
  proof (cases q)
    case (Cons b q')
    with Node.prems Node.IH(1)[of "Suc d" "mask_or cov m" q'] Node.IH(2)[of "Suc d" "mask_or cov m" q']
    show ?thesis by auto
  qed auto
qed simp

lemma mask_nonzero: "m \<noteq> zeroMask \<Longrightarrow> \<exists>l < 192. mask_has m l"
  using mask_isZero_iff[of m] mask_isZero_eq[of m] by blast

lemma canon_nonempty:
  "canon n d width cov \<Longrightarrow> n \<noteq> NilNode \<Longrightarrow> width \<le> 128 \<Longrightarrow> \<exists>q. d + length q \<le> width \<and> mem n d q"
proof (induction n arbitrary: d cov)
  case (Node m c0 c1)
  show ?case
  proof (cases "m = zeroMask")
    case False
    then obtain l where l: "l < 192" "mask_has m l" using mask_nonzero by blast
    then have "d \<le> l" "l \<le> width" using Node.prems(1) by auto
    then have "mem (Node m c0 c1) d (replicate (l - d) False)"
      using l by (intro mem_mask) simp_all
    then show ?thesis using \<open>d \<le> l\<close> \<open>l \<le> width\<close> by (intro exI[of _ "replicate (l - d) False"]) simp
  next
    case True
    then consider "c0 \<noteq> NilNode" | "c1 \<noteq> NilNode" using Node.prems by auto
    then show ?thesis
    proof cases
      case 1
      then obtain q where "Suc d + length q \<le> width" "mem c0 (Suc d) q"
        using Node.IH(1)[of "Suc d" "mask_or cov m"] Node.prems(1,3) by auto
      then show ?thesis by (intro exI[of _ "False # q"]) simp
    next
      case 2
      then obtain q where "Suc d + length q \<le> width" "mem c1 (Suc d) q"
        using Node.IH(2)[of "Suc d" "mask_or cov m"] Node.prems(1,3) by auto
      then show ?thesis by (intro exI[of _ "True # q"]) simp
    qed
  qed
qed simp

subsection \<open>Uniqueness\<close>

text \<open>In a canonical subtree, a length that is wholly present is held by the root.\<close>

lemma canon_full:
  assumes "canon n d width cov" "width \<le> 128" "d \<le> l" "l \<le> width" "\<And>q. length q = l - d \<Longrightarrow> mem n d q"
  shows "mask_has (node_mask n) l"
  using assms
proof (induction n arbitrary: d cov)
  case NilNode
  then show ?case using NilNode.prems(5)[of "replicate (l - d) False"] by simp
next
  case (Node m c0 c1)
  show ?case
  proof (rule ccontr)
    assume no: "\<not> mask_has (node_mask (Node m c0 c1)) l"
    then have d: "d < l" using Node.prems(3) Node.prems(5)[of "[]"] by (cases "d = l") auto
    have b: "mem (if b then c1 else c0) (Suc d) q" if "length q = l - Suc d" for b q
      using Node.prems(5)[of "b # q"] that d no by auto
    have "mask_has (node_mask c0) l" "mask_has (node_mask c1) l"
      using Node.IH(1)[of "Suc d" "mask_or cov m"] Node.IH(2)[of "Suc d" "mask_or cov m"]
        Node.prems b[of _ False] b[of _ True] d by auto
    then show False using Node.prems by auto
  qed
qed

lemma canon_mask_iff:
  assumes "canon n d width cov" "width \<le> 128" "d \<le> l" "l \<le> width"
  shows "mask_has (node_mask n) l \<longleftrightarrow> (\<forall>q. length q = l - d \<longrightarrow> mem n d q)"
proof
  assume h: "mask_has (node_mask n) l"
  then have "n \<noteq> NilNode" by auto
  with h assms(3) show "\<forall>q. length q = l - d \<longrightarrow> mem n d q" by (auto intro: mem_mask)
next
  assume "\<forall>q. length q = l - d \<longrightarrow> mem n d q"
  with assms canon_full show "mask_has (node_mask n) l" by blast
qed

lemma canon_unique:
  assumes "canon a d width cov" "canon b d width cov'" "width \<le> 128"
    "\<And>q. d + length q \<le> width \<Longrightarrow> mem a d q = mem b d q"
  shows "a = b"
  using assms
proof (induction a arbitrary: d cov cov' b)
  case NilNode
  then show ?case using canon_nonempty[of b d width cov'] by (metis mem.simps(1))
next
  case (Node m c0 c1)
  have "b \<noteq> NilNode"
    using canon_nonempty[OF Node.prems(1) _ Node.prems(3)] Node.prems(4) by (metis mem.simps(1) spaceNode.distinct(1))
  then obtain k e0 e1 where b: "b = Node k e0 e1" by (cases b) auto
  have len: "mask_has m l = mask_has k l" if l: "d \<le> l" "l \<le> width" for l
    using canon_mask_iff[OF Node.prems(1,3) l] canon_mask_iff[OF Node.prems(2,3) l] Node.prems(4) l
    by (auto simp: b)
  have m: "m = k"
  proof (rule mask_eqI)
    fix l :: nat assume "l < 192"
    then show "mask_has m l = mask_has k l"
      using len[of l] Node.prems(1,2) unfolding b by auto
  qed
  have kids: "mem (if x then c1 else c0) (Suc d) q = mem (if x then e1 else e0) (Suc d) q"
    if q: "Suc d + length q \<le> width" for x q
  proof (cases "mask_has m (Suc d + length q)")
    case True
    have lt: "Suc d + length q < 192" using q Node.prems(3) by simp
    have c: "canon c0 (Suc d) width (mask_or cov m)" "canon c1 (Suc d) width (mask_or cov m)"
      "canon e0 (Suc d) width (mask_or cov' m)" "canon e1 (Suc d) width (mask_or cov' m)"
      using Node.prems(1,2) m by (auto simp: b)
    show ?thesis
      using True lt c[THEN canon_covered, of q] by (cases x) simp_all
  next
    case False
    then show ?thesis using Node.prems(4)[of "x # q"] q by (auto simp: b m)
  qed
  have "c0 = e0" "c1 = e1"
    using Node.IH(1)[of "Suc d" "mask_or cov m" e0 "mask_or cov' k"]
      Node.IH(2)[of "Suc d" "mask_or cov m" e1 "mask_or cov' k"] Node.prems(1-3) kids[of _ False] kids[of _ True]
    by (auto simp: b)
  with m b show ?case by simp
qed


subsection \<open>Every constructor and operation returns a canonical space\<close>

lemma canon_without:
  assumes "canon n d width cov" "width \<le> 128" "\<And>l. l < 192 \<Longrightarrow> mask_has c l \<Longrightarrow> mask_has (node_mask n) l"
  shows "canon (without n c) d width (mask_or cov c)"
proof (cases n)
  case (Node k c0 c1)
  have "mask_or (mask_or cov c) (mask_andNot k c) = mask_or cov k"
    using assms(3) Node by (intro mask_eqI) auto
  then show ?thesis using assms(1) Node by (auto simp: mk_def mask_isZero_eq)
qed simp

lemma node_mask_without [simp]: "l < 192 \<Longrightarrow> mask_has (node_mask (without n c)) l \<longleftrightarrow> mask_has (node_mask n) l \<and> \<not> mask_has c l"
  by (cases n) (auto simp: mk_def mask_isZero_iff)

lemma canon_mkI:
  assumes "d < width" "\<And>l. l < 192 \<Longrightarrow> mask_has m l \<Longrightarrow> d \<le> l \<and> l \<le> width \<and> \<not> mask_has cov l"
    "\<And>l. l < 192 \<Longrightarrow> \<not> (mask_has (node_mask c0) l \<and> mask_has (node_mask c1) l)"
    "canon c0 (Suc d) width (mask_or cov m)" "canon c1 (Suc d) width (mask_or cov m)"
  shows "canon (mk m c0 c1) d width cov"
  using assms by (auto simp: mk_def mask_isZero_eq)

lemma canon_leafI:
  assumes "d \<le> width" "\<And>l. l < 192 \<Longrightarrow> mask_has m l \<Longrightarrow> l \<le> width \<and> d \<le> l"
  shows "canon (mk m NilNode NilNode) d width zeroMask"
  using assms by (auto simp: mk_def mask_isZero_eq)

lemma canon_lift:
  assumes lift: "lift m c0 c1 d = (m', c0', c1')" and d: "d < width" "width \<le> 128"
    and m: "\<And>l. l < 192 \<Longrightarrow> mask_has m l \<Longrightarrow> d \<le> l \<and> l \<le> width \<and> \<not> mask_has cov l"
    and c: "canon c0 (Suc d) width (mask_or cov m)" "canon c1 (Suc d) width (mask_or cov m)"
  shows "canon (mk m' c0' c1') d width cov"
proof -
  let ?c = "mask_and (mask_and (node_mask c0) (node_mask c1)) (geMask (d + 1))"
  have com: "mask_has (node_mask c0) l \<and> mask_has (node_mask c1) l \<longleftrightarrow> mask_has ?c l" if "l < 192" for l
    using that canon_mask(1,2)[OF c(1), of l] d by auto
  have c_ok: "d \<le> l \<and> l \<le> width \<and> \<not> mask_has cov l" if "l < 192" "mask_has ?c l" for l
    using that canon_mask[OF c(1), of l] by auto
  show ?thesis
  proof (cases "mask_isZero ?c \<or> c0 = NilNode \<or> c1 = NilNode")
    case True
    then have "m' = m" "c0' = c0" "c1' = c1" using lift by (auto simp: lift_def Let_def split: if_splits)
    moreover have "\<not> (mask_has (node_mask c0) l \<and> mask_has (node_mask c1) l)" if "l < 192" for l
      using True com[OF that] that by (auto simp: mask_isZero_iff simp del: mask_has_and)
    ultimately show ?thesis using d m c by (simp add: canon_mkI)
  next
    case False
    then have eq: "m' = mask_or m ?c" "c0' = without c0 ?c" "c1' = without c1 ?c"
      using lift by (auto simp: lift_def Let_def split: if_splits)
    have o: "mask_or cov (mask_or m ?c) = mask_or (mask_or cov m) ?c" by (intro mask_eqI) auto
    show ?thesis unfolding eq
    proof (rule canon_mkI)
      show "canon (without c0 ?c) (Suc d) width (mask_or cov (mask_or m ?c))"
        "canon (without c1 ?c) (Suc d) width (mask_or cov (mask_or m ?c))"
        unfolding o using c d by (auto intro!: canon_without)
      show "d \<le> l \<and> l \<le> width \<and> \<not> mask_has cov l" if "l < 192" "mask_has (mask_or m ?c) l" for l
        using that m[of l] c_ok[of l] by auto
      show "\<not> (mask_has (node_mask (without c0 ?c)) l \<and> mask_has (node_mask (without c1 ?c)) l)" if "l < 192" for l
        using that com[OF that] by (simp del: mask_has_and) blast
    qed (fact d)
  qed
qed

text \<open>The raw tries \<^verbatim>\<open>SpaceOf\<close> builds hold no length beyond the family's.\<close>

fun bounded :: "spaceNode \<Rightarrow> nat \<Rightarrow> bool" where
  "bounded NilNode width = True"
| "bounded (Node m c0 c1) width \<longleftrightarrow>
     (\<forall>l < 192. mask_has m l \<longrightarrow> l \<le> width) \<and> bounded c0 width \<and> bounded c1 width"

lemma canon_normalize:
  "bounded n width \<Longrightarrow> d \<le> width \<Longrightarrow> width \<le> 128 \<Longrightarrow> canon (normalize n d width cov) d width cov"
proof (induction n arbitrary: d cov)
  case (Node k k0 k1)
  let ?m = "mask_andNot (mask_and k (geMask d)) cov"
  let ?below = "mask_and (mask_or cov ?m) (geMask (d + 1))"
  let ?c0 = "normalize k0 (d + 1) width ?below" and ?c1 = "normalize k1 (d + 1) width ?below"
  obtain m' c0' c1' where lift: "lift ?m ?c0 ?c1 d = (m', c0', c1')" by (metis prod_cases3)
  have m: "d \<le> l \<and> l \<le> width \<and> \<not> mask_has cov l" if "l < 192" "mask_has ?m l" for l
    using that Node.prems by auto
  show ?case
  proof (cases "d < width")
    case True
    have "canon ?c0 (Suc d) width ?below" "canon ?c1 (Suc d) width ?below"
      using Node.IH(1)[of "Suc d" ?below] Node.IH(2)[of "Suc d" ?below] Node.prems True by auto
    then have "canon ?c0 (Suc d) width (mask_or cov ?m)" "canon ?c1 (Suc d) width (mask_or cov ?m)"
      using Node.prems(3) by (auto elim!: canon_cov)
    from canon_lift[OF lift True Node.prems(3) m this] show ?thesis
      using True lift by (simp add: Let_def)
  next
    case False
    then show ?thesis using m Node.prems(2) by (auto simp: Let_def mk_def mask_isZero_eq)
  qed
qed simp

lemma canon_merge:
  assumes "canon a d width zeroMask" "canon b d width zeroMask" "d \<le> width" "width \<le> 128"
    "\<And>l. l < 192 \<Longrightarrow> mask_has inA l \<Longrightarrow> l \<le> width" "\<And>l. l < 192 \<Longrightarrow> mask_has inB l \<Longrightarrow> l \<le> width"
  shows "canon (merge oper a b d width inA inB) d width zeroMask"
  using assms
proof (induction oper a b d width inA inB rule: merge.induct)
  case (1 oper a b d width inA inB)
  let ?fa = "mask_and (mask_or inA (node_mask a)) (geMask d)"
  let ?fb = "mask_and (mask_or inB (node_mask b)) (geMask d)"
  let ?ia = "mask_and ?fa (geMask (d + 1))" and ?ib = "mask_and ?fb (geMask (d + 1))"
  let ?m = "mask_and (setOp_apply oper ?fa ?fb) (mask_one d)"
  let ?short = "mask_isZero inA \<and> mask_isZero inB \<and> (a = NilNode \<or> b = NilNode)"
  have f: "l \<le> width \<and> d \<le> l" if "l < 192" "mask_has ?fa l \<or> mask_has ?fb l" for l
    using that "1.prems"(5,6)[of l] canon_mask(2)[OF "1.prems"(1), of l] canon_mask(2)[OF "1.prems"(2), of l] by auto
  have o: "l \<le> width \<and> d \<le> l" if "l < 192" "mask_has (setOp_apply oper ?fa ?fb) l" for l
    using that(2) f[OF that(1)] by (cases oper) (simp_all only: setOp_apply.simps mask_has_or mask_has_and mask_has_andNot, blast+)
  show ?case
  proof (cases ?short)
    case True
    then have "merge oper a b d width inA inB \<in> {a, b, NilNode}"
      by (cases oper; cases "a = NilNode"; subst merge.simps; simp)
    then show ?thesis using "1.prems"(1,2) by auto
  next
    case short: False
    have n: "\<not> (mask_isZero inA \<and> mask_isZero inB \<and> oper = opUnion \<and> a = NilNode)"
      "\<not> (mask_isZero inA \<and> mask_isZero inB \<and> oper = opUnion \<and> b = NilNode)"
      "\<not> (mask_isZero inA \<and> mask_isZero inB \<and> oper = opIntersect \<and> (a = NilNode \<or> b = NilNode))"
      "\<not> (mask_isZero inA \<and> mask_isZero inB \<and> oper = opMinus \<and> a = NilNode)"
      "\<not> (mask_isZero inA \<and> mask_isZero inB \<and> oper = opMinus \<and> b = NilNode)"
      using short by blast+
    show ?thesis
    proof (cases "leaf a \<and> leaf b")
      case True
      then have eq: "merge oper a b d width inA inB = mk (setOp_apply oper ?fa ?fb) NilNode NilNode"
        by (subst merge.simps) (simp only: n if_False Let_def if_True simp_thms)
      show ?thesis unfolding eq using o by (rule canon_leafI[OF "1.prems"(3)])
    next
      case leaf: False
      let ?c0 = "merge oper (kid a 0) (kid b 0) (d + 1) width ?ia ?ib"
      let ?c1 = "merge oper (kid a 1) (kid b 1) (d + 1) width ?ia ?ib"
      obtain m' c0' c1' where lift: "lift ?m ?c0 ?c1 d = (m', c0', c1')" by (metis prod_cases3)
      show ?thesis
      proof (cases "d < width")
        case True
        have k: "canon (kid a i) (Suc d) width zeroMask" "canon (kid b i) (Suc d) width zeroMask" for i
          using "1.prems" by (auto intro: canon_kid)
        have i: "l \<le> width" if "l < 192" "mask_has ?ia l \<or> mask_has ?ib l" for l
          using that(2) f[OF that(1)] by (simp only: mask_has_and[of _ "geMask (d + 1)"]) blast
        have "canon ?c0 (Suc d) width zeroMask" "canon ?c1 (Suc d) width zeroMask"
          using "1.IH"(1)[OF n refl refl leaf refl True refl refl] "1.IH"(2)[OF n refl refl leaf refl True refl refl refl]
            k[of 0] k[of 1] i True "1.prems"(4) by simp_all
        then have "canon ?c0 (Suc d) width (mask_or zeroMask ?m)" "canon ?c1 (Suc d) width (mask_or zeroMask ?m)"
          using "1.prems"(4) by (auto elim!: canon_cov)
        moreover have "d \<le> l \<and> l \<le> width \<and> \<not> mask_has zeroMask l" if "l < 192" "mask_has ?m l" for l
          using that True by simp
        ultimately have "canon (mk m' c0' c1') d width zeroMask"
          using canon_lift[OF lift True "1.prems"(4)] by blast
        moreover have "merge oper a b d width inA inB = mk m' c0' c1'"
          using leaf True lift by (subst merge.simps) (simp only: n if_False Let_def if_True prod.case simp_thms)
        ultimately show ?thesis by simp
      next
        case False
        then have eq: "merge oper a b d width inA inB = mk ?m NilNode NilNode"
          using leaf by (subst merge.simps) (simp only: n if_False Let_def simp_thms)
        have "l \<le> width \<and> d \<le> l" if "l < 192" "mask_has ?m l" for l
          using that "1.prems"(3) by simp
        then show ?thesis unfolding eq by (rule canon_leafI[OF "1.prems"(3)])
      qed
    qed
  qed
qed


lemma bounded_raw_insert:
  assumes "bounded n width" "\<And>l. l < 192 \<Longrightarrow> mask_has w l \<Longrightarrow> l \<le> width"
  shows "bounded (raw_insert n a bits d w) width"
  using assms
proof (induction n a bits d w rule: raw_insert.induct)
  case (1 n a bits d w)
  have n: "bounded (kid n i) width" "\<forall>l<192. mask_has (node_mask n) l \<longrightarrow> l \<le> width" for i
    using "1.prems"(1) by (cases n; simp)+
  show ?case
    using 1(1)[OF refl refl refl _ _ n(1) "1.prems"(2)] 1(2)[OF refl refl refl _ _ n(1) "1.prems"(2)] n "1.prems"(2)
    by (subst raw_insert.simps) (auto simp: Let_def)
qed


lemma fam_width_BitLen: "wf_prefix p \<Longrightarrow> prefix_isValid p \<Longrightarrow> BitLen (Addr p) = int (fam_width p)"
  by (cases "Addr p") (simp_all add: fam_width_def wf_prefix_def prefix_isValid_def)

lemma bounded_space_raw:
  assumes "\<forall>r \<in> set rs. wf_range r" "bounded n4 32" "bounded n6 128" "space_raw rs n4 n6 = (m4, m6)"
  shows "bounded m4 32 \<and> bounded m6 128"
  using assms
proof (induction rs arbitrary: n4 n6)
  case (Cons r rs)
  show ?case
  proof (cases "range_IsEmpty r")
    case False
    let ?p = "rprefix r"
    let ?w = "mask_window (nat (max (Lo r) (Bits ?p))) (nat (Hi r))"
    have "wf_range r" using Cons.prems(1) by simp
    note d = wf_rangeD[OF this False]
    have h: "nat (Hi r) \<le> fam_width ?p" using d(7) fam_width_BitLen[OF d(1,2)] by simp
    have w: "l \<le> fam_width ?p" if "l < 192" "mask_has ?w l" for l
      using that h by simp
    have "bounded (raw_insert n4 (Addr ?p) (nat (Bits ?p)) 0 ?w) 32" if "Is4 (Addr ?p)"
      using that w Cons.prems(2) by (intro bounded_raw_insert) (auto simp: fam_width_def)
    moreover have "bounded (raw_insert n6 (Addr ?p) (nat (Bits ?p)) 0 ?w) 128" if "\<not> Is4 (Addr ?p)"
      using that w Cons.prems(3) by (intro bounded_raw_insert) (auto simp: fam_width_def)
    ultimately show ?thesis
      using False Cons.prems Cons.IH by (auto simp: Let_def split: if_splits)
  qed (use Cons in auto)
qed simp

lemma canon_SpaceOf: "\<forall>r \<in> set rs. wf_range r \<Longrightarrow> canon_space (SpaceOf rs)"
  using bounded_space_raw[of rs NilNode NilNode]
  by (auto simp: canon_space_def SpaceOf_def canon_normalize split: prod.split)

lemma canon_combine: "canon_space s \<Longrightarrow> canon_space t \<Longrightarrow> canon_space (combine oper s t)"
  by (auto simp: canon_space_def combine_def intro!: canon_merge)

lemma canon_FullSpace: "canon_space (FullSpace afi)"
proof -
  have "canon (Node (mask_window 0 w) NilNode NilNode) 0 w zeroMask" if "w \<le> 128" for w
  proof -
    have "mask_has (mask_window 0 w) 0" by simp
    then have "mask_window 0 w \<noteq> zeroMask" by (metis mask_has_zero)
    then show ?thesis by auto
  qed
  then show ?thesis by (cases afi) (simp_all add: canon_space_def FullSpace_def Let_def)
qed

subsection \<open>Equal spaces hold the same prefixes\<close>

text \<open>Every path within a family's width is the path of a prefix of that family.\<close>

definition path_word :: "nat \<Rightarrow> bool list \<Rightarrow> 'a::len word" where
  "path_word width q = horner_sum of_bool 2 (rev (q @ replicate (width - length q) False))"

lemma bit_path_word:
  "length q \<le> width \<Longrightarrow> i < length q \<Longrightarrow> width \<le> LENGTH('a) \<Longrightarrow>
     bit (path_word width q :: 'a::len word) (width - 1 - i) \<longleftrightarrow> q ! i"
  by (auto simp: path_word_def bit_horner_sum_bit_word_iff rev_nth nth_append)

lemma path_prefix:
  assumes "length q \<le> (if four then 32 else 128)"
  obtains p where "wf_prefix p" "prefix_isValid p" "Is4 (Addr p) = four" "prefix_path p = q"
proof (cases four)
  case True
  let ?p = "\<lparr>Addr = IPv4 (path_word 32 q), Bits = int (length q)\<rparr>"
  have "prefix_path ?p = q"
    using assms True bit_path_word[of q 32, where 'a = 32] by (intro nth_equalityI) (auto simp: prefix_path_def)
  then show thesis using assms True that[of ?p] by (simp add: wf_prefix_def prefix_isValid_def)
next
  case False
  let ?p = "\<lparr>Addr = IPv6 (path_word 128 q) [], Bits = int (length q)\<rparr>"
  have "prefix_path ?p = q"
    using assms False bit_path_word[of q 128, where 'a = 128] by (intro nth_equalityI) (auto simp: prefix_path_def)
  then show thesis using assms False that[of ?p] by (simp add: wf_prefix_def prefix_isValid_def)
qed

lemma space_ext:
  assumes "canon_space s" "canon_space t"
    "\<And>p. wf_prefix p \<Longrightarrow> prefix_isValid p \<Longrightarrow> space_Contains s p = space_Contains t p"
  shows "s = t"
proof -
  have "mem (if four then v4 s else v6 s) 0 q = mem (if four then v4 t else v6 t) 0 q"
    if q: "length q \<le> (if four then 32 else 128)" for q four
  proof -
    obtain p where "wf_prefix p" "prefix_isValid p" "Is4 (Addr p) = four" "prefix_path p = q"
      using path_prefix[OF q] by blast
    with assms(3)[of p] show ?thesis by (auto simp: space_Contains_mem fam_node_def)
  qed
  from this[of _ True] this[of _ False] have "v4 s = v4 t" "v6 s = v6 t"
    using assms(1,2) canon_unique[of "v4 s" 0 32 zeroMask "v4 t" zeroMask]
      canon_unique[of "v6 s" 0 128 zeroMask "v6 t" zeroMask]
    by (simp_all add: canon_space_def)
  then show ?thesis by (intro PrefixSpace.equality) simp_all
qed

lemma space_IsEmpty_iff:
  assumes "canon_space s"
  shows "space_IsEmpty s \<longleftrightarrow> (\<forall>p. wf_prefix p \<longrightarrow> \<not> space_Contains s p)"
proof
  assume "space_IsEmpty s"
  then show "\<forall>p. wf_prefix p \<longrightarrow> \<not> space_Contains s p"
    by (simp add: space_IsEmpty_def space_Contains_mem fam_node_def)
next
  assume "\<forall>p. wf_prefix p \<longrightarrow> \<not> space_Contains s p"
  then have "s = \<lparr>v4 = NilNode, v6 = NilNode\<rparr>"
    using assms by (intro space_ext) (auto simp: canon_space_def space_Contains_mem fam_node_def)
  then show "space_IsEmpty s" by (simp add: space_IsEmpty_def)
qed

lemma FullSpace_Contains:
  "wf_prefix p \<Longrightarrow> space_Contains (FullSpace afi) p \<longleftrightarrow> prefix_isValid p \<and>
     (case afi of AFIv4 \<Rightarrow> Is4 (Addr p) | AFIv6 \<Rightarrow> \<not> Is4 (Addr p) | _ \<Rightarrow> True)"
  using path_le_width[of p]
  by (auto simp: space_Contains_mem fam_node_def FullSpace_def Let_def fam_width_def mem_leaf leaf_def
      split: AFI.splits if_splits)

subsection \<open>The algebra of prefix sets\<close>

text \<open>
  What the rest of the code relies on: a type of sets of prefixes, with an invariant its operations
  keep, membership that the operations decide pointwise, and equality of sets with the same members.
  The laws below then hold for the values, so two policies computed in different orders compare equal.
\<close>

locale prefix_algebra =
  fixes inv :: "'s \<Rightarrow> bool" and has :: "'s \<Rightarrow> prefix \<Rightarrow> bool" and empty full :: 's
    and union inter minus :: "'s \<Rightarrow> 's \<Rightarrow> 's"
  assumes inv_empty: "inv empty" and inv_full: "inv full"
    and inv_union: "inv s \<Longrightarrow> inv t \<Longrightarrow> inv (union s t)"
    and inv_inter: "inv s \<Longrightarrow> inv t \<Longrightarrow> inv (inter s t)"
    and inv_minus: "inv s \<Longrightarrow> inv t \<Longrightarrow> inv (minus s t)"
    and has_empty: "wf_prefix p \<Longrightarrow> prefix_isValid p \<Longrightarrow> \<not> has empty p"
    and has_full: "wf_prefix p \<Longrightarrow> prefix_isValid p \<Longrightarrow> has full p"
    and has_union: "wf_prefix p \<Longrightarrow> prefix_isValid p \<Longrightarrow> has (union s t) p \<longleftrightarrow> has s p \<or> has t p"
    and has_inter: "wf_prefix p \<Longrightarrow> prefix_isValid p \<Longrightarrow> has (inter s t) p \<longleftrightarrow> has s p \<and> has t p"
    and has_minus: "wf_prefix p \<Longrightarrow> prefix_isValid p \<Longrightarrow> has (minus s t) p \<longleftrightarrow> has s p \<and> \<not> has t p"
    and ext: "inv s \<Longrightarrow> inv t \<Longrightarrow> (\<And>p. wf_prefix p \<Longrightarrow> prefix_isValid p \<Longrightarrow> has s p = has t p) \<Longrightarrow> s = t"
begin

lemmas invs = inv_empty inv_full inv_union inv_inter inv_minus

lemmas has_simps = has_empty has_full has_union has_inter has_minus

lemma union_commute: "inv s \<Longrightarrow> inv t \<Longrightarrow> union s t = union t s"
  by (rule ext) (auto simp: has_simps invs)

lemma union_assoc: "inv s \<Longrightarrow> inv t \<Longrightarrow> inv u \<Longrightarrow> union (union s t) u = union s (union t u)"
  by (rule ext) (auto simp: has_simps invs)

lemma inter_commute: "inv s \<Longrightarrow> inv t \<Longrightarrow> inter s t = inter t s"
  by (rule ext) (auto simp: has_simps invs)

lemma inter_assoc: "inv s \<Longrightarrow> inv t \<Longrightarrow> inv u \<Longrightarrow> inter (inter s t) u = inter s (inter t u)"
  by (rule ext) (auto simp: has_simps invs)

lemma inter_union_distrib: "inv s \<Longrightarrow> inv t \<Longrightarrow> inv u \<Longrightarrow> inter s (union t u) = union (inter s t) (inter s u)"
  by (rule ext) (auto simp: has_simps invs)

lemma minus_union: "inv s \<Longrightarrow> inv t \<Longrightarrow> inv u \<Longrightarrow> minus s (union t u) = minus (minus s t) u"
  by (rule ext) (auto simp: has_simps invs)

lemma minus_minus: "inv s \<Longrightarrow> inv t \<Longrightarrow> minus s (minus s t) = inter s t"
  by (rule ext) (auto simp: has_simps invs)

lemma complement_involutive: "inv s \<Longrightarrow> minus full (minus full s) = s"
  by (rule ext) (auto simp: has_simps invs)

lemma split_union: "inv s \<Longrightarrow> inv t \<Longrightarrow> union (inter s t) (minus s t) = s"
  by (rule ext) (auto simp: has_simps invs)

lemma minus_empty_iff:
  assumes "inv s" "inv t"
  shows "minus s t = empty \<longleftrightarrow> (\<forall>p. wf_prefix p \<longrightarrow> prefix_isValid p \<longrightarrow> has s p \<longrightarrow> has t p)"
proof
  assume e: "minus s t = empty"
  show "\<forall>p. wf_prefix p \<longrightarrow> prefix_isValid p \<longrightarrow> has s p \<longrightarrow> has t p"
    using has_minus[of _ s t] has_empty unfolding e by blast
next
  assume "\<forall>p. wf_prefix p \<longrightarrow> prefix_isValid p \<longrightarrow> has s p \<longrightarrow> has t p"
  with assms show "minus s t = empty" by (intro ext) (auto simp: has_simps invs)
qed

end

interpretation spaces: prefix_algebra canon_space space_Contains
  "\<lparr>v4 = NilNode, v6 = NilNode\<rparr>" "FullSpace AFIAny" space_Union space_Intersect space_Minus
proof
  show "canon_space \<lparr>v4 = NilNode, v6 = NilNode\<rparr>" by (simp add: canon_space_def)
  show "\<not> space_Contains \<lparr>v4 = NilNode, v6 = NilNode\<rparr> p" if "wf_prefix p" "prefix_isValid p" for p
    using that by (simp add: space_Contains_mem fam_node_def)
qed (auto simp: canon_FullSpace canon_combine space_Union_def space_Intersect_def space_Minus_def
    combine_Contains FullSpace_Contains intro: space_ext)


subsection \<open>The spaces a client can have\<close>

text \<open>The zero value, the two constructors and the three operations: no other code makes a space.\<close>

inductive built :: "PrefixSpace \<Rightarrow> bool" where
  built_zero: "built \<lparr>v4 = NilNode, v6 = NilNode\<rparr>"
| built_SpaceOf: "\<forall>r \<in> set rs. wf_range r \<Longrightarrow> built (SpaceOf rs)"
| built_FullSpace: "built (FullSpace afi)"
| built_Union: "built s \<Longrightarrow> built t \<Longrightarrow> built (space_Union s t)"
| built_Intersect: "built s \<Longrightarrow> built t \<Longrightarrow> built (space_Intersect s t)"
| built_Minus: "built s \<Longrightarrow> built t \<Longrightarrow> built (space_Minus s t)"

lemma built_canon: "built s \<Longrightarrow> canon_space s"
  by (induction rule: built.induct) (auto simp: canon_SpaceOf canon_FullSpace spaces.invs)

end
