(* ===== verification/Space_Subset.thy ===== *)
theory Space_Subset
  imports Space_Canonical
begin

text \<open>
  The inclusion tests of \<^verbatim>\<open>types/prefixspace_ops.go\<close>: \<^verbatim>\<open>Subset\<close> walks two tries side by side, and
  \<^verbatim>\<open>SubsetOfUnion\<close> walks one trie beside any number of others, keeping the nodes it is
  beside in one shared work list.  Both stop early in several ways; the lemmas show that they
  decide inclusion of the sets.  \<open>same\<close> is the comparison of node pointers.
\<close>

subsection \<open>Subset\<close>

definition node_covered :: "spaceNode \<Rightarrow> lenMask \<Rightarrow> lenMask \<Rightarrow> nat \<Rightarrow> nat \<Rightarrow> bool" where
  "node_covered a fa fb d width \<longleftrightarrow>
     mask_isZero (mask_andNot (mask_window d width) fb) \<or> (leaf a \<and> mask_isZero (mask_andNot fa fb))"

function subsetNode :: "(spaceNode \<Rightarrow> spaceNode \<Rightarrow> bool) \<Rightarrow> spaceNode \<Rightarrow> spaceNode \<Rightarrow> nat \<Rightarrow> nat \<Rightarrow> lenMask \<Rightarrow> lenMask \<Rightarrow> bool" where
  "subsetNode same a b d width inA inB =
     (if mask_isZero inA \<and> (a = NilNode \<or> same a b) then True
      else if mask_isZero inA \<and> b = NilNode \<and> mask_isZero inB then False
      else
        let fa = mask_and (mask_or inA (node_mask a)) (geMask d);
            fb = mask_and (mask_or inB (node_mask b)) (geMask d) in
        if node_covered a fa fb d width then True
        else if leaf a \<and> leaf b then mask_isZero (mask_andNot fa fb)
        else if \<not> mask_isZero (mask_and (mask_andNot fa fb) (mask_one d)) then False
        else if d < width then
          let ia = mask_and fa (geMask (d + 1)); ib = mask_and fb (geMask (d + 1)) in
          subsetNode same (kid a 0) (kid b 0) (d + 1) width ia ib \<and>
          subsetNode same (kid a 1) (kid b 1) (d + 1) width ia ib
        else True)"
  by pat_completeness auto
termination
  by (relation "measure (\<lambda>(same, a, b, d, width, inA, inB). width - d)") auto

declare subsetNode.simps [simp del]

definition space_Subset :: "(spaceNode \<Rightarrow> spaceNode \<Rightarrow> bool) \<Rightarrow> PrefixSpace \<Rightarrow> PrefixSpace \<Rightarrow> bool" where
  "space_Subset same s t \<longleftrightarrow>
     subsetNode same (v4 s) (v4 t) 0 32 zeroMask zeroMask \<and>
     subsetNode same (v6 s) (v6 t) 0 128 zeroMask zeroMask"

subsection \<open>SubsetOfUnion\<close>

text \<open>
  \<^verbatim>\<open>subsetUnion\<close> with the work list as state.  The nodes \<^verbatim>\<open>bs\<close> are the window \<open>[s, e)\<close> of the list and
  are read from it at every use, so that a child's call which disturbed them would show; the
  result is the answer and the work list left behind.
\<close>

definition win :: "spaceNode list \<Rightarrow> nat \<Rightarrow> nat \<Rightarrow> spaceNode list" where
  "win work s e = drop s (take e work)"

definition kids_of :: "spaceNode list \<Rightarrow> nat \<Rightarrow> spaceNode list" where
  "kids_of bs i = filter (\<lambda>k. k \<noteq> NilNode) (map (\<lambda>b. kid b i) bs)"

function subsetUnion :: "(spaceNode \<Rightarrow> spaceNode \<Rightarrow> bool) \<Rightarrow> spaceNode \<Rightarrow> nat \<Rightarrow> nat \<Rightarrow> nat \<Rightarrow> nat \<Rightarrow> lenMask \<Rightarrow> lenMask \<Rightarrow>
    spaceNode list \<Rightarrow> bool \<times> spaceNode list" where
  "subsetUnion same a s e d width inA inB work =
     (if mask_isZero inA \<and> (a = NilNode \<or> list_ex (\<lambda>b. same a b) (win work s e)) then (True, work)
      else if mask_isZero inA \<and> win work s e = [] \<and> mask_isZero inB then (False, work)
      else
        let fa = mask_and (mask_or inA (node_mask a)) (geMask d);
            leaves = (leaf a \<and> list_all leaf (win work s e));
            fb = mask_and (foldl (\<lambda>f b. mask_or f (node_mask b)) inB (win work s e)) (geMask d) in
        if node_covered a fa fb d width then (True, work)
        else if leaves then (mask_isZero (mask_andNot fa fb), work)
        else if \<not> mask_isZero (mask_and (mask_andNot fa fb) (mask_one d)) then (False, work)
        else if d < width then
          let ia = mask_and fa (geMask (d + 1)); ib = mask_and fb (geMask (d + 1));
              start = length work; work = work @ kids_of (win work s e) 0;
              (ok, work) = subsetUnion same (kid a 0) start (length work) (d + 1) width ia ib work;
              work = take start work in
          if \<not> ok then (False, work)
          else
            let start = length work; work = work @ kids_of (win work s e) 1;
                (ok, work) = subsetUnion same (kid a 1) start (length work) (d + 1) width ia ib work;
                work = take start work in
            if \<not> ok then (False, work) else (True, work)
        else (True, work))"
  by pat_completeness auto
termination
  by (relation "measure (\<lambda>(same, a, s, e, d, width, inA, inB, work). width - d)") auto

declare subsetUnion.simps [simp del]

definition SubsetOfUnion :: "(spaceNode \<Rightarrow> spaceNode \<Rightarrow> bool) \<Rightarrow> PrefixSpace \<Rightarrow> PrefixSpace list \<Rightarrow> bool" where
  "SubsetOfUnion same s ts =
     (if length ts = 1 then space_Subset same s (ts ! 0)
      else
        let work = filter (\<lambda>n. n \<noteq> NilNode) (map v4 ts);
            (ok, work) = subsetUnion same (v4 s) 0 (length work) 0 32 zeroMask zeroMask work in
        if \<not> ok then False
        else let work = take 0 work @ filter (\<lambda>n. n \<noteq> NilNode) (map v6 ts);
                 (ok, work) = subsetUnion same (v6 s) 0 (length work) 0 128 zeroMask zeroMask work in
          ok)"

subsection \<open>Inclusion of paths\<close>

text \<open>Every path of \<open>a\<close>, with what is inherited, is a path of \<open>B\<close>, with what is inherited.\<close>

definition incl :: "nat \<Rightarrow> nat \<Rightarrow> (bool list \<Rightarrow> bool) \<Rightarrow> (bool list \<Rightarrow> bool) \<Rightarrow> bool" where
  "incl d width A B \<longleftrightarrow> (\<forall>q. d + length q \<le> width \<longrightarrow> A q \<longrightarrow> B q)"

lemma incl_Cons:
  "d < width \<Longrightarrow> incl d width A B \<longleftrightarrow>
     (A [] \<longrightarrow> B []) \<and> incl (Suc d) width (\<lambda>q. A (False # q)) (\<lambda>q. B (False # q)) \<and>
     incl (Suc d) width (\<lambda>q. A (True # q)) (\<lambda>q. B (True # q))"
  (is "_ \<Longrightarrow> ?l = ?r")
proof
  assume d: "d < width"
  show "?l \<Longrightarrow> ?r" using d by (auto simp: incl_def)
  assume r: ?r
  have "A q \<longrightarrow> B q" if "d + length q \<le> width" for q
  proof (cases q)
    case (Cons b q')
    with that r show ?thesis by (cases b) (auto simp: incl_def)
  qed (use r in simp)
  then show ?l by (simp add: incl_def)
qed

lemma incl_Nil: "incl width width A B \<longleftrightarrow> (A [] \<longrightarrow> B [])"
  by (auto simp: incl_def)

text \<open>On masks, at depth \<open>d\<close>.\<close>

lemma incl_masks:
  assumes "\<And>l. l < 192 \<Longrightarrow> mask_has f l \<Longrightarrow> d \<le> l \<and> l \<le> width" "width \<le> 128"
  shows "mask_isZero (mask_andNot f g) \<longleftrightarrow> incl d width (\<lambda>q. mask_has f (d + length q)) (\<lambda>q. mask_has g (d + length q))"
  (is "?l = ?r")
proof
  assume ?l
  then show ?r using assms(2) unfolding incl_def mask_isZero_iff by auto
next
  assume r: ?r
  have "\<not> (mask_has f l \<and> \<not> mask_has g l)" if l: "l < 192" for l
  proof
    assume h: "mask_has f l \<and> \<not> mask_has g l"
    then have "d + length (replicate (l - d) False) = l" "l \<le> width" using assms(1)[OF l] by simp_all
    with r h show False unfolding incl_def by metis
  qed
  then show ?l by (simp add: mask_isZero_iff)
qed


subsection \<open>One step of the walks\<close>

definition pathsA :: "lenMask \<Rightarrow> spaceNode \<Rightarrow> nat \<Rightarrow> bool list \<Rightarrow> bool" where
  "pathsA inA a d q \<longleftrightarrow> mask_has inA (d + length q) \<or> mem a d q"

definition pathsB :: "lenMask \<Rightarrow> spaceNode list \<Rightarrow> nat \<Rightarrow> bool list \<Rightarrow> bool" where
  "pathsB inB bs d q \<longleftrightarrow> mask_has inB (d + length q) \<or> (\<exists>b \<in> set bs. mem b d q)"

text \<open>No length beyond the family's.\<close>

definition mask_le :: "lenMask \<Rightarrow> nat \<Rightarrow> bool" where
  "mask_le m width \<longleftrightarrow> (\<forall>l < 192. mask_has m l \<longrightarrow> l \<le> width)"

definition joint :: "lenMask \<Rightarrow> spaceNode list \<Rightarrow> lenMask" where
  "joint inB bs = foldl (\<lambda>f b. mask_or f (node_mask b)) inB bs"

lemma mask_has_joint [simp]: "mask_has (joint inB bs) l \<longleftrightarrow> mask_has inB l \<or> (\<exists>b \<in> set bs. mask_has (node_mask b) l)"
  unfolding joint_def by (induction bs arbitrary: inB) auto

lemma pathsB_filter: "pathsB inB (filter (\<lambda>k. k \<noteq> NilNode) bs) d = pathsB inB bs d"
  by (auto simp: pathsB_def fun_eq_iff)

lemma paths_Nil:
  "pathsA inA a d [] \<longleftrightarrow> mask_has (mask_or inA (node_mask a)) d"
  "pathsB inB bs d [] \<longleftrightarrow> mask_has (joint inB bs) d"
  by (auto simp: pathsA_def pathsB_def mem_Nil_path)

lemma paths_Cons:
  assumes "d + Suc (length q) \<le> 128"
  shows "pathsA inA a d (x # q) \<longleftrightarrow>
      pathsA (mask_and (mask_and (mask_or inA (node_mask a)) (geMask d)) (geMask (d + 1))) (kid a (of_bool x)) (Suc d) q"
    and "pathsB inB bs d (x # q) \<longleftrightarrow>
      pathsB (mask_and (mask_and (joint inB bs) (geMask d)) (geMask (d + 1))) (kids_of bs (of_bool x)) (Suc d) q"
proof -
  show "pathsA inA a d (x # q) \<longleftrightarrow>
      pathsA (mask_and (mask_and (mask_or inA (node_mask a)) (geMask d)) (geMask (d + 1))) (kid a (of_bool x)) (Suc d) q"
    using assms by (auto simp: pathsA_def mem_Cons_path)
  show "pathsB inB bs d (x # q) \<longleftrightarrow>
      pathsB (mask_and (mask_and (joint inB bs) (geMask d)) (geMask (d + 1))) (kids_of bs (of_bool x)) (Suc d) q"
    unfolding kids_of_def pathsB_filter using assms by (auto simp: pathsB_def mem_Cons_path)
qed

lemma incl_cong:
  assumes "\<And>q. d + length q \<le> width \<Longrightarrow> A q = A' q" "\<And>q. d + length q \<le> width \<Longrightarrow> B q = B' q"
  shows "incl d width A B = incl d width A' B'"
  using assms by (auto simp: incl_def)

lemma pathsB_mask:
  "mask_has (mask_and (joint inB bs) (geMask d)) (d + length q) \<Longrightarrow> pathsB inB bs d q"
  unfolding pathsB_def by (auto intro!: mem_mask)

lemma paths_leaf:
  assumes "d + length q \<le> 128"
  shows "leaf a \<Longrightarrow> pathsA inA a d q \<longleftrightarrow> mask_has (mask_and (mask_or inA (node_mask a)) (geMask d)) (d + length q)"
    and "list_all leaf bs \<Longrightarrow> pathsB inB bs d q \<longleftrightarrow> mask_has (mask_and (joint inB bs) (geMask d)) (d + length q)"
  using assms by (auto simp: pathsA_def pathsB_def mem_leaf list_all_iff)

lemma mask_isZero_one: "d \<le> 128 \<Longrightarrow> mask_isZero (mask_and m (mask_one d)) \<longleftrightarrow> \<not> mask_has m d"
proof -
  assume d: "d \<le> 128"
  have "mask_has (mask_and m (mask_one d)) l \<longleftrightarrow> l = d \<and> mask_has m d" if "l < 192" for l
    using that d by auto
  then show ?thesis using d unfolding mask_isZero_iff by auto
qed

text \<open>What both walks decide at a node, before descending to the children.\<close>

lemma incl_step:
  fixes inA inB a bs d
  defines "fa \<equiv> mask_and (mask_or inA (node_mask a)) (geMask d)"
    and "fb \<equiv> mask_and (joint inB bs) (geMask d)"
  assumes d: "d \<le> width" "width \<le> 128"
    and fa: "mask_le (mask_or inA (node_mask a)) width"
  shows "incl d width (pathsA inA a d) (pathsB inB bs d) \<longleftrightarrow>
     (if node_covered a fa fb d width then True
      else if leaf a \<and> list_all leaf bs then mask_isZero (mask_andNot fa fb)
      else if \<not> mask_isZero (mask_and (mask_andNot fa fb) (mask_one d)) then False
      else if d < width then
        incl (Suc d) width (pathsA (mask_and fa (geMask (d + 1))) (kid a 0) (Suc d))
          (pathsB (mask_and fb (geMask (d + 1))) (kids_of bs 0) (Suc d)) \<and>
        incl (Suc d) width (pathsA (mask_and fa (geMask (d + 1))) (kid a 1) (Suc d))
          (pathsB (mask_and fb (geMask (d + 1))) (kids_of bs 1) (Suc d))
      else True)"
    (is "?incl = ?rhs")
proof -
  have b: "d \<le> l \<and> l \<le> width" if "l < 192" "mask_has fa l" for l
    using that fa by (auto simp: fa_def mask_le_def)
  have im: "mask_isZero (mask_andNot fa fb) \<longleftrightarrow>
      incl d width (\<lambda>q. mask_has fa (d + length q)) (\<lambda>q. mask_has fb (d + length q))"
    using b d(2) by (rule incl_masks)
  have wide: "?incl" if "mask_isZero (mask_andNot (mask_window d width) fb)"
    unfolding incl_def
  proof (intro allI impI)
    fix q :: "bool list" assume "d + length q \<le> width"
    then have "mask_has fb (d + length q)" using that d by (auto simp: mask_isZero_iff)
    then show "pathsB inB bs d q" unfolding fb_def by (rule pathsB_mask)
  qed
  have leafA: "mask_isZero (mask_andNot fa fb) \<longrightarrow> ?incl" if "leaf a"
  proof (rule impI)
    assume "mask_isZero (mask_andNot fa fb)"
    then have i: "incl d width (\<lambda>q. mask_has fa (d + length q)) (\<lambda>q. mask_has fb (d + length q))"
      unfolding im .
    show ?incl unfolding incl_def
    proof (intro allI impI)
      fix q assume q: "d + length q \<le> width" and "pathsA inA a d q"
      then have "mask_has fb (d + length q)"
        using i paths_leaf(1)[OF _ that, of d q inA] d(2) unfolding incl_def fa_def by auto
      then show "pathsB inB bs d q" unfolding fb_def by (rule pathsB_mask)
    qed
  qed
  have leaves: "?incl \<longleftrightarrow> mask_isZero (mask_andNot fa fb)" if "leaf a" "list_all leaf bs"
    unfolding im using paths_leaf(1)[OF _ that(1), of d _ inA] paths_leaf(2)[OF _ that(2), of d _ inB] d(2)
    by (intro incl_cong) (auto simp: fa_def fb_def)
  have root: "mask_isZero (mask_and (mask_andNot fa fb) (mask_one d)) \<longleftrightarrow> (pathsA inA a d [] \<longrightarrow> pathsB inB bs d [])"
    using d mask_isZero_one[of d "mask_andNot fa fb"] unfolding paths_Nil fa_def fb_def by auto
  have kids: "incl (Suc d) width (\<lambda>q. pathsA inA a d (x # q)) (\<lambda>q. pathsB inB bs d (x # q)) \<longleftrightarrow>
      incl (Suc d) width (pathsA (mask_and fa (geMask (d + 1))) (kid a (of_bool x)) (Suc d))
        (pathsB (mask_and fb (geMask (d + 1))) (kids_of bs (of_bool x)) (Suc d))" for x
    using d paths_Cons(1)[of d _ inA a x] paths_Cons(2)[of d _ inB bs x] unfolding fa_def fb_def
    by (intro incl_cong) (auto simp del: One_nat_def)
  consider "node_covered a fa fb d width" | "\<not> node_covered a fa fb d width" "leaf a \<and> list_all leaf bs"
    | "\<not> node_covered a fa fb d width" "\<not> (leaf a \<and> list_all leaf bs)" by blast
  then show ?thesis
  proof cases
    case 1
    then show ?thesis using wide leafA by (auto simp: node_covered_def)
  next
    case 2
    then show ?thesis using leaves by simp
  next
    case 3
    show ?thesis
    proof (cases "d < width")
      case True
      then show ?thesis using 3 root kids[of False] kids[of True] incl_Cons[OF True] by auto
    next
      case False
      then show ?thesis using 3 root d(1) incl_Nil[of width] by auto
    qed
  qed
qed


subsection \<open>The walks decide inclusion\<close>

lemma canon_step:
  assumes "canon a d width zeroMask" "width \<le> 128" "mask_le inA width"
  shows "mask_le (mask_or inA (node_mask a)) width"
    and "mask_le (mask_and (mask_and (mask_or inA (node_mask a)) (geMask d)) (geMask (d + 1))) width"
    and "canon (kid a i) (Suc d) width zeroMask"
  using assms canon_mask(2)[OF assms(1)] canon_kid[OF assms(1,2)] by (auto simp: mask_le_def)

lemma incl_short:
  assumes "mask_isZero inA" "canon a d width zeroMask" "width \<le> 128"
  shows "a = NilNode \<Longrightarrow> incl d width (pathsA inA a d) B"
    and "a \<in> set bs \<Longrightarrow> incl d width (pathsA inA a d) (pathsB inB bs d)"
    and "a \<noteq> NilNode \<Longrightarrow> \<forall>b \<in> set bs. b = NilNode \<Longrightarrow> mask_isZero inB \<Longrightarrow>
      \<not> incl d width (pathsA inA a d) (pathsB inB bs d)"
proof -
  show "a = NilNode \<Longrightarrow> incl d width (pathsA inA a d) B"
    using assms(1) by (simp add: incl_def pathsA_def mask_isZero_eq)
  show "a \<in> set bs \<Longrightarrow> incl d width (pathsA inA a d) (pathsB inB bs d)"
    using assms(1) by (auto simp: incl_def pathsA_def pathsB_def mask_isZero_eq)
  show "\<not> incl d width (pathsA inA a d) (pathsB inB bs d)"
    if "a \<noteq> NilNode" "\<forall>b \<in> set bs. b = NilNode" "mask_isZero inB"
    using canon_nonempty[OF assms(2) that(1) assms(3)] assms(1) that(2,3)
    by (fastforce simp: incl_def pathsA_def pathsB_def mask_isZero_eq)
qed

lemma subsetNode_incl:
  assumes same: "pointer_eq same" and w: "width \<le> 128"
    and "canon a d width zeroMask" "d \<le> width" "mask_le inA width"
  shows "subsetNode same a b d width inA inB \<longleftrightarrow> incl d width (pathsA inA a d) (pathsB inB [b] d)"
  using assms(3-)
proof (induction "width - d" arbitrary: a b d inA inB rule: less_induct)
  case less
  let ?fa = "mask_and (mask_or inA (node_mask a)) (geMask d)"
  let ?fb = "mask_and (mask_or inB (node_mask b)) (geMask d)"
  let ?ia = "mask_and ?fa (geMask (d + 1))" and ?ib = "mask_and ?fb (geMask (d + 1))"
  note c = canon_step[OF less.prems(1) w less.prems(3)]
  note s = incl_short[OF _ less.prems(1) w]
  have k: "pathsB m (kids_of [b] i) (Suc d) = pathsB m [kid b i] (Suc d)" for m i
    using pathsB_filter[of m "[kid b i]"] by (simp add: kids_of_def)
  have j: "joint inB [b] = mask_or inB (node_mask b)" "list_all leaf [b] = leaf b" by (simp_all add: joint_def)
  note step = incl_step[OF less.prems(2) w c(1), where bs = "[b]" and inB = inB, unfolded j k]
  consider (t) "mask_isZero inA \<and> (a = NilNode \<or> same a b)"
    | (f) "\<not> (mask_isZero inA \<and> (a = NilNode \<or> same a b))" "mask_isZero inA \<and> b = NilNode \<and> mask_isZero inB"
    | (n) "\<not> (mask_isZero inA \<and> (a = NilNode \<or> same a b))" "\<not> (mask_isZero inA \<and> b = NilNode \<and> mask_isZero inB)"
    by blast
  then show ?case
  proof cases
    case t
    then have "a = NilNode \<or> a \<in> set [b]" using same by (auto simp: pointer_eq_def)
    with t s(1,2) have "incl d width (pathsA inA a d) (pathsB inB [b] d)" by blast
    with t show ?thesis by (subst subsetNode.simps) simp
  next
    case f
    with s(3)[of inA "[b]" inB] show ?thesis by (subst subsetNode.simps) simp
  next
    case n
    have IH: "subsetNode same (kid a i) (kid b i) (d + 1) width ?ia ?ib \<longleftrightarrow>
        incl (Suc d) width (pathsA ?ia (kid a i) (Suc d)) (pathsB ?ib [kid b i] (Suc d))" if "d < width" for i
      using less.hyps[of "Suc d" "kid a i" ?ia "kid b i" ?ib] that c(2,3) by simp
    show ?thesis
      by (subst subsetNode.simps, subst step) (simp only: n if_False Let_def IH cong: if_cong)
  qed
qed


text \<open>The union walk gives the same answer for the window, and leaves the work list as it found it.\<close>

lemma win_append: "e \<le> length work \<Longrightarrow> win (work @ xs) s e = win work s e"
  by (simp add: win_def)

lemma win_tail: "win (work @ xs) (length work) (length (work @ xs)) = xs"
  by (simp add: win_def)

lemma subsetUnion_incl:
  assumes same: "pointer_eq same" and w: "width \<le> 128"
    and "canon a d width zeroMask" "d \<le> width" "mask_le inA width" "e \<le> length work"
    and "\<forall>b \<in> set (win work s e). b \<noteq> NilNode"
  shows "subsetUnion same a s e d width inA inB work =
     (incl d width (pathsA inA a d) (pathsB inB (win work s e) d), work)"
  using assms(3-)
proof (induction "width - d" arbitrary: a s e d inA inB work rule: less_induct)
  case less
  let ?bs = "win work s e"
  let ?fa = "mask_and (mask_or inA (node_mask a)) (geMask d)"
  let ?fb = "mask_and (joint inB ?bs) (geMask d)"
  let ?ia = "mask_and ?fa (geMask (d + 1))" and ?ib = "mask_and ?fb (geMask (d + 1))"
  note c = canon_step[OF less.prems(1) w less.prems(3)]
  note s = incl_short[OF _ less.prems(1) w]
  note step = incl_step[OF less.prems(2) w c(1), where bs = ?bs and inB = inB]
  consider (t) "mask_isZero inA \<and> (a = NilNode \<or> list_ex (\<lambda>b. same a b) ?bs)"
    | (f) "\<not> (mask_isZero inA \<and> (a = NilNode \<or> list_ex (\<lambda>b. same a b) ?bs))"
        "mask_isZero inA \<and> ?bs = [] \<and> mask_isZero inB"
    | (n) "\<not> (mask_isZero inA \<and> (a = NilNode \<or> list_ex (\<lambda>b. same a b) ?bs))"
        "\<not> (mask_isZero inA \<and> ?bs = [] \<and> mask_isZero inB)"
    by blast
  then show ?case
  proof cases
    case t
    then have "a = NilNode \<or> a \<in> set ?bs" using same by (auto simp: pointer_eq_def list_ex_iff)
    with t s(1,2) have "incl d width (pathsA inA a d) (pathsB inB ?bs d)" by blast
    with t show ?thesis by (subst subsetUnion.simps) simp
  next
    case f
    with s(3)[of inA ?bs inB] show ?thesis by (subst subsetUnion.simps) simp
  next
    case n
    have take_len: "take (length work) (work @ xs) = work" for xs by simp
    let ?work = "\<lambda>i. work @ kids_of ?bs i"
    have IH: "subsetUnion same (kid a i) (length work) (length (?work i)) (d + 1) width ?ia ?ib (?work i) =
        (incl (Suc d) width (pathsA ?ia (kid a i) (Suc d)) (pathsB ?ib (kids_of ?bs i) (Suc d)), ?work i)"
      if "d < width" for i
    proof -
      have "\<forall>b \<in> set (kids_of ?bs i). b \<noteq> NilNode" by (simp add: kids_of_def)
      then show ?thesis
        using less.hyps[of "Suc d" "kid a i" ?ia "length (?work i)" "?work i" "length work" ?ib] that c(2,3)
        unfolding win_tail by simp
    qed
    show ?thesis
      by (subst subsetUnion.simps, subst step)
         (simp only: n if_False Let_def IH joint_def[symmetric] take_len prod.case cong: if_cong, simp)
  qed
qed


lemma subset_space:
  assumes "wf_prefix p" "prefix_isValid p" "length (prefix_path p) \<le> fam_width p"
    and "incl 0 32 (pathsA zeroMask (v4 s) 0) B4" "incl 0 128 (pathsA zeroMask (v6 s) 0) B6"
    and "space_Contains s p"
  shows "(if Is4 (Addr p) then B4 else B6) (prefix_path p)"
  using assms by (auto simp: space_Contains_mem fam_node_def fam_width_def incl_def pathsA_def split: if_splits)

text \<open>Inclusion of both tries is inclusion of the sets of prefixes.\<close>

lemma incl_spaces:
  "incl 0 32 (pathsA zeroMask (v4 s) 0) (pathsB zeroMask (map v4 ts) 0) \<and>
   incl 0 128 (pathsA zeroMask (v6 s) 0) (pathsB zeroMask (map v6 ts) 0) \<longleftrightarrow>
   (\<forall>p. wf_prefix p \<longrightarrow> space_Contains s p \<longrightarrow> (\<exists>t \<in> set ts. space_Contains t p))"
  (is "?l = ?r")
proof
  assume l: ?l
  show ?r
  proof (intro allI impI)
    fix p assume p: "wf_prefix p" "space_Contains s p"
    then have v: "prefix_isValid p" by (simp add: space_Contains_mem)
    have "(if Is4 (Addr p) then pathsB zeroMask (map v4 ts) 0 else pathsB zeroMask (map v6 ts) 0) (prefix_path p)"
      using subset_space[OF p(1) v _ _ _ p(2)] l path_le_width[OF p(1) v] by blast
    then show "\<exists>t \<in> set ts. space_Contains t p"
      using p(1) v by (auto simp: space_Contains_mem fam_node_def pathsB_def split: if_splits)
  qed
next
  assume r: ?r
  have "\<exists>t \<in> set ts. mem (if four then v4 t else v6 t) 0 q"
    if q: "length q \<le> (if four then 32 else 128)" and "mem (if four then v4 s else v6 s) 0 q" for q four
  proof -
    obtain p where "wf_prefix p" "prefix_isValid p" "Is4 (Addr p) = four" "prefix_path p = q"
      using path_prefix[OF q] by blast
    with r that(2) show ?thesis by (force simp: space_Contains_mem fam_node_def)
  qed
  from this[of _ True] this[of _ False] show ?l by (auto simp: incl_def pathsA_def pathsB_def)
qed

lemma space_Subset_iff:
  assumes "pointer_eq same" "canon_space s"
  shows "space_Subset same s t \<longleftrightarrow> (\<forall>p. wf_prefix p \<longrightarrow> space_Contains s p \<longrightarrow> space_Contains t p)"
proof -
  have z: "mask_le zeroMask w" for w by (simp add: mask_le_def)
  show ?thesis
    using incl_spaces[of s "[t]"] assms
    by (simp add: space_Subset_def canon_space_def subsetNode_incl z)
qed

lemma SubsetOfUnion_iff:
  assumes "pointer_eq same" "canon_space s"
  shows "SubsetOfUnion same s ts \<longleftrightarrow>
     (\<forall>p. wf_prefix p \<longrightarrow> space_Contains s p \<longrightarrow> (\<exists>t \<in> set ts. space_Contains t p))"
proof (cases "length ts = 1")
  case True
  then obtain t where "ts = [t]" by (auto simp: length_Suc_conv)
  then show ?thesis using space_Subset_iff[OF assms] by (simp add: SubsetOfUnion_def)
next
  case False
  let ?w = "\<lambda>f. filter (\<lambda>n. n \<noteq> NilNode) (map f ts)"
  have z: "mask_le zeroMask w" for w by (simp add: mask_le_def)
  have w: "win (?w f) 0 (length (?w f)) = ?w f" for f by (simp add: win_def)
  have "subsetUnion same n 0 (length (?w f)) 0 wd zeroMask zeroMask (?w f) =
      (incl 0 wd (pathsA zeroMask n 0) (pathsB zeroMask (map f ts) 0), ?w f)"
    if c: "canon n 0 wd zeroMask" "wd \<le> 128" for n f wd
    using subsetUnion_incl[OF assms(1) c(2,1) le0 z order_refl, of "?w f" 0 zeroMask]
    unfolding w pathsB_filter by simp
  from this[of "v4 s" 32 v4] this[of "v6 s" 128 v6] assms(2) show ?thesis
    using False unfolding incl_spaces[of s ts, symmetric] by (simp add: canon_space_def SubsetOfUnion_def Let_def)
qed

end
