(* ===== verification/Space_Ranges.thy ===== *)
theory Space_Ranges
  imports Space_Subset
begin

text \<open>
  Listing a prefix space (\<^verbatim>\<open>types/prefixspace.go\<close>: \<^verbatim>\<open>Ranges\<close>, \<^verbatim>\<open>Example\<close>).  Both walk the trie with one
  16-byte address that each step edits in place and restores.  \<open>walkRanges\<close> is the walk with the
  caller's \<^verbatim>\<open>yield\<close> and the address as state; \<open>node_ranges\<close> is the list it goes through.  The lemmas
  show that the address is restored, that the ranges are well formed, pairwise disjoint and hold
  exactly the space's prefixes, and that \<^verbatim>\<open>SpaceOf\<close> of them is the space again.
\<close>

subsection \<open>The shared address\<close>

definition setAddrBit :: "u8 list \<Rightarrow> nat \<Rightarrow> nat \<Rightarrow> u8 list" where
  "setAddrBit addr d v =
     (let i = d div 8; x = addr ! i in
      if v = 1 then addr[i := x OR bmask d] else addr[i := x AND NOT (bmask d)])"

definition prefixAt :: "u8 list \<Rightarrow> nat \<Rightarrow> nat \<Rightarrow> prefix" where
  "prefixAt addr d width =
     (if width = 32 then PrefixFrom (AddrFromSlice (take 4 addr)) (int d)
      else PrefixFrom (AddrFromSlice addr) (int d))"

subsection \<open>Ranges\<close>

text \<open>A \<^verbatim>\<open>yield\<close> function: the consumer's state after a range, and whether it wants more.\<close>

type_synonym 'st yield = "'st \<Rightarrow> PrefixRange \<Rightarrow> 'st \<times> bool"

text \<open>The end of the run of lengths that starts at \<open>hi\<close>.\<close>

function run_end :: "lenMask \<Rightarrow> nat \<Rightarrow> nat \<Rightarrow> nat" where
  "run_end m hi width = (if hi < width \<and> mask_has m (hi + 1) then run_end m (hi + 1) width else hi)"
  by pat_completeness auto
termination
  by (relation "measure (\<lambda>(m, hi, width). width - hi)") auto

declare run_end.simps [simp del]

lemma run_end_ge: "hi \<le> run_end m hi width"
  by (induction m hi width rule: run_end.induct) (subst run_end.simps, auto)

lemma run_end_measure: "l \<le> width \<Longrightarrow> width - run_end m l width < Suc width - l"
  using run_end_ge[of l m width] by simp

definition range_or_zero :: "PrefixRange option \<Rightarrow> PrefixRange" where
  "range_or_zero x = (case x of Some r \<Rightarrow> r | None \<Rightarrow> zeroRange)"

text \<open>The loop over the lengths of one node.\<close>

function walk_lens :: "lenMask \<Rightarrow> nat \<Rightarrow> nat \<Rightarrow> prefix \<Rightarrow> 'st yield \<Rightarrow> 'st \<Rightarrow> bool \<times> 'st" where
  "walk_lens m l width p yield st =
     (if l \<le> width then
        if \<not> mask_has m l then walk_lens m (l + 1) width p yield st
        else let hi = run_end m l width;
                 r = range_or_zero (NewPrefixRange p (int l) (int hi));
                 (st, ok) = yield st r in
          if \<not> ok then (False, st) else walk_lens m (hi + 1) width p yield st
      else (True, st))"
  by pat_completeness auto
termination
  by (relation "measure (\<lambda>(m, l, width, p, yield, st). Suc width - l)")
     (auto simp: run_end_measure)

declare walk_lens.simps [simp del]

fun walkRanges :: "spaceNode \<Rightarrow> nat \<Rightarrow> nat \<Rightarrow> u8 list \<Rightarrow> 'st yield \<Rightarrow> 'st \<Rightarrow> bool \<times> u8 list \<times> 'st" where
  "walkRanges NilNode d width addr yield st = (True, addr, st)"
| "walkRanges (Node m c0 c1) d width addr yield st =
     (let p = prefixAt addr d width;
          (ok, st) = walk_lens m d width p yield st in
      if \<not> ok then (False, addr, st)
      else
        let (ok, addr, st) =
              (if c0 = NilNode then (True, addr, st)
               else let addr = setAddrBit addr d 0;
                        (ok, addr, st) = walkRanges c0 (d + 1) width addr yield st in
                 (ok, setAddrBit addr d 0, st)) in
        if \<not> ok then (False, addr, st)
        else if c1 = NilNode then (True, addr, st)
        else
          let addr = setAddrBit addr d 1;
              (ok, addr, st) = walkRanges c1 (d + 1) width addr yield st in
          (ok, setAddrBit addr d 0, st))"

definition space_Ranges :: "PrefixSpace \<Rightarrow> 'st yield \<Rightarrow> 'st \<Rightarrow> 'st" where
  "space_Ranges s yield st =
     (let (ok, addr, st) = walkRanges (v4 s) 0 32 (replicate 16 0) yield st in
      if \<not> ok then st
      else let (ok, addr, st) = walkRanges (v6 s) 0 128 (replicate 16 0) yield st in st)"

subsection \<open>Example\<close>

definition best_of :: "int \<Rightarrow> int \<Rightarrow> int" where
  "best_of best l = (if l \<ge> 0 \<and> (best < 0 \<or> l < best) then l else best)"

fun shortest :: "spaceNode \<Rightarrow> int" where
  "shortest NilNode = -1"
| "shortest (Node m c0 c1) =
     (let best = mask_lowest m;
          best = (if c0 = NilNode then best else best_of best (shortest c0)) in
      if c1 = NilNode then best else best_of best (shortest c1))"

fun firstWith :: "spaceNode \<Rightarrow> nat \<Rightarrow> nat \<Rightarrow> nat \<Rightarrow> u8 list \<Rightarrow> prefix option \<times> u8 list" where
  "firstWith NilNode d width l addr = (None, addr)"
| "firstWith (Node m c0 c1) d width l addr =
     (if mask_has m l then (addr_Prefix (Addr (prefixAt addr d width)) (int l), addr)
      else
        let (p, addr) =
              (if c0 = NilNode then (None, addr)
               else let addr = setAddrBit addr d 0; (p, addr) = firstWith c0 (d + 1) width l addr in
                 (p, setAddrBit addr d 0)) in
        if p \<noteq> None then (p, addr)
        else if c1 = NilNode then (None, addr)
        else let addr = setAddrBit addr d 1; (p, addr) = firstWith c1 (d + 1) width l addr in
          (p, setAddrBit addr d 0))"

definition space_Example :: "PrefixSpace \<Rightarrow> prefix option" where
  "space_Example s =
     (let try = (\<lambda>n width. if n = NilNode then None
                  else fst (firstWith n 0 width (nat (shortest n)) (replicate 16 0))) in
      case try (v4 s) 32 of Some p \<Rightarrow> Some p | None \<Rightarrow> try (v6 s) 128)"

subsection \<open>The address is restored\<close>

text \<open>The address holds nothing from bit \<open>d\<close> on.\<close>

definition clear_from :: "u8 list \<Rightarrow> nat \<Rightarrow> bool" where
  "clear_from addr d \<longleftrightarrow> length addr = 16 \<and> (\<forall>i \<ge> d. \<not> bbit addr i)"

lemma length_setAddrBit [simp]: "length (setAddrBit addr d v) = length addr"
  by (simp add: setAddrBit_def Let_def)

lemma bbit_setAddrBit:
  "length addr = 16 \<Longrightarrow> d < 128 \<Longrightarrow> bbit (setAddrBit addr d v) i \<longleftrightarrow> (if i = d then v = 1 else bbit addr i)"
  by (simp add: setAddrBit_def Let_def bbit_set bbit_clear)

lemma setAddrBit_0: "clear_from addr d \<Longrightarrow> d < 128 \<Longrightarrow> setAddrBit addr d 0 = addr"
  by (rule bbit_eqI) (auto simp: clear_from_def bbit_setAddrBit)

lemma setAddrBit_back: "clear_from addr d \<Longrightarrow> d < 128 \<Longrightarrow> setAddrBit (setAddrBit addr d 1) d 0 = addr"
  by (rule bbit_eqI) (auto simp: clear_from_def bbit_setAddrBit)

lemma clear_from_Suc: "clear_from addr d \<Longrightarrow> clear_from addr (Suc d)"
  by (simp add: clear_from_def)

lemma clear_from_set: "clear_from addr d \<Longrightarrow> d < 128 \<Longrightarrow> clear_from (setAddrBit addr d v) (Suc d)"
  by (auto simp: clear_from_def bbit_setAddrBit)

lemma clear_from_0 [simp]: "clear_from (replicate 16 0) 0"
  by (simp add: clear_from_def bbit_def)

subsection \<open>The list walked\<close>

function mask_ranges :: "lenMask \<Rightarrow> nat \<Rightarrow> nat \<Rightarrow> prefix \<Rightarrow> PrefixRange list" where
  "mask_ranges m l width p =
     (if l \<le> width then
        if \<not> mask_has m l then mask_ranges m (l + 1) width p
        else range_or_zero (NewPrefixRange p (int l) (int (run_end m l width))) #
             mask_ranges m (run_end m l width + 1) width p
      else [])"
  by pat_completeness auto
termination
  by (relation "measure (\<lambda>(m, l, width, p). Suc width - l)")
     (auto simp: run_end_measure)

declare mask_ranges.simps [simp del]

fun node_ranges :: "spaceNode \<Rightarrow> nat \<Rightarrow> nat \<Rightarrow> u8 list \<Rightarrow> PrefixRange list" where
  "node_ranges NilNode d width addr = []"
| "node_ranges (Node m c0 c1) d width addr =
     mask_ranges m d width (prefixAt addr d width) @
     node_ranges c0 (Suc d) width addr @ node_ranges c1 (Suc d) width (setAddrBit addr d 1)"

definition ranges_list :: "PrefixSpace \<Rightarrow> PrefixRange list" where
  "ranges_list s = node_ranges (v4 s) 0 32 (replicate 16 0) @ node_ranges (v6 s) 0 128 (replicate 16 0)"

fun feed :: "'st yield \<Rightarrow> PrefixRange list \<Rightarrow> 'st \<Rightarrow> bool \<times> 'st" where
  "feed yield [] st = (True, st)"
| "feed yield (r # rs) st = (let (st, ok) = yield st r in if ok then feed yield rs st else (False, st))"

lemma feed_append: "feed yield (rs @ ss) st = (let (ok, st) = feed yield rs st in if ok then feed yield ss st else (False, st))"
  by (induction rs arbitrary: st) (auto split: prod.splits)

lemma walk_lens_feed: "walk_lens m l width p yield st = feed yield (mask_ranges m l width p) st"
proof (induction m l width p yield st rule: walk_lens.induct)
  case (1 m l width p yield st)
  show ?case
  proof (cases "l \<le> width")
    case True
    then show ?thesis
      using 1 by (subst walk_lens.simps, subst mask_ranges.simps) (auto simp: Let_def split: prod.splits)
  qed (subst walk_lens.simps, subst mask_ranges.simps, simp)
qed

lemma walkRanges_feed:
  assumes "canon n d width cov" "width \<le> 128" "clear_from addr d"
  shows "walkRanges n d width addr yield st =
     (fst (feed yield (node_ranges n d width addr) st), addr, snd (feed yield (node_ranges n d width addr) st))"
  using assms
proof (induction n arbitrary: d cov addr st)
  case (Node m c0 c1)
  have d: "d < 128" if "c0 \<noteq> NilNode \<or> c1 \<noteq> NilNode"
    using that Node.prems(1,2) by (cases c0; cases c1) auto
  have c: "canon c0 (Suc d) width (mask_or cov m)" "canon c1 (Suc d) width (mask_or cov m)"
    using Node.prems(1) by auto
  note IH0 = Node.IH(1)[OF c(1) Node.prems(2) clear_from_Suc[OF Node.prems(3)]]
  note IH1 = Node.IH(2)[OF c(2) Node.prems(2) clear_from_set[OF Node.prems(3)]]
  show ?case
    using d setAddrBit_0[OF Node.prems(3)] setAddrBit_back[OF Node.prems(3)]
    by (cases "c0 = NilNode"; cases "c1 = NilNode")
       (auto simp: walk_lens_feed IH0 IH1 feed_append Let_def split: prod.splits)
qed simp

text \<open>\<^verbatim>\<open>Ranges\<close> hands the consumer the ranges of \<open>ranges_list\<close> in order until it declines one.\<close>

lemma space_Ranges_feed: "canon_space s \<Longrightarrow> space_Ranges s yield st = snd (feed yield (ranges_list s) st)"
  by (auto simp: space_Ranges_def ranges_list_def canon_space_def walkRanges_feed feed_append Let_def split: prod.splits)


subsection \<open>What the ranges hold\<close>

definition addr_path :: "u8 list \<Rightarrow> nat \<Rightarrow> bool list" where
  "addr_path addr d = map (bbit addr) [0..<d]"

definition family_width :: "nat \<Rightarrow> bool" where
  "family_width width \<longleftrightarrow> width = 32 \<or> width = 128"

lemma bbit_take4: "length addr = 16 \<Longrightarrow> i < 32 \<Longrightarrow> bbit (take 4 addr) i = bbit addr i"
  by (simp add: bbit_def)

lemma abit_prefixAt:
  assumes "length addr = 16" "family_width width" "i < width"
  shows "abit (Addr (prefixAt addr d width)) i = bbit addr i"
  using assms abit_AddrFromSlice[of "take 4 addr" i] abit_AddrFromSlice[of addr i] bbit_take4[of addr i]
  by (auto simp: prefixAt_def PrefixFrom_def netip_simps family_width_def)

lemma prefixAt_props:
  assumes "length addr = 16" "family_width width" "d \<le> width"
  shows "wf_prefix (prefixAt addr d width)" "prefix_isValid (prefixAt addr d width)"
    "Bits (prefixAt addr d width) = int d" "Is4 (Addr (prefixAt addr d width)) \<longleftrightarrow> width = 32"
    "BitLen (Addr (prefixAt addr d width)) = int width"
    "prefix_path (prefixAt addr d width) = addr_path addr d"
proof -
  show b: "Bits (prefixAt addr d width) = int d"
    using assms by (auto simp: prefixAt_def PrefixFrom_def AddrFromSlice_def family_width_def)
  show "wf_prefix (prefixAt addr d width)" by (simp add: prefixAt_def)
  show "prefix_isValid (prefixAt addr d width)" by (simp add: prefix_isValid_def b)
  show "Is4 (Addr (prefixAt addr d width)) \<longleftrightarrow> width = 32" "BitLen (Addr (prefixAt addr d width)) = int width"
    using assms by (auto simp: prefixAt_def PrefixFrom_def AddrFromSlice_def family_width_def)
  show "prefix_path (prefixAt addr d width) = addr_path addr d"
    using assms by (simp add: prefix_path_def addr_path_def b abit_prefixAt)
qed

lemma prefixAt_Masked:
  assumes "clear_from addr d" "family_width width" "d \<le> width"
  shows "Masked (prefixAt addr d width) = prefixAt addr d width"
proof -
  let ?p = "prefixAt addr d width"
  have len: "length addr = 16" using assms(1) by (simp add: clear_from_def)
  note P = prefixAt_props[OF len assms(2,3)]
  have "abit (Addr ?p) i \<Longrightarrow> i < d" for i
    using assms(1) abit_prefixAt[OF len assms(2), of i d] abit_ge[of "Addr ?p" i] P(5)
    by (cases "i < width") (auto simp: clear_from_def not_less[symmetric])
  then have "abit (Addr (Masked ?p)) i = abit (Addr ?p) i" for i
    using abit_Masked[OF P(1,2)] P(3) by auto
  then have "Addr (Masked ?p) = Addr ?p"
    using Masked_valid[OF P(1,2)] P(1) by (intro addr_eqI) (auto simp: wf_prefix_def)
  then show ?thesis using Masked_valid[OF P(1,2)] by (intro prefix.equality) simp_all
qed

lemma run_end_spec:
  "mask_has m hi \<Longrightarrow> hi \<le> width \<Longrightarrow>
   run_end m hi width \<le> width \<and> (\<forall>k. hi \<le> k \<and> k \<le> run_end m hi width \<longrightarrow> mask_has m k)"
proof (induction m hi width rule: run_end.induct)
  case (1 m hi width)
  show ?case
  proof (cases "hi < width \<and> mask_has m (hi + 1)")
    case True
    then have "run_end m hi width = run_end m (hi + 1) width" by (subst run_end.simps) simp
    moreover have "k = hi \<or> hi + 1 \<le> k" if "hi \<le> k" for k using that by auto
    ultimately show ?thesis using 1 True by (metis Suc_eq_plus1 Suc_leI)
  next
    case False
    then have "run_end m hi width = hi" by (subst run_end.simps) auto
    then show ?thesis using 1 by (auto simp: le_antisym)
  qed
qed

lemma run_end_stop: "run_end m hi width < width \<Longrightarrow> \<not> mask_has m (run_end m hi width + 1)"
  by (induction m hi width rule: run_end.induct) (subst (asm) (2) run_end.simps, subst run_end.simps, auto split: if_splits)

lemma run_range:
  assumes p: "wf_prefix p" "prefix_isValid p" "Masked p = p" and "Bits p \<le> int l" "l \<le> hi" "int hi \<le> BitLen (Addr p)"
  defines "r \<equiv> range_or_zero (NewPrefixRange p (int l) (int hi))"
  shows "rprefix r = p" "Lo r = int l" "Hi r = int hi" "wf_range r" "\<not> range_IsEmpty r"
proof -
  have "NewPrefixRange p (int l) (int hi) \<noteq> None"
    using assms by (simp add: NewPrefixRange_None)
  then have "NewPrefixRange p (int l) (int hi) = Some r" by (auto simp: r_def range_or_zero_def)
  from NewPrefixRange_Some[OF this p(1)] show "rprefix r = p" "Lo r = int l" "Hi r = int hi" "wf_range r" "\<not> range_IsEmpty r"
    using assms by (simp_all add: max_def min_def)
qed

lemma mask_ranges_Contains:
  assumes p: "wf_prefix p" "prefix_isValid p" "Masked p = p" "BitLen (Addr p) = int width" and q: "wf_prefix q"
    and "Bits p \<le> int l"
  shows "(\<forall>r \<in> set (mask_ranges m l width p). wf_range r \<and> rprefix r = p) \<and>
     ((\<exists>r \<in> set (mask_ranges m l width p). range_Contains r q) \<longleftrightarrow>
      prefix_isValid q \<and> Is4 (Addr p) = Is4 (Addr q) \<and> prefix_path p = take (nat (Bits p)) (prefix_path q) \<and>
      int l \<le> Bits q \<and> Bits q \<le> int width \<and> mask_has m (nat (Bits q)))"
  using p(4) assms(6)
proof (induction "Suc width - l" arbitrary: l rule: less_induct)
  case less
  consider "width < l" | "l \<le> width" "\<not> mask_has m l" | "l \<le> width" "mask_has m l" by linarith
  then show ?case
  proof cases
    case 1
    then show ?thesis by (subst (1 2) mask_ranges.simps) auto
  next
    case 2
    then have e: "mask_ranges m l width p = mask_ranges m (l + 1) width p" by (subst mask_ranges.simps) simp
    have b: "int l \<le> Bits q \<and> Bits q \<le> int width \<and> mask_has m (nat (Bits q)) \<longleftrightarrow>
        int (l + 1) \<le> Bits q \<and> Bits q \<le> int width \<and> mask_has m (nat (Bits q))"
      using 2(2) by (cases "Bits q = int l") auto
    show ?thesis unfolding e b using less.hyps[of "l + 1"] 2(1) less.prems by simp
  next
    case 3
    let ?e = "run_end m l width" and ?r = "range_or_zero (NewPrefixRange p (int l) (int (run_end m l width)))"
    have e: "mask_ranges m l width p = ?r # mask_ranges m (?e + 1) width p"
      using 3 by (subst mask_ranges.simps) simp
    have s: "l \<le> ?e" "?e \<le> width" "\<And>k. l \<le> k \<Longrightarrow> k \<le> ?e \<Longrightarrow> mask_has m k"
      using run_end_spec[OF 3(2,1)] run_end_ge[of l m width] by auto
    have R: "rprefix ?r = p" "Lo ?r = int l" "Hi ?r = int ?e" "wf_range ?r" "\<not> range_IsEmpty ?r"
      using run_range[OF p(1-3) less.prems(2) s(1)] s(2) p(4) by simp_all
    have b: "int l \<le> Bits q \<and> Bits q \<le> int width \<and> mask_has m (nat (Bits q)) \<longleftrightarrow>
        (int l \<le> Bits q \<and> Bits q \<le> int ?e) \<or>
        (int (?e + 1) \<le> Bits q \<and> Bits q \<le> int width \<and> mask_has m (nat (Bits q)))"
      using s(1,2) s(3)[of "nat (Bits q)"] by linarith
    have "range_Contains ?r q \<longleftrightarrow> prefix_isValid q \<and> Is4 (Addr p) = Is4 (Addr q) \<and>
        prefix_path p = take (nat (Bits p)) (prefix_path q) \<and> int l \<le> Bits q \<and> Bits q \<le> int ?e"
      using range_Contains_iff[OF R(4) q] R by auto
    moreover have "(\<forall>r \<in> set (mask_ranges m (?e + 1) width p). wf_range r \<and> rprefix r = p) \<and>
        ((\<exists>r \<in> set (mask_ranges m (?e + 1) width p). range_Contains r q) \<longleftrightarrow>
         prefix_isValid q \<and> Is4 (Addr p) = Is4 (Addr q) \<and> prefix_path p = take (nat (Bits p)) (prefix_path q) \<and>
         int (?e + 1) \<le> Bits q \<and> Bits q \<le> int width \<and> mask_has m (nat (Bits q)))"
      using less.hyps[of "?e + 1"] s(1,2) less.prems by simp
    ultimately show ?thesis unfolding e b list.set using R(1,4) by blast
  qed
qed


text \<open>The prefixes below the node at depth \<open>d\<close> that \<open>addr\<close> points to.\<close>

definition below :: "u8 list \<Rightarrow> nat \<Rightarrow> nat \<Rightarrow> prefix \<Rightarrow> bool" where
  "below addr d width q \<longleftrightarrow> prefix_isValid q \<and> (Is4 (Addr q) \<longleftrightarrow> width = 32) \<and> int d \<le> Bits q \<and>
     addr_path addr d = take d (prefix_path q)"

lemma below_kid:
  assumes "clear_from addr d" "d < 128"
  shows "below addr (Suc d) width q \<longleftrightarrow> below addr d width q \<and> int d < Bits q \<and> \<not> prefix_path q ! d"
    and "below (setAddrBit addr d 1) (Suc d) width q \<longleftrightarrow> below addr d width q \<and> int d < Bits q \<and> prefix_path q ! d"
proof -
  have len: "length addr = 16" and z: "\<not> bbit addr d" using assms(1) by (auto simp: clear_from_def)
  have t: "take (Suc d) (prefix_path q) = take d (prefix_path q) @ [prefix_path q ! d]" if "int d < Bits q"
    using that by (intro take_Suc_conv_app_nth) (simp add: path_simps)
  have a: "addr_path addr (Suc d) = addr_path addr d @ [False]"
    using z by (simp add: addr_path_def)
  have b: "addr_path (setAddrBit addr d 1) (Suc d) = addr_path addr d @ [True]"
    using len assms(2) by (simp add: addr_path_def bbit_setAddrBit)
  show "below addr (Suc d) width q \<longleftrightarrow> below addr d width q \<and> int d < Bits q \<and> \<not> prefix_path q ! d"
    unfolding below_def a using t by auto
  show "below (setAddrBit addr d 1) (Suc d) width q \<longleftrightarrow> below addr d width q \<and> int d < Bits q \<and> prefix_path q ! d"
    unfolding below_def b using t by auto
qed

lemma mem_below:
  assumes "below addr d width q"
  shows "mem (Node m c0 c1) d (drop d (prefix_path q)) \<longleftrightarrow> mask_has m (nat (Bits q)) \<or>
     (int d < Bits q \<and> mem (if prefix_path q ! d then c1 else c0) (Suc d) (drop (Suc d) (prefix_path q)))"
proof (cases "int d < Bits q")
  case True
  then have "drop d (prefix_path q) = prefix_path q ! d # drop (Suc d) (prefix_path q)"
    by (intro Cons_nth_drop_Suc[symmetric]) (simp add: path_simps)
  moreover have "d + Suc (length (drop (Suc d) (prefix_path q))) = nat (Bits q)" using True by (simp add: path_simps)
  ultimately show ?thesis using True by simp
next
  case False
  then have "Bits q = int d" using assms by (simp add: below_def)
  then show ?thesis by (simp add: path_simps)
qed

lemma node_mask_ranges:
  assumes "clear_from addr d" "family_width width" "d \<le> width" "wf_prefix q"
  shows "(\<forall>r \<in> set (mask_ranges m d width (prefixAt addr d width)). wf_range r) \<and>
     ((\<exists>r \<in> set (mask_ranges m d width (prefixAt addr d width)). range_Contains r q) \<longleftrightarrow>
      below addr d width q \<and> mask_has m (nat (Bits q)))"
proof -
  have len: "length addr = 16" using assms(1) by (simp add: clear_from_def)
  note P = prefixAt_props[OF len assms(2,3)]
  have w: "Bits q \<le> int width" if "prefix_isValid q" "Is4 (Addr q) \<longleftrightarrow> width = 32"
    using prefix_bounds[OF assms(4) that(1)] fam_width_BitLen[OF assms(4) that(1)] that(2) assms(2)
    by (auto simp: fam_width_def family_width_def)
  show ?thesis
    using mask_ranges_Contains[OF P(1,2) prefixAt_Masked[OF assms(1-3)] P(5) assms(4), of d m] P(3,4,6) w
    by (auto simp: below_def)
qed

lemma node_ranges_Contains:
  assumes "canon n d width cov" "family_width width" "clear_from addr d" "wf_prefix q"
  shows "(\<forall>r \<in> set (node_ranges n d width addr). wf_range r) \<and>
     ((\<exists>r \<in> set (node_ranges n d width addr). range_Contains r q) \<longleftrightarrow>
      below addr d width q \<and> mem n d (drop d (prefix_path q)))"
  using assms(1,3)
proof (induction n arbitrary: d cov addr)
  case (Node m c0 c1)
  have le: "d \<le> width" and c: "canon c0 (Suc d) width (mask_or cov m)" "canon c1 (Suc d) width (mask_or cov m)"
    using Node.prems(1) by auto
  note own = node_mask_ranges[OF Node.prems(2) assms(2) le assms(4), of m]
  show ?case
  proof (cases "d < width")
    case True
    then have d: "d < 128" using assms(2) by (auto simp: family_width_def)
    note IH0 = Node.IH(1)[OF c(1) clear_from_Suc[OF Node.prems(2)]]
    note IH1 = Node.IH(2)[OF c(2) clear_from_set[OF Node.prems(2) d, of 1]]
    have "below addr d width q \<and> mem (Node m c0 c1) d (drop d (prefix_path q)) \<longleftrightarrow>
        below addr d width q \<and> mask_has m (nat (Bits q)) \<or>
        below addr (Suc d) width q \<and> mem c0 (Suc d) (drop (Suc d) (prefix_path q)) \<or>
        below (setAddrBit addr d 1) (Suc d) width q \<and> mem c1 (Suc d) (drop (Suc d) (prefix_path q))"
      unfolding below_kid[OF Node.prems(2) d] using mem_below[of addr d width q m c0 c1] by (auto split: if_splits)
    then show ?thesis unfolding node_ranges.simps set_append bex_Un ball_Un using own IH0 IH1 by blast
  next
    case False
    then have "c0 = NilNode" "c1 = NilNode" using c by (cases c0; cases c1; auto)+
    then show ?thesis using own mem_below[of addr d width q m c0 c1] by auto
  qed
qed simp

lemma ranges_list_Contains:
  assumes "canon_space s" "wf_prefix q"
  shows "\<forall>r \<in> set (ranges_list s). wf_range r"
    and "(\<exists>r \<in> set (ranges_list s). range_Contains r q) \<longleftrightarrow> space_Contains s q"
proof -
  have "family_width 32" "family_width 128" by (simp_all add: family_width_def)
  then have n4: "(\<forall>r \<in> set (node_ranges (v4 s) 0 32 (replicate 16 0)). wf_range r) \<and>
      ((\<exists>r \<in> set (node_ranges (v4 s) 0 32 (replicate 16 0)). range_Contains r q) \<longleftrightarrow>
       prefix_isValid q \<and> Is4 (Addr q) \<and> mem (v4 s) 0 (prefix_path q))"
    and n6: "(\<forall>r \<in> set (node_ranges (v6 s) 0 128 (replicate 16 0)). wf_range r) \<and>
      ((\<exists>r \<in> set (node_ranges (v6 s) 0 128 (replicate 16 0)). range_Contains r q) \<longleftrightarrow>
       prefix_isValid q \<and> \<not> Is4 (Addr q) \<and> mem (v6 s) 0 (prefix_path q))"
    using node_ranges_Contains[of "v4 s" 0 32 zeroMask "replicate 16 0" q]
      node_ranges_Contains[of "v6 s" 0 128 zeroMask "replicate 16 0" q] assms
    by (auto simp: canon_space_def below_def addr_path_def prefix_isValid_def)
  show "\<forall>r \<in> set (ranges_list s). wf_range r"
    using n4 n6 by (auto simp: ranges_list_def)
  show "(\<exists>r \<in> set (ranges_list s). range_Contains r q) \<longleftrightarrow> space_Contains s q"
    unfolding ranges_list_def set_append bex_Un using n4 n6 assms(2) by (auto simp: space_Contains_mem fam_node_def)
qed

lemma SpaceOf_ranges_list: "canon_space s \<Longrightarrow> SpaceOf (ranges_list s) = s"
  using ranges_list_Contains[of s] canon_SpaceOf[of "ranges_list s"] wf_prefix_zeroPrefix
  by (intro space_ext) (auto simp: SpaceOf_mem)


subsection \<open>The ranges are disjoint\<close>

definition apart :: "PrefixRange \<Rightarrow> PrefixRange \<Rightarrow> bool" where
  "apart r s \<longleftrightarrow> (\<forall>q. wf_prefix q \<longrightarrow> \<not> (range_Contains r q \<and> range_Contains s q))"

lemma mask_ranges_lens:
  assumes p: "wf_prefix p" "prefix_isValid p" "Masked p = p" "BitLen (Addr p) = int width" "Bits p \<le> int l"
  shows "(\<forall>r \<in> set (mask_ranges m l width p). wf_range r \<and> rprefix r = p \<and> int l \<le> Lo r \<and> mask_has m (nat (Lo r))) \<and>
     sorted_wrt (\<lambda>r s. Hi r + 1 < Lo s) (mask_ranges m l width p)"
  using p(4,5)
proof (induction "Suc width - l" arbitrary: l rule: less_induct)
  case less
  consider "width < l" | "l \<le> width" "\<not> mask_has m l" | "l \<le> width" "mask_has m l" by linarith
  then show ?case
  proof cases
    case 1
    then show ?thesis by (subst (1 2) mask_ranges.simps) auto
  next
    case 2
    then have e: "mask_ranges m l width p = mask_ranges m (l + 1) width p" by (subst mask_ranges.simps) simp
    have "(\<forall>r \<in> set (mask_ranges m (l + 1) width p).
        wf_range r \<and> rprefix r = p \<and> int (l + 1) \<le> Lo r \<and> mask_has m (nat (Lo r))) \<and>
        sorted_wrt (\<lambda>r s. Hi r + 1 < Lo s) (mask_ranges m (l + 1) width p)"
      using less.hyps[of "l + 1"] 2(1) less.prems by simp
    then show ?thesis unfolding e by fastforce
  next
    case 3
    let ?e = "run_end m l width" and ?r = "range_or_zero (NewPrefixRange p (int l) (int (run_end m l width)))"
    have e: "mask_ranges m l width p = ?r # mask_ranges m (?e + 1) width p"
      using 3 by (subst mask_ranges.simps) simp
    have s: "l \<le> ?e" "?e \<le> width"
      using run_end_spec[OF 3(2,1)] run_end_ge[of l m width] by auto
    have R: "rprefix ?r = p" "Lo ?r = int l" "Hi ?r = int ?e" "wf_range ?r" "\<not> range_IsEmpty ?r"
      using run_range[OF p(1-3) less.prems(2) s(1)] s(2) p(4) by simp_all
    have IH: "(\<forall>r \<in> set (mask_ranges m (?e + 1) width p).
        wf_range r \<and> rprefix r = p \<and> int (?e + 1) \<le> Lo r \<and> mask_has m (nat (Lo r))) \<and>
        sorted_wrt (\<lambda>r s. Hi r + 1 < Lo s) (mask_ranges m (?e + 1) width p)"
      using less.hyps[of "?e + 1"] s less.prems by simp
    have gap: "int ?e + 1 < Lo x" if x: "x \<in> set (mask_ranges m (?e + 1) width p)" for x
    proof -
      have h: "int (?e + 1) \<le> Lo x" "mask_has m (nat (Lo x))" "wf_range x" "rprefix x = p" using IH x by auto
      have "?e + 1 \<le> width"
        using x by (subst (asm) mask_ranges.simps) (auto split: if_splits)
      then have "\<not> mask_has m (?e + 1)" using run_end_stop[of m l width] s(2) by auto
      then have "Lo x \<noteq> int (?e + 1)" using h(2) by (metis nat_int)
      with h(1) show ?thesis by linarith
    qed
    have "int l \<le> Lo x" if "x \<in> set (mask_ranges m (?e + 1) width p)" for x
      using gap[OF that] s(1) by linarith
    then show ?thesis unfolding e using IH gap R(1-4) 3(2) by simp
  qed
qed

lemma disjoint_lens: "wf_range r \<Longrightarrow> wf_range s \<Longrightarrow> Hi r + 1 < Lo s \<Longrightarrow> apart r s"
  by (auto simp: apart_def range_Contains_iff)

lemma node_ranges_apart:
  assumes "canon n d width cov" "family_width width" "clear_from addr d"
  shows "sorted_wrt apart (node_ranges n d width addr)"
  using assms(1,3)
proof (induction n arbitrary: d cov addr)
  case (Node m c0 c1)
  have le: "d \<le> width" and c: "canon c0 (Suc d) width (mask_or cov m)" "canon c1 (Suc d) width (mask_or cov m)"
    using Node.prems(1) by auto
  have len: "length addr = 16" using Node.prems(2) by (simp add: clear_from_def)
  let ?own = "mask_ranges m d width (prefixAt addr d width)"
  note P = prefixAt_props[OF len assms(2) le]
  have own: "sorted_wrt apart ?own"
    using mask_ranges_lens[OF P(1,2) prefixAt_Masked[OF Node.prems(2) assms(2) le] P(5), of d m] P(3)
    by (auto intro: sorted_wrt_mono_rel[rotated] disjoint_lens)
  show ?case
  proof (cases "d < width")
    case True
    then have d: "d < 128" and w: "width \<le> 128" using assms(2) by (auto simp: family_width_def)
    let ?k0 = "node_ranges c0 (Suc d) width addr" and ?k1 = "node_ranges c1 (Suc d) width (setAddrBit addr d 1)"
    note cl0 = clear_from_Suc[OF Node.prems(2)] and cl1 = clear_from_set[OF Node.prems(2) d, of 1]
    have in0: "below addr (Suc d) width q \<and> mem c0 (Suc d) (drop (Suc d) (prefix_path q))"
      if "r \<in> set ?k0" "wf_prefix q" "range_Contains r q" for r q
      using node_ranges_Contains[OF c(1) assms(2) cl0 that(2)] that by blast
    have in1: "below (setAddrBit addr d 1) (Suc d) width q \<and> mem c1 (Suc d) (drop (Suc d) (prefix_path q))"
      if "r \<in> set ?k1" "wf_prefix q" "range_Contains r q" for r q
      using node_ranges_Contains[OF c(2) assms(2) cl1 that(2)] that by blast
    have ino: "below addr d width q \<and> mask_has m (nat (Bits q))"
      if "r \<in> set ?own" "wf_prefix q" "range_Contains r q" for r q
      using node_mask_ranges[OF Node.prems(2) assms(2) le that(2), of m] that by blast
    have cov: "\<not> mem (if x then c1 else c0) (Suc d) (drop (Suc d) (prefix_path q))"
      if "mask_has m (nat (Bits q))" "int d < Bits q" "wf_prefix q" "prefix_isValid q" for q x
    proof -
      have l: "Suc d + length (drop (Suc d) (prefix_path q)) = nat (Bits q)" using that(2) by (simp add: path_simps)
      have "nat (Bits q) < 192" using prefix_bounds[OF that(3,4)] by linarith
      then show ?thesis
        using c(1)[THEN canon_covered, of "drop (Suc d) (prefix_path q)"]
          c(2)[THEN canon_covered, of "drop (Suc d) (prefix_path q)"] that(1) unfolding l by (cases x) simp_all
    qed
    have bits: "prefix_isValid q \<and> int d < Bits q" if "below addr (Suc d) width q \<or> below (setAddrBit addr d 1) (Suc d) width q" for q
      using that by (auto simp: below_def)
    have "apart r s" if r: "r \<in> set ?own" and s: "s \<in> set ?k0 \<union> set ?k1" for r s
      unfolding apart_def
    proof (intro allI impI notI)
      fix q assume q: "wf_prefix q" "range_Contains r q \<and> range_Contains s q"
      have m: "mask_has m (nat (Bits q))" using ino[OF r q(1)] q(2) by blast
      show False using s
      proof
        assume "s \<in> set ?k0"
        with in0[OF _ q(1)] q(2) cov[OF m _ q(1), of False] bits show False by auto
      next
        assume "s \<in> set ?k1"
        with in1[OF _ q(1)] q(2) cov[OF m _ q(1), of True] bits show False by auto
      qed
    qed
    then have "\<forall>r \<in> set ?own. \<forall>s \<in> set ?k0 \<union> set ?k1. apart r s" by blast
    moreover have "\<forall>r \<in> set ?k0. \<forall>s \<in> set ?k1. apart r s"
      unfolding apart_def using in0 in1 below_kid[OF Node.prems(2) d] by blast
    ultimately show ?thesis
      using own Node.IH(1)[OF c(1) cl0] Node.IH(2)[OF c(2) cl1] by (simp add: sorted_wrt_append)
  next
    case False
    then have "c0 = NilNode" "c1 = NilNode" using c by (cases c0; cases c1; auto)+
    then show ?thesis using own by simp
  qed
qed simp

lemma ranges_list_apart:
  assumes "canon_space s"
  shows "sorted_wrt apart (ranges_list s)"
proof -
  have f: "family_width 32" "family_width 128" by (simp_all add: family_width_def)
  have c: "canon (v4 s) 0 32 zeroMask" "canon (v6 s) 0 128 zeroMask" using assms by (auto simp: canon_space_def)
  have "apart r t" if "r \<in> set (node_ranges (v4 s) 0 32 (replicate 16 0))"
    "t \<in> set (node_ranges (v6 s) 0 128 (replicate 16 0))" for r t
    unfolding apart_def
    using node_ranges_Contains[OF c(1) f(1) clear_from_0] node_ranges_Contains[OF c(2) f(2) clear_from_0] that
    by (auto simp: below_def)
  then show ?thesis
    using node_ranges_apart[OF c(1) f(1) clear_from_0] node_ranges_apart[OF c(2) f(2) clear_from_0]
    by (simp add: ranges_list_def sorted_wrt_append)
qed

end
