(* ===== verification/Range_Enum.thy ===== *)
theory Range_Enum
  imports Prefix_Range
begin

text \<open>
  Enumeration of a prefix range (\<^verbatim>\<open>All\<close>, \<^verbatim>\<open>Materialize\<close> and \<^verbatim>\<open>increment\<close> of
  \<^verbatim>\<open>types/prefixrange.go\<close>).  \<^verbatim>\<open>All\<close> is a lazy iterator; its model is the list of what it
  yields when the consumer never stops, of which a consumer that stops early has seen an
  initial segment.
\<close>

subsection \<open>Definitions\<close>

text \<open>
  \<open>increment b start en\<close> adds one to the bit field \<open>[start, en)\<close> of the big-endian bytes:
  \<open>None\<close> is the panic of an index past the slice.
\<close>

fun increment :: "u8 list \<Rightarrow> nat \<Rightarrow> nat \<Rightarrow> (bool \<times> u8 list) option" where
  "increment b start en =
     (if en \<le> start then Some (False, b)
      else let pos = en - 1 in
        if length b \<le> pos div 8 then None
        else if b ! (pos div 8) AND bmask pos = 0
        then Some (True, b[pos div 8 := b ! (pos div 8) OR bmask pos])
        else increment (b[pos div 8 := b ! (pos div 8) AND NOT (bmask pos)]) start pos)"

declare increment.simps [simp del]

text \<open>The value of the bit field, the measure of the enumeration loop.\<close>

fun fieldval :: "u8 list \<Rightarrow> nat \<Rightarrow> nat \<Rightarrow> nat" where
  "fieldval b start en =
     (if en \<le> start then 0 else 2 * fieldval b start (en - 1) + of_bool (bbit b (en - 1)))"

declare fieldval.simps [simp del]

lemma fieldval_base [simp]: "en \<le> start \<Longrightarrow> fieldval b start en = 0"
  by (simp add: fieldval.simps)

lemma fieldval_Suc: "start \<le> en \<Longrightarrow> fieldval b start (Suc en) = 2 * fieldval b start en + of_bool (bbit b en)"
  by (simp add: fieldval.simps[of b start "Suc en"])

lemma fieldval_less: "fieldval b start en < 2 ^ (en - start)"
proof (induction en)
  case (Suc en)
  show ?case
  proof (cases "start \<le> en")
    case True
    have "2 * fieldval b start en + of_bool (bbit b en) < 2 * 2 ^ (en - start)"
      using Suc by (cases "bbit b en") auto
    with True show ?thesis by (simp add: fieldval_Suc Suc_diff_le)
  qed simp
qed simp

lemma fieldval_cong:
  "(\<And>i. start \<le> i \<Longrightarrow> i < en \<Longrightarrow> bbit a i = bbit b i) \<Longrightarrow> fieldval a start en = fieldval b start en"
proof (induction en)
  case (Suc en)
  then show ?case by (cases "start \<le> en") (simp_all add: fieldval_Suc)
qed simp

lemma fieldval_inj:
  "fieldval a start en = fieldval b start en \<Longrightarrow> start \<le> i \<Longrightarrow> i < en \<Longrightarrow> bbit a i = bbit b i"
proof (induction en)
  case (Suc en)
  have s: "start \<le> en" using Suc.prems by linarith
  have e: "2 * fieldval a start en + of_bool (bbit a en) = 2 * fieldval b start en + of_bool (bbit b en)"
    using Suc.prems(1) s by (simp add: fieldval_Suc)
  then have "bbit a en = bbit b en" "fieldval a start en = fieldval b start en"
    by (cases "bbit a en"; cases "bbit b en"; simp; presburger)+
  with Suc show ?case by (cases "i = en") auto
qed simp

lemma increment_spec:
  assumes "increment b start en = Some (ok, b')"
  shows "length b' = length b" "\<And>i. i < start \<or> en \<le> i \<Longrightarrow> bbit b' i = bbit b i"
    "ok \<Longrightarrow> fieldval b' start en = Suc (fieldval b start en)"
    "\<not> ok \<Longrightarrow> Suc (fieldval b start en) = 2 ^ (en - start)"
proof -
  have "length b' = length b \<and> (\<forall>i. i < start \<or> en \<le> i \<longrightarrow> bbit b' i = bbit b i) \<and>
    (ok \<longrightarrow> fieldval b' start en = Suc (fieldval b start en)) \<and>
    (\<not> ok \<longrightarrow> Suc (fieldval b start en) = 2 ^ (en - start) \<and> fieldval b' start en = 0)"
    using assms
  proof (induction b start en rule: increment.induct)
    case (1 b start en)
    show ?case
    proof (cases "en \<le> start")
      case True
      with "1.prems" show ?thesis by (simp add: increment.simps)
    next
      case False
      then obtain pos where en: "en = Suc pos" and sp: "start \<le> pos" by (cases en) auto
      have in_range: "\<not> length b \<le> pos div 8"
        using "1.prems" False by (subst (asm) increment.simps) (auto simp: en split: if_splits)
      then have pos: "pos < 8 * length b" by auto
      show ?thesis
      proof (cases "bbit b pos")
        case False
        then have eq: "ok" "b' = b[pos div 8 := b ! (pos div 8) OR bmask pos]"
          using "1.prems" in_range sp
          by (subst (asm) increment.simps; simp add: en Let_def bbit_test[OF pos])+
        have "fieldval b' start pos = fieldval b start pos"
          by (rule fieldval_cong) (simp add: eq bbit_set[OF pos])
        then show ?thesis
          using eq False sp by (simp add: en fieldval_Suc bbit_set[OF pos])
      next
        case True
        let ?b = "b[pos div 8 := b ! (pos div 8) AND NOT (bmask pos)]"
        have t: "b ! (pos div 8) AND bmask pos \<noteq> 0" using True bbit_test[OF pos] by simp
        have step: "increment ?b start pos = Some (ok, b')"
          using "1.prems" in_range sp True
          by (subst (asm) increment.simps) (simp add: en Let_def bbit_test[OF pos])
        have IH: "length b' = length ?b \<and> (\<forall>i. i < start \<or> pos \<le> i \<longrightarrow> bbit b' i = bbit ?b i) \<and>
          (ok \<longrightarrow> fieldval b' start pos = Suc (fieldval ?b start pos)) \<and>
          (\<not> ok \<longrightarrow> Suc (fieldval ?b start pos) = 2 ^ (pos - start) \<and> fieldval b' start pos = 0)"
          by (rule "1.IH"[of pos]) (use False in_range t step in \<open>simp_all add: en\<close>)
        have fv: "fieldval ?b start pos = fieldval b start pos"
          by (rule fieldval_cong) (simp add: bbit_clear[OF pos])
        have p: "\<not> bbit b' pos" using IH by (simp add: bbit_clear[OF pos])
        show ?thesis using IH fv p True sp
          by (auto simp: en fieldval_Suc bbit_clear[OF pos] Suc_diff_le)
      qed
    qed
  qed
  then show "length b' = length b" "\<And>i. i < start \<or> en \<le> i \<Longrightarrow> bbit b' i = bbit b i"
    "ok \<Longrightarrow> fieldval b' start en = Suc (fieldval b start en)"
    "\<not> ok \<Longrightarrow> Suc (fieldval b start en) = 2 ^ (en - start)" by auto
qed

lemma increment_total: "en \<le> 8 * length b \<Longrightarrow> \<exists>ok b'. increment b start en = Some (ok, b')"
proof (induction b start en rule: increment.induct)
  case (1 b start en)
  show ?case
  proof (cases "en \<le> start")
    case True
    then show ?thesis by (auto simp: increment.simps)
  next
    case False
    then have "\<not> length b \<le> (en - 1) div 8" using "1.prems" by auto
    with 1 False show ?thesis
      by (subst increment.simps) (auto simp: Let_def)
  qed
qed

text \<open>The inner loop of \<^verbatim>\<open>All\<close>: yield, increment, stop when the field wraps.\<close>

function all_len :: "u8 list \<Rightarrow> nat \<Rightarrow> nat \<Rightarrow> prefix list" where
  "all_len b baseBits L =
     PrefixFrom (AddrFromSlice b) (int L) #
       (case increment b baseBits L of
          Some (True, b') \<Rightarrow> all_len b' baseBits L
        | _ \<Rightarrow> [])"
  by pat_completeness auto
termination
proof (relation "measure (\<lambda>(b, baseBits, L). 2 ^ (L - baseBits) - fieldval b baseBits L)", goal_cases)
  case (2 b baseBits L x y z)
  then have "fieldval z baseBits L = Suc (fieldval b baseBits L)" using increment_spec(3) by blast
  then show ?case using fieldval_less[of b baseBits L] fieldval_less[of z baseBits L] by simp
qed simp

declare all_len.simps [simp del]

definition range_All :: "PrefixRange \<Rightarrow> prefix list" where
  "range_All r =
     (if range_IsEmpty r then []
      else concat (map (\<lambda>L. all_len (AsSlice (Addr (rprefix r))) (nat (Bits (rprefix r))) (nat L))
             [Lo r..Hi r]))"

datatype materialize_error = ErrTooManyPrefixes

text \<open>The budget loop of \<^verbatim>\<open>Materialize\<close>, which runs before anything is allocated.\<close>

function mat_total :: "int \<Rightarrow> int \<Rightarrow> int \<Rightarrow> int \<Rightarrow> int \<Rightarrow> materialize_error + int" where
  "mat_total bits maxPrefixes L hi tot =
     (if L > hi then Inr tot
      else let w = L - bits in
        if w \<ge> 31 then Inl ErrTooManyPrefixes
        else let tot = tot + 2 ^ nat w in
          if tot > maxPrefixes then Inl ErrTooManyPrefixes
          else mat_total bits maxPrefixes (L + 1) hi tot)"
  by pat_completeness auto
termination
  by (relation "measure (\<lambda>(bits, maxPrefixes, L, hi, tot). nat (hi + 1 - L))") auto

declare mat_total.simps [simp del]

definition Materialize :: "PrefixRange \<Rightarrow> int \<Rightarrow> materialize_error + prefix list" where
  "Materialize r maxPrefixes =
     (if range_IsEmpty r then Inr []
      else case mat_total (Bits (rprefix r)) maxPrefixes (Lo r) (Hi r) 0 of
        Inl e \<Rightarrow> Inl e
      | Inr tot \<Rightarrow> Inr (range_All r))"

subsection \<open>The field as a number\<close>

lemma bit_fieldval: "bit (fieldval b 0 n) j \<longleftrightarrow> j < n \<and> bbit b (n - 1 - j)"
proof (induction n arbitrary: j)
  case (Suc n)
  show ?case
  proof (cases j)
    case 0
    then show ?thesis by (simp add: fieldval_Suc bit_0)
  next
    case (Suc k)
    have "(2 * fieldval b 0 n + of_bool (bbit b n)) div 2 = fieldval b 0 n" by simp
    then show ?thesis using Suc.IH[of k] Suc by (simp add: fieldval_Suc bit_Suc)
  qed
qed simp

lemma unat_of_bytes:
  assumes "LENGTH('a) = 8 * length b"
  shows "unat (of_bytes b :: 'a::len word) = fieldval b 0 (8 * length b)"
proof (rule bit_eqI)
  fix j
  have *: "length b - 1 - j div 8 = (8 * length b - 1 - j) div 8 \<and> j mod 8 = 7 - (8 * length b - 1 - j) mod 8"
    if j: "j < 8 * length b"
  proof -
    let ?q = "length b - 1 - j div 8"
    have "8 * (j div 8) + j mod 8 = j" "j mod 8 < 8" "j div 8 < length b" using j by auto
    then have "8 * length b - 1 - j = 8 * ?q + (7 - j mod 8)" "7 - j mod 8 < 8" "7 - (7 - j mod 8) = j mod 8" by linarith+
    moreover have "(8 * q + c) div 8 = q" "(8 * q + c) mod 8 = c" if "c < 8" for q c :: nat using that by simp_all
    ultimately show ?thesis by metis
  qed
  show "bit (unat (of_bytes b :: 'a word)) j = bit (fieldval b 0 (8 * length b)) j"
    using assms * by (auto simp: bit_fieldval bit_unsigned_iff bit_of_bytes bbit_def)
qed

lemma fieldval_append:
  assumes "start \<le> m" "m \<le> en"
  shows "fieldval b start en = 2 ^ (en - m) * fieldval b start m + fieldval b m en"
  using assms(2)
proof (induction en)
  case (Suc en)
  show ?case
  proof (cases "m = Suc en")
    case False
    then have "m \<le> en" using Suc.prems by simp
    with Suc.IH assms(1) show ?thesis by (simp add: fieldval_Suc Suc_diff_le algebra_simps)
  qed simp
qed (use assms in simp)

text \<open>Byte strings that differ only inside a field compare as the field does.\<close>

lemma fieldval_less_outside:
  assumes out: "\<And>i. i < start \<or> L \<le> i \<Longrightarrow> bbit a i = bbit b i" and le: "start \<le> L" "L \<le> n"
    and less: "fieldval a start L < fieldval b start L"
  shows "fieldval a 0 n < fieldval b 0 n"
proof -
  have 1: "fieldval a 0 start = fieldval b 0 start" "fieldval a L n = fieldval b L n"
    by (rule fieldval_cong; use out in simp)+
  have "fieldval a 0 L < fieldval b 0 L"
    using less 1(1) fieldval_append[of 0 start L a] fieldval_append[of 0 start L b] le by simp
  then show ?thesis
    using 1(2) fieldval_append[of 0 L n a] fieldval_append[of 0 L n b] le by simp
qed

lemma addr_less_fieldval:
  assumes "length a = 4 \<or> length a = 16" "length b = length a" "fieldval a 0 (8 * length a) < fieldval b 0 (8 * length a)"
  shows "addr_less (AddrFromSlice a) (AddrFromSlice b)"
  using assms by (auto simp: AddrFromSlice_def word_less_nat_alt unat_of_bytes)

subsection \<open>Enumeration is exact\<close>

lemma all_len_fields:
  assumes "L \<le> 8 * length b" "start \<le> L"
  shows "\<exists>bs. all_len b start L = map (\<lambda>b. PrefixFrom (AddrFromSlice b) (int L)) bs \<and>
     map (\<lambda>b. fieldval b start L) bs = [fieldval b start L..<2 ^ (L - start)] \<and>
     (\<forall>b'\<in>set bs. length b' = length b \<and> (\<forall>i. i < start \<or> L \<le> i \<longrightarrow> bbit b' i = bbit b i))"
  using assms
proof (induction b start L rule: all_len.induct)
  case (1 b start L)
  obtain ok b' where inc: "increment b start L = Some (ok, b')" using increment_total[OF "1.prems"(1)] by blast
  note I = increment_spec[OF inc]
  show ?case
  proof (cases ok)
    case False
    then have "all_len b start L = [PrefixFrom (AddrFromSlice b) (int L)]"
      using inc by (subst all_len.simps) simp
    moreover have "[fieldval b start L..<2 ^ (L - start)] = [fieldval b start L]"
      using I(4)[OF False] by (metis upt_conv_Cons upt_rec lessI less_irrefl)
    ultimately show ?thesis by (intro exI[of _ "[b]"]) simp
  next
    case True
    obtain bs where bs: "all_len b' start L = map (\<lambda>b. PrefixFrom (AddrFromSlice b) (int L)) bs"
      "map (\<lambda>b. fieldval b start L) bs = [fieldval b' start L..<2 ^ (L - start)]"
      "\<forall>c\<in>set bs. length c = length b' \<and> (\<forall>i. i < start \<or> L \<le> i \<longrightarrow> bbit c i = bbit b' i)"
      using "1.IH"[of "(True, b')" True b'] inc True "1.prems" I(1) by auto
    have "all_len b start L = map (\<lambda>b. PrefixFrom (AddrFromSlice b) (int L)) (b # bs)"
      using inc True bs(1) by (subst all_len.simps) simp
    moreover have "[fieldval b start L..<2 ^ (L - start)] = fieldval b start L # [fieldval b' start L..<2 ^ (L - start)]"
      using I(3)[OF True] fieldval_less[of b start L] by (simp add: upt_conv_Cons)
    ultimately show ?thesis using bs I by (intro exI[of _ "b # bs"]) auto
  qed
qed

lemma length_AsSlice: "8 * length (AsSlice a) = nat (BitLen a)"
  by (cases a) simp_all

lemma length_AsSlice_valid: "a \<noteq> ZeroAddr \<Longrightarrow> length (AsSlice a) = 4 \<or> length (AsSlice a) = 16"
  by (cases a) auto

lemma Masked_bits_iff:
  assumes "wf_prefix p" "prefix_isValid p"
  shows "Masked p = p \<longleftrightarrow> (\<forall>i. Bits p \<le> int i \<longrightarrow> \<not> abit (Addr p) i)"
proof
  assume "Masked p = p"
  then show "\<forall>i. Bits p \<le> int i \<longrightarrow> \<not> abit (Addr p) i" using abit_Masked[OF assms] by (metis not_less)
next
  assume z: "\<forall>i. Bits p \<le> int i \<longrightarrow> \<not> abit (Addr p) i"
  have "abit (Addr (Masked p)) i = abit (Addr p) i" for i
    using z abit_Masked[OF assms, of i] by (metis not_less)
  then have "Addr (Masked p) = Addr p"
    using Masked_valid[OF assms] assms(1) by (intro addr_eqI) (simp_all add: wf_prefix_def)
  then show "Masked p = p" using Masked_valid(1)[OF assms] by simp
qed

lemma all_len_member:
  assumes P: "wf_prefix P" "prefix_isValid P" "Masked P = P"
    and L: "Bits P \<le> int L" "int L \<le> BitLen (Addr P)"
  shows "q \<in> set (all_len (AsSlice (Addr P)) (nat (Bits P)) L) \<longleftrightarrow>
     wf_prefix q \<and> prefix_isValid q \<and> Masked q = q \<and> Bits q = int L \<and> Is4 (Addr P) = Is4 (Addr q) \<and>
     prefix_path P = take (nat (Bits P)) (prefix_path q)"
    (is "_ \<longleftrightarrow> ?spec q")
proof -
  let ?a = "Addr P" and ?s = "nat (Bits P)"
  have a: "?a \<noteq> ZeroAddr" "zone ?a = []" and s: "?s \<le> L" and Ll: "L \<le> 8 * length (AsSlice ?a)"
    using P L by (auto simp: wf_prefix_def prefix_isValid_def length_AsSlice)
  have z: "\<not> bbit (AsSlice ?a) i" if "?s \<le> i" for i
    using that P Masked_bits_iff[OF P(1,2)] by (simp add: bbit_AsSlice nat_le_iff)
  obtain bs where bs: "all_len (AsSlice ?a) ?s L = map (\<lambda>b. PrefixFrom (AddrFromSlice b) (int L)) bs"
    "map (\<lambda>b. fieldval b ?s L) bs = [fieldval (AsSlice ?a) ?s L..<2 ^ (L - ?s)]"
    "\<forall>b'\<in>set bs. length b' = length (AsSlice ?a) \<and> (\<forall>i. i < ?s \<or> L \<le> i \<longrightarrow> bbit b' i = bbit (AsSlice ?a) i)"
    using all_len_fields[OF Ll s] by blast
  have "fieldval (AsSlice ?a) ?s L = fieldval [] ?s L"
    by (rule fieldval_cong) (use z in \<open>simp add: bbit_def\<close>)
  also have "fieldval [] ?s L = 0"
  proof (induction L)
    case (Suc L) then show ?case by (cases "?s \<le> L") (simp_all add: fieldval_Suc bbit_def)
  qed simp
  finally have f0: "set (map (\<lambda>b. fieldval b ?s L) bs) = {0..<2 ^ (L - ?s)}" using bs(2) by simp
  show ?thesis
  proof
    assume "q \<in> set (all_len (AsSlice ?a) ?s L)"
    then obtain b where b: "b \<in> set bs" "q = PrefixFrom (AddrFromSlice b) (int L)" using bs(1) by auto
    have lb: "length b = length (AsSlice ?a)" and out: "\<And>i. i < ?s \<or> L \<le> i \<Longrightarrow> bbit b i = abit ?a i"
      using bs(3) b(1) by (auto simp: bbit_AsSlice)
    note F = AddrFromSlice_family[OF lb a(1)]
    have ab: "abit (AddrFromSlice b) i = bbit b i" for i
      using length_AsSlice_valid[OF a(1)] lb by (simp add: abit_AddrFromSlice)
    have q: "Addr q = AddrFromSlice b" "Bits q = int L" "wf_prefix q" "prefix_isValid q"
      using b(2) F L by (simp_all add: PrefixFrom_def withoutZone_id prefix_isValid_def wf_prefix_def)
    have "Masked q = q" unfolding Masked_bits_iff[OF q(3,4)] using q ab out z s by (auto simp: bbit_AsSlice)
    moreover have "prefix_path P = take ?s (prefix_path q)"
      using q ab out s by (simp add: prefix_path_def take_map min_def)
    ultimately show "?spec q" using q F by simp
  next
    assume sp: "?spec q"
    have qa: "zone (Addr q) = []" using sp by (simp add: wf_prefix_def)
    have lq: "length (AsSlice (Addr q)) = length (AsSlice ?a)"
      using same_family[of P q] P sp by (metis length_AsSlice mult_cancel1 zero_neq_numeral)
    have "fieldval (AsSlice (Addr q)) ?s L \<in> set (map (\<lambda>b. fieldval b ?s L) bs)"
      unfolding f0 using fieldval_less by simp
    then obtain b where b: "b \<in> set bs" "fieldval b ?s L = fieldval (AsSlice (Addr q)) ?s L" by auto
    have "b = AsSlice (Addr q)"
    proof (rule bbit_eqI)
      show "length b = length (AsSlice (Addr q))" using b(1) bs(3) lq by simp
      fix i
      consider "i < ?s" | "?s \<le> i" "i < L" | "L \<le> i" by linarith
      then show "bbit b i = bbit (AsSlice (Addr q)) i"
      proof cases
        case 1
        have "prefix_path P ! i = take ?s (prefix_path q) ! i" using sp by simp
        then have "abit ?a i = abit (Addr q) i" using 1 sp L s by (simp add: prefix_path_def take_map min_def)
        then show ?thesis using 1 b(1) bs(3) by (simp add: bbit_AsSlice)
      next
        case 2
        then show ?thesis using fieldval_inj[OF b(2)] by blast
      next
        case 3
        then have "\<not> abit (Addr q) i" using sp Masked_bits_iff[of q] by simp
        then show ?thesis using 3 s b(1) bs(3) z by (simp add: bbit_AsSlice)
      qed
    qed
    then have "AddrFromSlice b = Addr q" using qa by (simp add: AddrFromSlice_AsSlice)
    moreover have "Bits q = int L" "Addr q \<noteq> ZeroAddr" "int L \<le> BitLen (Addr q)"
      using sp by (auto simp: wf_prefix_def prefix_isValid_def)
    ultimately have "PrefixFrom (AddrFromSlice b) (int L) = q"
      using qa by (simp add: PrefixFrom_def withoutZone_id)
    then show "q \<in> set (all_len (AsSlice ?a) ?s L)" using b(1) unfolding bs(1) by auto
  qed
qed

lemma set_range_All:
  assumes "wf_range r"
  shows "set (range_All r) = {q. wf_prefix q \<and> Masked q = q \<and> range_Contains r q}"
proof (cases "range_IsEmpty r")
  case True
  then show ?thesis by (simp add: range_All_def range_Contains_def)
next
  case False
  note d = wf_rangeD[OF assms False]
  have "q \<in> set (range_All r) \<longleftrightarrow> wf_prefix q \<and> Masked q = q \<and> range_Contains r q" for q
  proof -
    have "q \<in> set (range_All r) \<longleftrightarrow>
        (\<exists>L. Lo r \<le> L \<and> L \<le> Hi r \<and> q \<in> set (all_len (AsSlice (Addr (rprefix r))) (nat (Bits (rprefix r))) (nat L)))"
      using False by (auto simp: range_All_def)
    also have "\<dots> \<longleftrightarrow> (\<exists>L. Lo r \<le> L \<and> L \<le> Hi r \<and> wf_prefix q \<and> prefix_isValid q \<and> Masked q = q \<and> Bits q = L \<and>
        Is4 (Addr (rprefix r)) = Is4 (Addr q) \<and>
        prefix_path (rprefix r) = take (nat (Bits (rprefix r))) (prefix_path q))"
    proof (intro ex_cong1 conj_cong refl)
      fix L assume "Lo r \<le> L" "L \<le> Hi r"
      then show "q \<in> set (all_len (AsSlice (Addr (rprefix r))) (nat (Bits (rprefix r))) (nat L)) \<longleftrightarrow>
          wf_prefix q \<and> prefix_isValid q \<and> Masked q = q \<and> Bits q = L \<and>
          Is4 (Addr (rprefix r)) = Is4 (Addr q) \<and>
          prefix_path (rprefix r) = take (nat (Bits (rprefix r))) (prefix_path q)"
        using d all_len_member[OF d(1-3), of "nat L" q] by simp
    qed
    finally show ?thesis using False by (auto simp: range_Contains_iff[OF assms])
  qed
  then show ?thesis by blast
qed

subsection \<open>Order and size\<close>

definition prefix_before :: "prefix \<Rightarrow> prefix \<Rightarrow> bool" where
  "prefix_before p q \<longleftrightarrow> Bits p < Bits q \<or> (Bits p = Bits q \<and> addr_less (Addr p) (Addr q))"

lemma addr_less_irrefl: "\<not> addr_less a a"
  by (cases a) auto

lemma all_len_sorted:
  assumes "a \<noteq> ZeroAddr" "int L \<le> BitLen a" "start \<le> L" "\<And>i. start \<le> i \<Longrightarrow> \<not> abit a i"
  shows "sorted_wrt prefix_before (all_len (AsSlice a) start L)"
    and "length (all_len (AsSlice a) start L) = 2 ^ (L - start)"
proof -
  have Ll: "L \<le> 8 * length (AsSlice a)" using assms(2) by (simp add: length_AsSlice)
  obtain bs where bs: "all_len (AsSlice a) start L = map (\<lambda>b. PrefixFrom (AddrFromSlice b) (int L)) bs"
    "map (\<lambda>b. fieldval b start L) bs = [fieldval (AsSlice a) start L..<2 ^ (L - start)]"
    "\<forall>b'\<in>set bs. length b' = length (AsSlice a) \<and> (\<forall>i. i < start \<or> L \<le> i \<longrightarrow> bbit b' i = bbit (AsSlice a) i)"
    using all_len_fields[OF Ll assms(3)] by blast
  have "sorted_wrt (\<lambda>b c. fieldval b start L < fieldval c start L) bs"
    using sorted_wrt_upt[of "fieldval (AsSlice a) start L" "2 ^ (L - start)"]
    unfolding bs(2)[symmetric] sorted_wrt_map by simp
  moreover have "prefix_before (PrefixFrom (AddrFromSlice b) (int L)) (PrefixFrom (AddrFromSlice c) (int L))"
    if "b \<in> set bs" "c \<in> set bs" "fieldval b start L < fieldval c start L" for b c
  proof -
    have l: "length b = length (AsSlice a)" "length c = length (AsSlice a)" using that bs(3) by auto
    have "fieldval b 0 (8 * length b) < fieldval c 0 (8 * length b)"
      by (rule fieldval_less_outside[OF _ assms(3) _ that(3)]) (use that bs(3) l Ll in auto)
    then have "addr_less (AddrFromSlice b) (AddrFromSlice c)"
      using addr_less_fieldval length_AsSlice_valid[OF assms(1)] l by metis
    then show ?thesis
      using AddrFromSlice_family[OF l(1) assms(1)] AddrFromSlice_family[OF l(2) assms(1)]
      by (simp add: prefix_before_def PrefixFrom_def withoutZone_id)
  qed
  ultimately have "sorted_wrt (\<lambda>b c. prefix_before (PrefixFrom (AddrFromSlice b) (int L)) (PrefixFrom (AddrFromSlice c) (int L))) bs"
    by (rule sorted_wrt_mono_rel[rotated]) auto
  then show "sorted_wrt prefix_before (all_len (AsSlice a) start L)" unfolding bs(1) sorted_wrt_map .
  have "fieldval (AsSlice a) start L = fieldval [] start L"
    by (rule fieldval_cong) (use assms(4) in \<open>simp add: bbit_AsSlice, simp add: bbit_def\<close>)
  also have "fieldval [] start L = 0"
  proof (induction L)
    case (Suc L) then show ?case by (cases "start \<le> L") (simp_all add: fieldval_Suc bbit_def)
  qed simp
  finally show "length (all_len (AsSlice a) start L) = 2 ^ (L - start)"
    using arg_cong[OF bs(2), of length] bs(1) by simp
qed

lemma range_All_sorted: "wf_range r \<Longrightarrow> sorted_wrt prefix_before (range_All r)"
proof (cases "range_IsEmpty r")
  case False
  assume wf: "wf_range r"
  note d = wf_rangeD[OF wf False]
  let ?f = "\<lambda>L. all_len (AsSlice (Addr (rprefix r))) (nat (Bits (rprefix r))) (nat L)"
  have mem: "Bits q = L" if "q \<in> set (?f L)" "Lo r \<le> L" "L \<le> Hi r" for q L
    using that d all_len_member[OF d(1-3), of "nat L" q] by simp
  have so: "sorted_wrt prefix_before (?f L)" if "Lo r \<le> L" "L \<le> Hi r" for L
    using that d Masked_bits_iff[OF d(1,2)] by (intro all_len_sorted) (auto simp: wf_prefix_def nat_le_iff)
  have "sorted_wrt prefix_before (concat (map ?f [lo..Hi r]))" if "Lo r \<le> lo" for lo
    using that
  proof (induction "nat (Hi r + 1 - lo)" arbitrary: lo)
    case 0
    then show ?case by simp
  next
    case (Suc n)
    then have l: "lo \<le> Hi r" and "n = nat (Hi r + 1 - (lo + 1))" by linarith+
    moreover have "prefix_before p q" if "p \<in> set (?f lo)" "q \<in> set (?f L)" "lo < L" "L \<le> Hi r" for p q L
      using mem[OF that(1)] mem[OF that(2)] that Suc.prems l by (simp add: prefix_before_def)
    ultimately show ?case using so[of lo] Suc.hyps(1)[of "lo + 1"] Suc.prems
      by (auto simp: upto_rec1 sorted_wrt_append)
  qed
  then show ?thesis using False by (simp add: range_All_def)
qed (simp add: range_All_def)

lemma distinct_range_All: "wf_range r \<Longrightarrow> distinct (range_All r)"
  by (rule sorted_wrt_irrefl_distinct[OF range_All_sorted])
     (simp_all add: prefix_before_def addr_less_irrefl)

lemma length_range_All:
  assumes "wf_range r" "\<not> range_IsEmpty r"
  shows "int (length (range_All r)) = (\<Sum>L = Lo r..Hi r. 2 ^ nat (L - Bits (rprefix r)))"
proof -
  note d = wf_rangeD[OF assms]
  have len: "length (all_len (AsSlice (Addr (rprefix r))) (nat (Bits (rprefix r))) (nat L)) = 2 ^ nat (L - Bits (rprefix r))"
    if "Lo r \<le> L" "L \<le> Hi r" for L
    using that d Masked_bits_iff[OF d(1,2)]
    by (subst all_len_sorted(2)) (auto simp: wf_prefix_def nat_le_iff nat_diff_distrib)
  have "int (length (range_All r)) = (\<Sum>L\<leftarrow>[Lo r..Hi r]. 2 ^ nat (L - Bits (rprefix r)))"
    using assms(2) len by (auto simp: range_All_def length_concat int_sum_list o_def intro!: arg_cong[where f = sum_list] map_cong)
  then show ?thesis by (simp add: sum_list_distinct_conv_sum_set)
qed

lemma mat_total_eq:
  "mat_total bits maxP L hi tot =
     (if hi < L then Inr tot
      else if hi - bits \<ge> 31 \<or> tot + (\<Sum>k = L..hi. 2 ^ nat (k - bits)) > maxP then Inl ErrTooManyPrefixes
      else Inr (tot + (\<Sum>k = L..hi. 2 ^ nat (k - bits))))"
proof (induction bits maxP L hi tot rule: mat_total.induct)
  case (1 bits maxP L hi tot)
  let ?S = "\<lambda>L. \<Sum>k = L..hi. (2::int) ^ nat (k - bits)"
  show ?case
  proof (cases "hi < L \<or> L - bits \<ge> 31")
    case True
    then show ?thesis by (subst mat_total.simps) (auto simp: Let_def)
  next
    case False
    then have "{L..hi} = insert L {L + 1..hi}" by auto
    then have split: "?S L = 2 ^ nat (L - bits) + ?S (L + 1)" by simp
    have pos: "0 \<le> ?S (L + 1)" by (rule sum_nonneg) simp
    show ?thesis
    proof (cases "tot + 2 ^ nat (L - bits) > maxP")
      case True
      then show ?thesis using False split pos by (subst mat_total.simps) (simp add: Let_def)
    next
      case no: False
      have IH: "mat_total bits maxP (L + 1) hi (tot + 2 ^ nat (L - bits)) =
        (if hi < L + 1 then Inr (tot + 2 ^ nat (L - bits))
         else if hi - bits \<ge> 31 \<or> tot + 2 ^ nat (L - bits) + ?S (L + 1) > maxP then Inl ErrTooManyPrefixes
         else Inr (tot + 2 ^ nat (L - bits) + ?S (L + 1)))"
        using "1.IH"[OF _ refl _ refl] False no by simp
      show ?thesis
      proof (cases "L = hi")
        case True
        then show ?thesis using False no IH by (subst mat_total.simps) (simp add: Let_def)
      next
        case ne: False
        have "mat_total bits maxP L hi tot = mat_total bits maxP (L + 1) hi (tot + 2 ^ nat (L - bits))"
          using False no by (subst mat_total.simps) (simp add: Let_def)
        then show ?thesis using IH False ne split by (simp add: add.assoc)
      qed
    qed
  qed
qed

end
