(* ===== verification/Space_Example.thy ===== *)
theory Space_Example
  imports Space_Ranges Range_Enum
begin

text \<open>
  The order in which \<^verbatim>\<open>Ranges\<close> lists a space, and the prefix \<^verbatim>\<open>Example\<close> picks
  (\<^verbatim>\<open>types/prefixspace.go\<close>): the shortest of the first family that has any, and among those the
  one with the lowest address.
\<close>

subsection \<open>Addresses by their first different bit\<close>

lemma word_less_first_bit:
  assumes "\<And>j. k < j \<Longrightarrow> bit v j = bit (w :: 'a::len word) j" "\<not> bit v k" "bit w k"
  shows "v < w"
proof (rule ccontr)
  assume "\<not> v < w"
  then have le: "uint w div 2 ^ k \<le> uint v div 2 ^ k" by (simp add: word_less_alt zdiv_mono1)
  have "drop_bit (Suc k) (uint v) = drop_bit (Suc k) (uint w)"
    using assms(1) by (intro bit_eqI) (simp add: bit_drop_bit_eq bit_uint_iff)
  then have "uint v div 2 ^ k div 2 = uint w div 2 ^ k div 2"
    by (simp add: drop_bit_eq_div zdiv_zmult2_eq power_Suc2 del: power_Suc)
  moreover have "even (uint v div 2 ^ k)" "odd (uint w div 2 ^ k)"
    using assms(2,3) bit_imp_le_length[OF assms(3)] bit_iff_odd[of "uint v" k] bit_iff_odd[of "uint w" k]
    by (simp_all add: bit_uint_iff)
  then have "uint v div 2 ^ k = 2 * (uint v div 2 ^ k div 2)" "uint w div 2 ^ k = 2 * (uint w div 2 ^ k div 2) + 1"
    by simp_all
  ultimately show False using le by linarith
qed

lemma addr_less_first_bit:
  assumes "Is4 a = Is4 b" "a \<noteq> ZeroAddr" "b \<noteq> ZeroAddr" "\<And>i. i < k \<Longrightarrow> abit a i = abit b i" "\<not> abit a k" "abit b k"
  shows "addr_less a b"
proof (cases b)
  case (IPv4 w)
  then obtain v where a: "a = IPv4 v" using assms(1,2) by (cases a) auto
  have k: "k < 32" using assms(6) IPv4 by simp
  have "bit v j = bit w j" if "31 - k < j" for j
  proof (cases "j < 32")
    case True
    then show ?thesis using assms(4)[of "31 - j"] a IPv4 that k by auto
  qed (auto dest: bit_imp_le_length)
  then show ?thesis using word_less_first_bit[of "31 - k" v w] assms(5,6) a IPv4 k by simp
next
  case (IPv6 w z)
  then obtain v y where a: "a = IPv6 v y" using assms(1,2) by (cases a) auto
  have k: "k < 128" using assms(6) IPv6 by simp
  have "bit v j = bit w j" if "127 - k < j" for j
  proof (cases "j < 128")
    case True
    then show ?thesis using assms(4)[of "127 - j"] a IPv6 that k by auto
  qed (auto dest: bit_imp_le_length)
  then show ?thesis using word_less_first_bit[of "127 - k" v w] assms(5,6) a IPv6 k by simp
qed (use assms in simp)

lemma addr_less_asym: "addr_less a b \<Longrightarrow> \<not> addr_less b a"
  by (cases a; cases b) auto


subsection \<open>The order of the ranges\<close>

text \<open>
  IPv4 before IPv6, then by address, then by prefix length, then by length window; within one
  prefix the windows do not touch.
\<close>

definition range_before :: "PrefixRange \<Rightarrow> PrefixRange \<Rightarrow> bool" where
  "range_before r s \<longleftrightarrow>
     (let p = rprefix r; q = rprefix s in
      if Is4 (Addr p) \<noteq> Is4 (Addr q) then Is4 (Addr p)
      else if Addr p \<noteq> Addr q then addr_less (Addr p) (Addr q)
      else if Bits p \<noteq> Bits q then Bits p < Bits q
      else Hi r + 1 < Lo s)"

lemma prefixAt_Zero: "length addr = 16 \<Longrightarrow> Addr (prefixAt addr d width) \<noteq> ZeroAddr"
  by (simp add: prefixAt_def PrefixFrom_def AddrFromSlice_def)

lemma prefixAt_less:
  assumes "length a = 16" "length b = 16" "family_width width" "k < width"
    "\<And>i. i < k \<Longrightarrow> bbit a i = bbit b i" "\<not> bbit a k" "bbit b k"
  shows "addr_less (Addr (prefixAt a d width)) (Addr (prefixAt b e width))"
proof (rule addr_less_first_bit)
  show "Is4 (Addr (prefixAt a d width)) = Is4 (Addr (prefixAt b e width))"
    using assms(1,2) by (simp add: prefixAt_def PrefixFrom_def AddrFromSlice_def)
  show "abit (Addr (prefixAt a d width)) i = abit (Addr (prefixAt b e width)) i" if "i < k" for i
    using that assms(4,5) by (simp add: abit_prefixAt[OF assms(1,3)] abit_prefixAt[OF assms(2,3)])
qed (use assms in \<open>simp_all add: prefixAt_Zero abit_prefixAt\<close>)

text \<open>Where the ranges below a node start: an address that extends the node's.\<close>

lemma node_ranges_prefix:
  assumes "canon n d width cov" "family_width width" "clear_from addr d" "r \<in> set (node_ranges n d width addr)"
  shows "\<exists>a e. d \<le> e \<and> e \<le> width \<and> length a = 16 \<and> clear_from a e \<and> (\<forall>i < d. bbit a i = bbit addr i) \<and>
     rprefix r = prefixAt a e width"
  using assms(1,3,4)
proof (induction n arbitrary: d cov addr)
  case (Node m c0 c1)
  have le: "d \<le> width" and c: "canon c0 (Suc d) width (mask_or cov m)" "canon c1 (Suc d) width (mask_or cov m)"
    using Node.prems(1) by auto
  have len: "length addr = 16" using Node.prems(2) by (simp add: clear_from_def)
  note P = prefixAt_props[OF len assms(2) le]
  have own: "rprefix r = prefixAt addr d width" if "r \<in> set (mask_ranges m d width (prefixAt addr d width))"
    using mask_ranges_lens[OF P(1,2) prefixAt_Masked[OF Node.prems(2) assms(2) le] P(5), of d m] P(3) that by auto
  show ?case
  proof (cases "d < width")
    case True
    then have d: "d < 128" using assms(2) by (auto simp: family_width_def)
    consider "r \<in> set (mask_ranges m d width (prefixAt addr d width))" | "r \<in> set (node_ranges c0 (Suc d) width addr)"
      | "r \<in> set (node_ranges c1 (Suc d) width (setAddrBit addr d 1))" using Node.prems(3) by auto
    then show ?thesis
    proof cases
      case 1
      then show ?thesis using own le len Node.prems(2) by auto
    next
      case 2
      from Node.IH(1)[OF c(1) clear_from_Suc[OF Node.prems(2)] this] show ?thesis
        by (meson Suc_leD less_Suc_eq)
    next
      case 3
      from Node.IH(2)[OF c(2) clear_from_set[OF Node.prems(2) d] this] obtain a e where
        e: "Suc d \<le> e" "e \<le> width" "length a = 16" "clear_from a e" "rprefix r = prefixAt a e width"
        and i: "\<forall>i < Suc d. bbit a i = bbit (setAddrBit addr d 1) i" by blast
      have "\<forall>i < d. bbit a i = bbit addr i" using i len d by (simp add: bbit_setAddrBit)
      with e show ?thesis by (meson Suc_leD)
    qed
  next
    case False
    then have "c0 = NilNode" "c1 = NilNode" using c by (cases c0; cases c1; auto)+
    then show ?thesis using own Node.prems le len by auto
  qed
qed simp

lemma prefixAt_before_below:
  assumes "clear_from addr d" "clear_from a e" "family_width width" "d < e" "e \<le> width"
    "\<forall>i < d. bbit a i = bbit addr i" "rprefix r = prefixAt addr d width" "rprefix s = prefixAt a e width"
  shows "range_before r s"
proof -
  have len: "length addr = 16" "length a = 16" using assms(1,2) by (auto simp: clear_from_def)
  have dw: "d \<le> width" using assms(4,5) by simp
  note P = prefixAt_props[OF len(1) assms(3) dw] and Q = prefixAt_props[OF len(2) assms(3,5)]
  show ?thesis
  proof (cases "\<exists>i. bbit a i")
    case True
    show ?thesis
    proof (cases "a = addr")
      case False
      then obtain k where k: "bbit a k \<noteq> bbit addr k" "\<And>i. i < k \<Longrightarrow> bbit a i = bbit addr i"
        using bbit_eqI[of a addr] len exists_least_iff[of "\<lambda>i. bbit a i \<noteq> bbit addr i"] by auto
      have "d \<le> k" using assms(6) k(1) not_less by blast
      then have b: "\<not> bbit addr k" "bbit a k" using k(1) assms(1) by (auto simp: clear_from_def)
      then have "k < width" using assms(2,5) by (meson clear_from_def not_le order_trans)
      then have "addr_less (Addr (prefixAt addr d width)) (Addr (prefixAt a e width))"
        using prefixAt_less[OF len assms(3)] b k(2) by simp
      then show ?thesis using P(4) Q(4) assms(7,8) by (auto simp: range_before_def Let_def addr_less_irrefl)
    qed (use P Q assms in \<open>auto simp: range_before_def Let_def prefixAt_def PrefixFrom_def\<close>)
  next
    case False
    then have "a = addr" using len assms(1,6) by (intro bbit_eqI) (auto simp: clear_from_def not_less[symmetric])
    then show ?thesis using P Q assms by (auto simp: range_before_def Let_def prefixAt_def PrefixFrom_def)
  qed
qed


lemma node_ranges_sorted:
  assumes "canon n d width cov" "family_width width" "clear_from addr d"
  shows "sorted_wrt range_before (node_ranges n d width addr)"
  using assms(1,3)
proof (induction n arbitrary: d cov addr)
  case (Node m c0 c1)
  have le: "d \<le> width" and c: "canon c0 (Suc d) width (mask_or cov m)" "canon c1 (Suc d) width (mask_or cov m)"
    using Node.prems(1) by auto
  have len: "length addr = 16" using Node.prems(2) by (simp add: clear_from_def)
  let ?own = "mask_ranges m d width (prefixAt addr d width)"
  note P = prefixAt_props[OF len assms(2) le]
  have lens: "(\<forall>r \<in> set ?own. rprefix r = prefixAt addr d width) \<and> sorted_wrt (\<lambda>r s. Hi r + 1 < Lo s) ?own"
    using mask_ranges_lens[OF P(1,2) prefixAt_Masked[OF Node.prems(2) assms(2) le] P(5), of d m] P(3) by auto
  then have own: "sorted_wrt range_before ?own"
    using sorted_wrt_mono_rel[of ?own "\<lambda>r s. Hi r + 1 < Lo s" range_before] by (simp add: range_before_def)
  show ?case
  proof (cases "d < width")
    case True
    then have d: "d < 128" using assms(2) by (auto simp: family_width_def)
    let ?k0 = "node_ranges c0 (Suc d) width addr" and ?k1 = "node_ranges c1 (Suc d) width (setAddrBit addr d 1)"
    note cl0 = clear_from_Suc[OF Node.prems(2)] and cl1 = clear_from_set[OF Node.prems(2) d, of 1]
    note n0 = node_ranges_prefix[OF c(1) assms(2) cl0] and n1 = node_ranges_prefix[OF c(2) assms(2) cl1]
    have s1: "bbit (setAddrBit addr d 1) i = bbit addr i" if "i < d" for i
      using that len d by (simp add: bbit_setAddrBit)
    have "range_before r s" if r: "r \<in> set ?own" and s: "s \<in> set ?k0 \<union> set ?k1" for r s
    proof -
      obtain a e where "Suc d \<le> e" "e \<le> width" "clear_from a e" "\<forall>i < d. bbit a i = bbit addr i"
        "rprefix s = prefixAt a e width"
      proof (cases "s \<in> set ?k0")
        case True
        from n0[OF this] show ?thesis by (meson less_SucI that)
      next
        case False
        then have "s \<in> set ?k1" using s by blast
        from n1[OF this] obtain a e where e: "Suc d \<le> e" "e \<le> width" "clear_from a e" "rprefix s = prefixAt a e width"
          and b: "\<forall>i < Suc d. bbit a i = bbit (setAddrBit addr d 1) i" by blast
        have "\<forall>i < d. bbit a i = bbit addr i" using b s1 by simp
        with e show ?thesis by (intro that)
      qed
      then show ?thesis using prefixAt_before_below[OF Node.prems(2) _ assms(2)] lens r by auto
    qed
    moreover have "range_before r s" if r: "r \<in> set ?k0" and s: "s \<in> set ?k1" for r s
    proof -
      obtain a e where a: "e \<le> width" "length a = 16" "\<forall>i < Suc d. bbit a i = bbit addr i" "rprefix r = prefixAt a e width"
        using n0[OF r] by blast
      obtain b f where b: "f \<le> width" "length b = 16" "\<forall>i < Suc d. bbit b i = bbit (setAddrBit addr d 1) i"
        "rprefix s = prefixAt b f width" using n1[OF s] by blast
      have "\<not> bbit a d" "bbit b d" using a(3) b(3) Node.prems(2) len d by (auto simp: clear_from_def bbit_setAddrBit)
      moreover have "bbit a i = bbit b i" if "i < d" for i using a(3) b(3) s1 that by simp
      ultimately have "addr_less (Addr (prefixAt a e width)) (Addr (prefixAt b f width))"
        using prefixAt_less[OF a(2) b(2) assms(2) True] by blast
      then show ?thesis
        using prefixAt_props(4)[OF a(2) assms(2) a(1)] prefixAt_props(4)[OF b(2) assms(2) b(1)] a(4) b(4)
        by (auto simp: range_before_def Let_def addr_less_irrefl)
    qed
    ultimately show ?thesis
      using own Node.IH(1)[OF c(1) cl0] Node.IH(2)[OF c(2) cl1] by (simp add: sorted_wrt_append)
  next
    case False
    then have "c0 = NilNode" "c1 = NilNode" using c by (cases c0; cases c1; auto)+
    then show ?thesis using own by simp
  qed
qed simp

lemma ranges_list_sorted:
  assumes "canon_space s"
  shows "sorted_wrt range_before (ranges_list s)"
proof -
  have f: "family_width 32" "family_width 128" by (simp_all add: family_width_def)
  have c: "canon (v4 s) 0 32 zeroMask" "canon (v6 s) 0 128 zeroMask" using assms by (auto simp: canon_space_def)
  have "range_before r t" if "r \<in> set (node_ranges (v4 s) 0 32 (replicate 16 0))"
    "t \<in> set (node_ranges (v6 s) 0 128 (replicate 16 0))" for r t
  proof -
    have "Is4 (Addr (rprefix r))" "\<not> Is4 (Addr (rprefix t))"
      using node_ranges_prefix[OF c(1) f(1) clear_from_0 that(1)] node_ranges_prefix[OF c(2) f(2) clear_from_0 that(2)]
        prefixAt_props(4)[OF _ f(1)] prefixAt_props(4)[OF _ f(2)] by auto
    then show ?thesis by (simp add: range_before_def)
  qed
  then show ?thesis
    using node_ranges_sorted[OF c(1) f(1) clear_from_0] node_ranges_sorted[OF c(2) f(2) clear_from_0]
    by (simp add: ranges_list_def sorted_wrt_append)
qed


subsection \<open>Example\<close>

text \<open>The lengths some node of a trie holds.\<close>

fun holds :: "spaceNode \<Rightarrow> nat \<Rightarrow> bool" where
  "holds NilNode l = False"
| "holds (Node m c0 c1) l \<longleftrightarrow> mask_has m l \<or> holds c0 l \<or> holds c1 l"

lemma mem_holds: "mem n d q \<Longrightarrow> holds n (d + length q)"
  by (induction n d q rule: mem.induct) (auto split: if_splits)

lemma holds_le: "canon n d width cov \<Longrightarrow> holds n l \<Longrightarrow> l < 192 \<Longrightarrow> d \<le> l \<and> l \<le> width"
  by (induction n arbitrary: d cov) fastforce+

definition least_len :: "(nat \<Rightarrow> bool) \<Rightarrow> int \<Rightarrow> bool" where
  "least_len P b \<longleftrightarrow> (b = -1 \<and> (\<forall>l < 192. \<not> P l)) \<or>
     (0 \<le> b \<and> b < 192 \<and> P (nat b) \<and> (\<forall>k < nat b. \<not> P k))"

lemma least_best_of:
  assumes "least_len P b" "least_len Q c"
  shows "least_len (\<lambda>l. P l \<or> Q l) (best_of b c)"
proof (cases "c \<ge> 0 \<and> (b < 0 \<or> c < b)")
  case True
  have "\<not> P k" if "k < nat c" for k
    using assms(1) True that assms(2) unfolding least_len_def by (cases "b < 0") auto
  then show ?thesis using assms(2) True by (auto simp: least_len_def best_of_def)
next
  case False
  have "\<not> Q k" if "k < nat b" for k
    using assms False that unfolding least_len_def by (cases "c < 0") auto
  then show ?thesis using assms False by (auto simp: least_len_def best_of_def)
qed

lemma shortest_least: "least_len (holds n) (shortest n)"
proof (induction n)
  case (Node m c0 c1)
  have m: "least_len (mask_has m) (mask_lowest m)"
    using mask_lowest_cases[of m] by (auto simp: least_len_def)
  let ?b = "if c0 = NilNode then mask_lowest m else best_of (mask_lowest m) (shortest c0)"
  have b: "least_len (\<lambda>l. mask_has m l \<or> holds c0 l) ?b"
    using m least_best_of[OF m Node.IH(1)] by auto
  then show ?case
    using least_best_of[OF b Node.IH(2)] by (auto simp: Let_def)
qed (simp add: least_len_def)

text \<open>Paths in address order.\<close>

definition path_le :: "bool list \<Rightarrow> bool list \<Rightarrow> bool" where
  "path_le xs ys \<longleftrightarrow> xs = ys \<or> (\<exists>k < length xs. take k xs = take k ys \<and> \<not> xs ! k \<and> ys ! k)"

lemma path_le_zeros:
  assumes "length xs = length ys" "take d xs = take d ys" "\<And>i. d \<le> i \<Longrightarrow> i < length xs \<Longrightarrow> \<not> xs ! i"
  shows "path_le xs ys"
proof (cases "xs = ys")
  case False
  then obtain k where k: "k < length xs" "xs ! k \<noteq> ys ! k" "\<And>i. i < k \<Longrightarrow> \<not> (i < length xs \<and> xs ! i \<noteq> ys ! i)"
    using assms(1) exists_least_iff[of "\<lambda>i. i < length xs \<and> xs ! i \<noteq> ys ! i"] nth_equalityI by blast
  have "d \<le> k" using assms(2) k(2) by (metis not_le nth_take)
  then have "\<not> xs ! k" "ys ! k" using assms(3) k(1,2) by auto
  moreover have "take k xs = take k ys" using k(1,3) assms(1) by (intro nth_take_lemma) auto
  ultimately show ?thesis using k(1) by (auto simp: path_le_def)
qed (simp add: path_le_def)

lemma prefixAt_Addr_eq: "family_width width \<Longrightarrow> Addr (prefixAt addr d width) = Addr (prefixAt addr l width)"
  by (simp add: prefixAt_def PrefixFrom_def)

lemma addr_Prefix_prefixAt:
  assumes "clear_from addr l" "family_width width" "l \<le> width"
  shows "addr_Prefix (Addr (prefixAt addr d width)) (int l) = Some (prefixAt addr l width)"
proof -
  have len: "length addr = 16" using assms(1) by (simp add: clear_from_def)
  note P = prefixAt_props[OF len assms(2,3)]
  have "Masked (prefixAt addr l width) = prefixAt addr l width" by (rule prefixAt_Masked[OF assms])
  then have "addr_Prefix (Addr (prefixAt addr l width)) (int l) = Some (prefixAt addr l width)"
    using P(2,3) by (auto simp: Masked_def split: option.splits)
  then show ?thesis by (subst prefixAt_Addr_eq[OF assms(2), of _ d l])
qed


text \<open>What \<^verbatim>\<open>firstWith\<close> returns for a node: the lowest prefix of length \<open>l\<close>, or nothing.\<close>

definition lowest_at :: "spaceNode \<Rightarrow> nat \<Rightarrow> nat \<Rightarrow> nat \<Rightarrow> u8 list \<Rightarrow> u8 list \<Rightarrow> bool" where
  "lowest_at n d width l addr a \<longleftrightarrow> clear_from a l \<and> (\<forall>i < d. bbit a i = bbit addr i) \<and>
     mem n d (drop d (addr_path a l)) \<and>
     (\<forall>p. below addr d width p \<and> Bits p = int l \<and> mem n d (drop d (prefix_path p)) \<longrightarrow>
        path_le (addr_path a l) (prefix_path p))"

lemma addr_path_nth: "i < l \<Longrightarrow> addr_path a l ! i = bbit a i" and length_addr_path [simp]: "length (addr_path a l) = l"
  by (simp_all add: addr_path_def)

lemma take_addr_path: "d \<le> l \<Longrightarrow> take d (addr_path a l) = addr_path a d"
  by (simp add: addr_path_def take_map)

lemma addr_path_cong: "(\<forall>i < d. bbit a i = bbit b i) \<Longrightarrow> addr_path a d = addr_path b d"
  by (simp add: addr_path_def)

lemma clear_from_mono: "clear_from a d \<Longrightarrow> d \<le> l \<Longrightarrow> clear_from a l"
  by (simp add: clear_from_def)

lemma lowest_at_own:
  assumes "clear_from addr d" "mask_has m l" "d \<le> l"
  shows "lowest_at (Node m c0 c1) d width l addr addr"
proof -
  have "mem (Node m c0 c1) d (drop d (addr_path addr l))"
    using assms(2,3) by (intro mem_mask) simp_all
  moreover have "path_le (addr_path addr l) (prefix_path p)" if "below addr d width p" "Bits p = int l" for p
    using that assms by (intro path_le_zeros[of _ _ d])
      (auto simp: path_simps below_def take_addr_path addr_path_nth clear_from_def)
  ultimately show ?thesis using assms clear_from_mono by (auto simp: lowest_at_def)
qed

lemma lowest_at_kid0:
  assumes "lowest_at c0 (Suc d) width l addr a" "clear_from addr d" "d < 128" "d < l" "\<not> mask_has m l"
  shows "lowest_at (Node m c0 c1) d width l addr a"
proof -
  note a = assms(1)[unfolded lowest_at_def]
  have d: "drop d (addr_path a l) = False # drop (Suc d) (addr_path a l)"
    using assms(2,4) a Cons_nth_drop_Suc[of d "addr_path a l"] by (simp add: addr_path_nth clear_from_def)
  have le: "path_le (addr_path a l) (prefix_path p)"
    if p: "below addr d width p" "Bits p = int l" "mem (Node m c0 c1) d (drop d (prefix_path p))" for p
  proof (cases "prefix_path p ! d")
    case True
    have "take d (addr_path a l) = take d (prefix_path p)"
      using p(1) a assms(4) addr_path_cong[of d a addr] by (simp add: take_addr_path below_def)
    moreover have "\<not> addr_path a l ! d" using assms(2,4) a by (simp add: addr_path_nth clear_from_def)
    ultimately show ?thesis using True assms(4) by (auto simp: path_le_def)
  next
    case False
    then show ?thesis using a p mem_below[OF p(1), of m c0 c1] below_kid(1)[OF assms(2,3), of width p] assms(4,5) by simp
  qed
  show ?thesis using a le d assms(4) by (auto simp: lowest_at_def)
qed

lemma lowest_at_kid1:
  assumes "lowest_at c1 (Suc d) width l (setAddrBit addr d 1) a" "clear_from addr d" "d < 128" "d < l"
    "\<not> mask_has m l" "\<not> holds c0 l"
  shows "lowest_at (Node m c0 c1) d width l addr a"
proof -
  note a = assms(1)[unfolded lowest_at_def]
  have len: "length addr = 16" using assms(2) by (simp add: clear_from_def)
  have s: "bbit (setAddrBit addr d 1) i = (if i = d then True else bbit addr i)" for i
    using len assms(3) by (simp add: bbit_setAddrBit)
  have d: "drop d (addr_path a l) = True # drop (Suc d) (addr_path a l)"
    using assms(4) a s Cons_nth_drop_Suc[of d "addr_path a l"] by (simp add: addr_path_nth)
  have le: "path_le (addr_path a l) (prefix_path p)"
    if p: "below addr d width p" "Bits p = int l" "mem (Node m c0 c1) d (drop d (prefix_path p))" for p
  proof (cases "prefix_path p ! d")
    case True
    then show ?thesis using a p mem_below[OF p(1), of m c0 c1] below_kid(2)[OF assms(2,3), of width p] assms(4,5) by simp
  next
    case False
    then have "mem c0 (Suc d) (drop (Suc d) (prefix_path p))"
      using p mem_below[OF p(1), of m c0 c1] assms(4,5) by simp
    from mem_holds[OF this] have "holds c0 l" using p(2) assms(4) by (simp add: path_simps)
    with assms(6) show ?thesis by simp
  qed
  have "\<forall>i < d. bbit a i = bbit addr i" using a s by simp
  then show ?thesis using a le d assms(4) by (auto simp: lowest_at_def)
qed

lemma firstWith_spec:
  assumes "canon n d width cov" "family_width width" "clear_from addr d" "l < 192"
  shows "snd (firstWith n d width l addr) = addr \<and>
     (if holds n l then \<exists>a. fst (firstWith n d width l addr) = Some (prefixAt a l width) \<and> lowest_at n d width l addr a
      else fst (firstWith n d width l addr) = None)"
  using assms(1,3)
proof (induction n arbitrary: d cov addr)
  case (Node m c0 c1)
  have le: "d \<le> width" and c: "canon c0 (Suc d) width (mask_or cov m)" "canon c1 (Suc d) width (mask_or cov m)"
    using Node.prems(1) by auto
  have d: "d < 128" if "c0 \<noteq> NilNode \<or> c1 \<noteq> NilNode"
    using that c assms(2) by (cases c0; cases c1) (auto simp: family_width_def)
  show ?case
  proof (cases "mask_has m l")
    case True
    then have l: "d \<le> l" "l \<le> width" using Node.prems(1) assms(4) by auto
    show ?thesis
      using True lowest_at_own[OF Node.prems(2) True l(1)] addr_Prefix_prefixAt[OF clear_from_mono[OF Node.prems(2) l(1)] assms(2) l(2)]
      by auto
  next
    case False
    note IH0 = Node.IH(1)[OF c(1) clear_from_Suc[OF Node.prems(2)]]
    note IH1 = Node.IH(2)[OF c(2) clear_from_set[OF Node.prems(2)]]
    note bk = setAddrBit_0[OF Node.prems(2)] setAddrBit_back[OF Node.prems(2)]
    have l0: "d < l" if "holds c0 l \<or> holds c1 l"
      using that holds_le[OF c(1), of l] holds_le[OF c(2), of l] assms(4) by auto
    show ?thesis
    proof (cases "holds c0 l")
      case True
      then have n0: "c0 \<noteq> NilNode" by auto
      obtain a where a: "firstWith c0 (Suc d) width l addr = (Some (prefixAt a l width), addr)"
        "lowest_at c0 (Suc d) width l addr a" using IH0 True by (metis prod.collapse)
      show ?thesis
        using True False n0 d bk a(1) lowest_at_kid0[OF a(2) Node.prems(2) _ _ False] l0 by (simp add: Let_def) blast
    next
      case h0: False
      have a0: "c0 \<noteq> NilNode \<Longrightarrow> firstWith c0 (Suc d) width l addr = (None, addr)"
        using IH0 h0 by (metis prod.collapse)
      show ?thesis
      proof (cases "holds c1 l")
        case True
        then have n1: "c1 \<noteq> NilNode" by auto
        obtain a where a: "firstWith c1 (Suc d) width l (setAddrBit addr d 1) = (Some (prefixAt a l width), setAddrBit addr d 1)"
          "lowest_at c1 (Suc d) width l (setAddrBit addr d 1) a"
          using IH1 d n1 True by (metis prod.collapse)
        show ?thesis
          using h0 True False n1 d bk a(1) a0 lowest_at_kid1[OF a(2) Node.prems(2) _ _ False h0] l0
          by (cases "c0 = NilNode") (simp add: Let_def, blast)+
      next
        case h1: False
        have a1: "c1 \<noteq> NilNode \<Longrightarrow> firstWith c1 (Suc d) width l (setAddrBit addr d 1) = (None, setAddrBit addr d 1)"
          using IH1 d h1 by (metis prod.collapse)
        show ?thesis
          using h0 h1 False d bk a0 a1 by (cases "c0 = NilNode"; cases "c1 = NilNode") (simp_all add: Let_def)
      qed
    qed
  qed
qed simp


lemma path_le_addr:
  assumes p: "wf_prefix p" "prefix_isValid p" "Masked p = p" and q: "wf_prefix q" "prefix_isValid q" "Masked q = q"
    and fam: "Is4 (Addr p) = Is4 (Addr q)" and "Bits p = Bits q" "path_le (prefix_path p) (prefix_path q)"
  shows "\<not> addr_less (Addr q) (Addr p)"
proof (cases "prefix_path p = prefix_path q")
  case True
  then have "p = q" by (rule masked_prefix_eqI[OF p q fam])
  then show ?thesis by (simp add: addr_less_irrefl)
next
  case False
  then obtain k where k: "k < length (prefix_path p)" "take k (prefix_path p) = take k (prefix_path q)"
    "\<not> prefix_path p ! k" "prefix_path q ! k" using assms(9) by (auto simp: path_le_def)
  have n: "k < nat (Bits p)" "k < nat (Bits q)" using k(1) assms(8) by (simp_all add: path_simps)
  have "abit (Addr p) i = abit (Addr q) i" if "i < k" for i
    using arg_cong[OF k(2), of "\<lambda>xs. xs ! i"] that n by (simp add: nth_prefix_path)
  then have "addr_less (Addr p) (Addr q)"
    using k(3,4) n p(1,2) q(1,2) fam
    by (intro addr_less_first_bit[of _ _ k]) (auto simp: nth_prefix_path wf_prefix_def prefix_isValid_def)
  then show ?thesis by (rule addr_less_asym)
qed

text \<open>The order of \<^verbatim>\<open>Example\<close>: shorter first, then the lower address.\<close>

definition not_after :: "prefix \<Rightarrow> prefix \<Rightarrow> bool" where
  "not_after p q \<longleftrightarrow> Bits p < Bits q \<or> (Bits p = Bits q \<and> \<not> addr_less (Addr q) (Addr p))"

lemma node_example:
  assumes "canon n 0 width zeroMask" "family_width width" "n \<noteq> NilNode"
  shows "\<exists>p. fst (firstWith n 0 width (nat (shortest n)) (replicate 16 0)) = Some p \<and>
     wf_prefix p \<and> prefix_isValid p \<and> Masked p = p \<and> (Is4 (Addr p) \<longleftrightarrow> width = 32) \<and> mem n 0 (prefix_path p) \<and>
     (\<forall>q. wf_prefix q \<and> prefix_isValid q \<and> Masked q = q \<and> (Is4 (Addr q) \<longleftrightarrow> width = 32) \<and> mem n 0 (prefix_path q) \<longrightarrow> not_after p q)"
proof -
  let ?l = "nat (shortest n)"
  have w: "width \<le> 128" using assms(2) by (auto simp: family_width_def)
  obtain q0 where "mem n 0 q0" "length q0 \<le> width" using canon_nonempty[OF assms(1,3) w] by auto
  then have "holds n (length q0)" "length q0 < 192" using mem_holds[of n 0 q0] w by auto
  then have short: "0 \<le> shortest n" "?l < 192" "holds n ?l" "\<And>k. k < ?l \<Longrightarrow> \<not> holds n k"
    using shortest_least[of n] unfolding least_len_def by auto
  have le: "?l \<le> width" using holds_le[OF assms(1) short(3,2)] by simp
  obtain a where a: "fst (firstWith n 0 width ?l (replicate 16 0)) = Some (prefixAt a ?l width)"
    "lowest_at n 0 width ?l (replicate 16 0) a"
    using firstWith_spec[OF assms(1,2) clear_from_0 short(2)] short(3) by auto
  let ?p = "prefixAt a ?l width"
  have cl: "clear_from a ?l" and len: "length a = 16" using a(2) by (auto simp: lowest_at_def clear_from_def)
  note P = prefixAt_props[OF len assms(2) le] and M = prefixAt_Masked[OF cl assms(2) le]
  have "not_after ?p q" if q: "wf_prefix q" "prefix_isValid q" "Masked q = q" "Is4 (Addr q) \<longleftrightarrow> width = 32" "mem n 0 (prefix_path q)" for q
  proof (cases "Bits q = int ?l")
    case True
    then have "path_le (prefix_path ?p) (prefix_path q)"
      using a(2) q P(6) unfolding lowest_at_def by (simp add: below_def addr_path_def)
    then show ?thesis
      using path_le_addr[OF P(1,2) M q(1-3)] P(3,4) q(4) True by (simp add: not_after_def)
  next
    case False
    have "holds n (nat (Bits q))" using mem_holds[OF q(5)] by (simp add: path_simps)
    then have "?l \<le> nat (Bits q)" using short(4) not_less by blast
    then show ?thesis using False q(2) P(3) short(1) by (auto simp: not_after_def prefix_isValid_def nat_le_eq_zle)
  qed
  then show ?thesis using a P M by (auto simp: lowest_at_def)
qed

lemma space_Example_least:
  assumes "canon_space s"
  shows "case space_Example s of
       None \<Rightarrow> space_IsEmpty s
     | Some p \<Rightarrow> wf_prefix p \<and> space_Contains s p \<and> (Is4 (Addr p) \<longleftrightarrow> v4 s \<noteq> NilNode) \<and>
         (\<forall>q. wf_prefix q \<and> Masked q = q \<and> Is4 (Addr q) = Is4 (Addr p) \<and> space_Contains s q \<longrightarrow> not_after p q)"
proof -
  have c: "canon (v4 s) 0 32 zeroMask" "canon (v6 s) 0 128 zeroMask" using assms by (auto simp: canon_space_def)
  have f: "family_width 32" "family_width 128" by (simp_all add: family_width_def)
  consider "v4 s \<noteq> NilNode" | "v4 s = NilNode" "v6 s \<noteq> NilNode" | "v4 s = NilNode" "v6 s = NilNode" by blast
  then show ?thesis
  proof cases
    case 1
    from node_example[OF c(1) f(1) 1] show ?thesis using 1
      by (auto simp: space_Example_def Let_def space_Contains_mem fam_node_def)
  next
    case 2
    from node_example[OF c(2) f(2) 2(2)] show ?thesis using 2
      by (auto simp: space_Example_def Let_def space_Contains_mem fam_node_def)
  next
    case 3
    then show ?thesis by (simp add: space_Example_def space_IsEmpty_def)
  qed
qed

end
