(* ===== verification/Prefix_Properties.thy ===== *)
theory Prefix_Properties
  imports Space_Example
begin

text \<open>
  What package \<^verbatim>\<open>types\<close> promises about prefix ranges and prefix spaces, stated over the operations
  a client calls.  Each statement rests on the lemmas of the theory of its component.
\<close>

subsection \<open>Inputs used by the instances below\<close>

definition ten_8_24 :: PrefixRange where
  "ten_8_24 = \<lparr>rprefix = \<lparr>Addr = IPv4 0x0A000000, Bits = 8\<rparr>, rlo = 8, rhi = 24\<rparr>"

definition ten_1_20_32 :: PrefixRange where
  "ten_1_20_32 = \<lparr>rprefix = \<lparr>Addr = IPv4 0x0A010000, Bits = 16\<rparr>, rlo = 20, rhi = 32\<rparr>"

definition ten_1_21 :: prefix where
  "ten_1_21 = \<lparr>Addr = IPv4 0x0A010800, Bits = 21\<rparr>"

lemma inputs_wf: "wf_range ten_8_24" "wf_range ten_1_20_32" "wf_prefix ten_1_21" "prefix_isValid ten_1_21"
  "\<not> range_IsEmpty ten_8_24" "\<not> range_IsEmpty ten_1_20_32"
  "range_Contains ten_8_24 ten_1_21" "range_Contains ten_1_20_32 ten_1_21"
  by code_simp+

lemma inputs_ball: "\<forall>r \<in> set [ten_8_24]. wf_range r" "\<forall>r \<in> set [ten_1_20_32]. wf_range r"
  "\<forall>r \<in> set [ten_8_24, ten_1_20_32]. wf_range r"
  by (simp_all add: inputs_wf)

lemma pointer_eq_eq: "pointer_eq (=)"
  by (simp add: pointer_eq_def)

lemma inputs_built: "built (SpaceOf [ten_8_24])" "built (SpaceOf [ten_1_20_32])"
  by (rule built_SpaceOf, rule inputs_ball)+

subsection \<open>Prefix spaces\<close>

text \<open>(C1) Union, Intersect and Minus are exact: the result holds a prefix just when the operands'
  answers for that prefix say so, for every prefix of either family.\<close>

theorem space_ops_exact:
  assumes "wf_prefix p" "prefix_isValid p"
  shows "(space_Contains (space_Union s t) p \<longleftrightarrow> space_Contains s p \<or> space_Contains t p) \<and>
     (space_Contains (space_Intersect s t) p \<longleftrightarrow> space_Contains s p \<and> space_Contains t p) \<and>
     (space_Contains (space_Minus s t) p \<longleftrightarrow> space_Contains s p \<and> \<not> space_Contains t p)"
  by (intro conjI spaces.has_union[OF assms] spaces.has_inter[OF assms] spaces.has_minus[OF assms])

theorem space_ops_exact_witness:
  "space_Contains (space_Intersect (SpaceOf [ten_8_24]) (SpaceOf [ten_1_20_32])) ten_1_21 \<and>
   \<not> space_Contains (space_Minus (SpaceOf [ten_8_24]) (SpaceOf [ten_1_20_32])) ten_1_21"
  using space_ops_exact[of ten_1_21 "SpaceOf [ten_8_24]" "SpaceOf [ten_1_20_32]"]
  by (simp add: inputs_wf SpaceOf_mem)

text \<open>(C2) SpaceOf holds exactly the prefixes its ranges denote.\<close>

theorem SpaceOf_exact:
  assumes "\<forall>r \<in> set rs. wf_range r" "wf_prefix p"
  shows "space_Contains (SpaceOf rs) p \<longleftrightarrow> (\<exists>r \<in> set rs. range_Contains r p)"
  using assms by (rule SpaceOf_mem)

theorem SpaceOf_exact_witness: "space_Contains (SpaceOf [ten_8_24, ten_1_20_32]) ten_1_21"
  using SpaceOf_exact[OF inputs_ball(3) inputs_wf(3)] inputs_wf by simp

text \<open>(C3) Equal is exact: two spaces a client can build are Equal just when they hold the same prefixes,
  whatever sequence of operations built them.\<close>

theorem Equal_exact:
  assumes "built s" "built t" "pointer_eq same"
  shows "space_Equal same s t \<longleftrightarrow> (\<forall>p. wf_prefix p \<longrightarrow> space_Contains s p = space_Contains t p)"
  using space_ext[OF built_canon[OF assms(1)] built_canon[OF assms(2)]] space_Equal_eq[OF assms(3), of s t] by blast

theorem Equal_exact_witness:
  "space_Equal (=) (SpaceOf [ten_8_24]) (SpaceOf [ten_8_24]) \<longleftrightarrow>
     (\<forall>p. wf_prefix p \<longrightarrow> space_Contains (SpaceOf [ten_8_24]) p = space_Contains (SpaceOf [ten_8_24]) p)"
  by (rule Equal_exact[OF inputs_built(1) inputs_built(1) pointer_eq_eq])

text \<open>(C4) Every space a client can build is canonical: no node holds a length below its depth or one an
  ancestor holds, no two children of a node share a length, and no node is empty.\<close>

theorem built_canonical: "built s \<Longrightarrow> canon_space s"
  by (rule built_canon)

theorem built_canonical_witness: "canon_space (space_Minus (SpaceOf [ten_8_24]) (SpaceOf [ten_1_20_32]))"
  by (rule built_canonical[OF built_Minus[OF inputs_built]])

text \<open>(C5) SubsetOfUnion, with its shared work list and its early exits, decides whether every prefix of
  the space is in one of the others.\<close>

theorem SubsetOfUnion_exact:
  assumes "built s" "pointer_eq same"
  shows "SubsetOfUnion same s ts \<longleftrightarrow>
     (\<forall>p. wf_prefix p \<longrightarrow> space_Contains s p \<longrightarrow> (\<exists>t \<in> set ts. space_Contains t p))"
  by (rule SubsetOfUnion_iff[OF assms(2) built_canon[OF assms(1)]])

theorem SubsetOfUnion_exact_witness: "\<not> SubsetOfUnion (=) (SpaceOf [ten_8_24]) []"
proof -
  have "space_Contains (SpaceOf [ten_8_24]) ten_1_21" by (simp add: SpaceOf_mem inputs_wf)
  then show ?thesis using SubsetOfUnion_exact[OF inputs_built(1) pointer_eq_eq, of "[]"] inputs_wf(3) by auto
qed

text \<open>(C6) Subset decides inclusion, and agrees with Minus being empty.\<close>

theorem Subset_exact:
  assumes "built s" "built t" "pointer_eq same"
  shows "(space_Subset same s t \<longleftrightarrow> (\<forall>p. wf_prefix p \<longrightarrow> space_Contains s p \<longrightarrow> space_Contains t p)) \<and>
     (space_Subset same s t \<longleftrightarrow> space_IsEmpty (space_Minus s t))"
proof -
  have "space_Contains (space_Minus s t) p \<longleftrightarrow> space_Contains s p \<and> \<not> space_Contains t p" if "wf_prefix p" for p
    using that spaces.has_minus[OF that, of s t] by (cases "prefix_isValid p") (simp_all add: space_Contains_mem)
  then show ?thesis
    using space_Subset_iff[OF assms(3) built_canon[OF assms(1)], of t]
      space_IsEmpty_iff[OF built_canon[OF built_Minus[OF assms(1,2)]]] by blast
qed

theorem Subset_exact_witness:
  "space_Subset (=) (SpaceOf [ten_8_24]) (SpaceOf [ten_1_20_32]) \<longleftrightarrow>
     space_IsEmpty (space_Minus (SpaceOf [ten_8_24]) (SpaceOf [ten_1_20_32]))"
  using Subset_exact[OF inputs_built pointer_eq_eq] by blast

text \<open>(C7) Ranges hands its consumer one fixed list in order until the consumer declines; that list is in
  canonical order, its ranges are well formed and pairwise disjoint, and together they hold exactly
  the prefixes of the space.\<close>

theorem Ranges_exact:
  assumes "built s"
  shows "space_Ranges s yield st = snd (feed yield (ranges_list s) st) \<and>
     sorted_wrt range_before (ranges_list s) \<and> sorted_wrt apart (ranges_list s) \<and>
     (\<forall>r \<in> set (ranges_list s). wf_range r) \<and>
     (\<forall>p. wf_prefix p \<longrightarrow> (\<exists>r \<in> set (ranges_list s). range_Contains r p) = space_Contains s p)"
proof -
  note c = built_canon[OF assms]
  show ?thesis
    using space_Ranges_feed[OF c, of yield st] ranges_list_sorted[OF c] ranges_list_apart[OF c]
      ranges_list_Contains(1)[OF c wf_prefix_zeroPrefix] ranges_list_Contains(2)[OF c] by simp
qed

theorem Ranges_exact_witness: "\<exists>r \<in> set (ranges_list (SpaceOf [ten_8_24])). range_Contains r ten_1_21"
proof -
  have "space_Contains (SpaceOf [ten_8_24]) ten_1_21" by (simp add: SpaceOf_mem inputs_wf)
  then show ?thesis
    using Ranges_exact[OF inputs_built(1), of "\<lambda>st r. (st, True)" "()"] inputs_wf(3) by blast
qed

text \<open>SpaceOf of every range Ranges yields is the space again.\<close>

theorem SpaceOf_Ranges: "built s \<Longrightarrow> SpaceOf (space_Ranges s (\<lambda>rs r. (rs @ [r], True)) []) = s"
proof -
  assume "built s"
  then have c: "canon_space s" by (rule built_canon)
  have "feed (\<lambda>rs r. (rs @ [r], True)) xs acc = (True, acc @ xs)" for xs acc :: "PrefixRange list"
    by (induction xs arbitrary: acc) auto
  then show ?thesis by (simp add: space_Ranges_feed[OF c] SpaceOf_ranges_list[OF c])
qed

theorem SpaceOf_Ranges_witness:
  "SpaceOf (space_Ranges (SpaceOf [ten_8_24]) (\<lambda>rs r. (rs @ [r], True)) []) = SpaceOf [ten_8_24]"
  by (rule SpaceOf_Ranges[OF inputs_built(1)])

text \<open>Example returns a prefix of the space, an IPv4 one when there is any, and no prefix of that family
  in the space is shorter, nor as short with a lower address; it returns nothing only for the empty space.\<close>

theorem Example_least:
  assumes "built s"
  shows "case space_Example s of
       None \<Rightarrow> space_IsEmpty s
     | Some p \<Rightarrow> wf_prefix p \<and> space_Contains s p \<and> (Is4 (Addr p) \<longleftrightarrow> v4 s \<noteq> NilNode) \<and>
         (\<forall>q. wf_prefix q \<and> Masked q = q \<and> Is4 (Addr q) = Is4 (Addr p) \<and> space_Contains s q \<longrightarrow> not_after p q)"
  by (rule space_Example_least[OF built_canon[OF assms]])

theorem Example_least_witness: "space_Example (SpaceOf [ten_8_24]) \<noteq> None"
proof
  assume "space_Example (SpaceOf [ten_8_24]) = None"
  with Example_least[OF inputs_built(1)] have "space_IsEmpty (SpaceOf [ten_8_24])" by simp
  then have "\<not> space_Contains (SpaceOf [ten_8_24]) ten_1_21"
    using space_IsEmpty_iff[OF built_canon[OF inputs_built(1)]] inputs_wf(3) by simp
  then show False by (simp add: SpaceOf_mem inputs_wf)
qed

text \<open>The laws of a set algebra hold for the spaces themselves, not only for what they hold: union is
  commutative and associative, intersection distributes over union, removing a union is removing one
  operand after the other, and complement is an involution.\<close>

theorem space_laws:
  assumes "built s" "built t" "built u"
  shows "space_Union s t = space_Union t s \<and>
     space_Union (space_Union s t) u = space_Union s (space_Union t u) \<and>
     space_Intersect s (space_Union t u) = space_Union (space_Intersect s t) (space_Intersect s u) \<and>
     space_Minus s (space_Union t u) = space_Minus (space_Minus s t) u \<and>
     space_Minus (FullSpace AFIAny) (space_Minus (FullSpace AFIAny) s) = s"
proof -
  note c = assms[THEN built_canon]
  show ?thesis
    using spaces.union_commute[OF c(1,2)] spaces.union_assoc[OF c] spaces.inter_union_distrib[OF c]
      spaces.minus_union[OF c] spaces.complement_involutive[OF c(1)] by simp
qed

theorem space_laws_witness:
  "space_Union (SpaceOf [ten_8_24]) (SpaceOf [ten_1_20_32]) = space_Union (SpaceOf [ten_1_20_32]) (SpaceOf [ten_8_24])"
  using space_laws[OF inputs_built inputs_built(1)] by blast

subsection \<open>Prefix ranges\<close>

text \<open>Intersect of two ranges is the range of exactly their common prefixes, and it fails just when
  they have none.\<close>

theorem range_Intersect_exact:
  assumes "wf_range r" "wf_range s" "wf_prefix p"
  shows "((\<exists>t. range_Intersect r s = Some t \<and> range_Contains t p) \<longleftrightarrow> range_Contains r p \<and> range_Contains s p) \<and>
     (\<forall>t. range_Intersect r s = Some t \<longrightarrow> wf_range t \<and> \<not> range_IsEmpty t)"
  using range_Intersect_Contains[OF assms] range_Intersect_Some(4,5)[OF _ assms(1,2)] by blast

theorem range_Intersect_exact_witness: "\<exists>t. range_Intersect ten_8_24 ten_1_20_32 = Some t \<and> range_Contains t ten_1_21"
  using range_Intersect_exact[OF inputs_wf(1-3)] inputs_wf(7,8) by blast

text \<open>(C8) Applying a range operator to a range denotes what RFC 2622 says: the prefixes the operator gives
  for some prefix the range denotes.\<close>

theorem Apply_denotes:
  assumes "wf_range r" "\<not> range_IsEmpty r" "wf_prefix q" "prefix_isValid q"
  shows "(\<exists>t. op_Apply oper r = Some t \<and> range_Contains t q) \<longleftrightarrow>
     (\<exists>p. wf_prefix p \<and> prefix_isValid p \<and> Masked p = p \<and> range_Contains r p \<and> op_denotes oper p q)"
  by (rule op_Apply_denotes[OF assms])

theorem Apply_denotes_witness:
  "(\<exists>t. op_Apply \<lparr>Op = RangePlus, opN = 0, opM = 0\<rparr> ten_8_24 = Some t \<and> range_Contains t ten_1_21) \<longleftrightarrow>
     (\<exists>p. wf_prefix p \<and> prefix_isValid p \<and> Masked p = p \<and> range_Contains ten_8_24 p \<and>
        op_denotes \<lparr>Op = RangePlus, opN = 0, opM = 0\<rparr> p ten_1_21)"
  by (rule Apply_denotes[OF inputs_wf(1,5,3,4)])

text \<open>(C9) All yields every prefix of the range once, shortest first and in address order within a length.\<close>

theorem All_exact:
  assumes "wf_range r" "wf_prefix p" "Masked p = p"
  shows "(p \<in> set (range_All r) \<longleftrightarrow> range_Contains r p) \<and>
     sorted_wrt prefix_before (range_All r) \<and> distinct (range_All r)"
  using set_range_All[OF assms(1)] range_All_sorted distinct_range_All assms by auto

theorem All_exact_witness: "ten_1_21 \<in> set (range_All ten_8_24)"
proof -
  have "Masked ten_1_21 = ten_1_21" by code_simp
  from All_exact[OF inputs_wf(1,3) this] show ?thesis by (simp add: inputs_wf)
qed

text \<open>Materialize returns the prefixes All yields, unless there are more than the cap or the range is
  31 or more bits deep: then, before anything is enumerated, it reports too many.\<close>

theorem Materialize_budget:
  assumes "wf_range r" "\<not> range_IsEmpty r"
  shows "Materialize r maxPrefixes =
     (if Hi r - Bits (rprefix r) \<ge> 31 \<or> int (length (range_All r)) > maxPrefixes
      then Inl ErrTooManyPrefixes else Inr (range_All r))"
  using wf_rangeD(6)[OF assms] assms(2) length_range_All[OF assms]
  by (simp add: Materialize_def mat_total_eq)

theorem Materialize_budget_witness: "Materialize ten_8_24 (-1) = Inl ErrTooManyPrefixes"
  using Materialize_budget[OF inputs_wf(1,5), of "-1"] by simp

end
