(* ===== verification/Rpki.thy ===== *)
theory Rpki
  imports Len_Mask Prefix_Range
begin

text \<open>
  Route origin validation (\<^verbatim>\<open>resolve/rpki/rpki.go\<close>) and the source that suppresses invalid routes
  (\<^verbatim>\<open>resolve/rpki/filter.go\<close>).  The validated payloads are indexed by exact prefix, with a mask of
  the lengths present, and \<^verbatim>\<open>Validate\<close> looks up one ancestor of the route's prefix per such length;
  the lemmas relate it to the definition of RFC 6811, which quantifies over all payloads.
\<close>

subsection \<open>Validated ROA payloads\<close>

record VRP =
  vprefix :: prefix
  maxLength :: u8
  vasn :: asn
  TA :: string

datatype State = NotFound | Valid | Invalid

record grant =
  gmaxLength :: u8
  gasn :: asn

record family =
  byPrefix :: "prefix \<rightharpoonup> grant list"
  lengths :: lenMask

record VRPs =
  vrps_all :: "VRP list"
  vrps4 :: family
  vrps6 :: family

datatype vrp_error = NoPrefix | HostBits | MaxLengthOutside

definition vrp_check :: "VRP \<Rightarrow> vrp_error option" where
  "vrp_check v =
     (if \<not> prefix_isValid (vprefix v) then Some NoPrefix
      else if vprefix v \<noteq> Masked (vprefix v) then Some HostBits
      else if uint (maxLength v) < Bits (vprefix v) \<or> uint (maxLength v) > BitLen (Addr (vprefix v))
      then Some MaxLengthOutside
      else None)"

definition emptyFamily :: family where
  "emptyFamily = \<lparr>byPrefix = Map.empty, lengths = zeroMask\<rparr>"

definition vrps_fam :: "VRPs \<Rightarrow> prefix \<Rightarrow> family" where
  "vrps_fam s p = (if Is4 (Addr p) then vrps4 s else vrps6 s)"

text \<open>A lookup in a Go map gives the empty list for a missing key.\<close>

definition grants_at :: "family \<Rightarrow> prefix \<Rightarrow> grant list" where
  "grants_at f q = (case byPrefix f q of None \<Rightarrow> [] | Some gs \<Rightarrow> gs)"

definition family_add :: "family \<Rightarrow> VRP \<Rightarrow> family" where
  "family_add f v =
     \<lparr>byPrefix = (byPrefix f)(vprefix v \<mapsto> grants_at f (vprefix v) @ [\<lparr>gmaxLength = maxLength v, gasn = vasn v\<rparr>]),
      lengths = mask_set (lengths f) (nat (Bits (vprefix v)))\<rparr>"

fun index_loop :: "nat \<Rightarrow> VRP list \<Rightarrow> VRPs \<Rightarrow> (nat \<times> vrp_error) + VRPs" where
  "index_loop i [] s = Inr s"
| "index_loop i (v # vs) s =
     (case vrp_check v of
        Some e \<Rightarrow> Inl (i, e)
      | None \<Rightarrow>
          index_loop (i + 1) vs
            (if Is4 (Addr (vprefix v)) then s\<lparr>vrps4 := family_add (vrps4 s) v\<rparr>
             else s\<lparr>vrps6 := family_add (vrps6 s) v\<rparr>))"

definition indexVRPs :: "VRP list \<Rightarrow> (nat \<times> vrp_error) + VRPs" where
  "indexVRPs vs = index_loop 0 vs \<lparr>vrps_all = vs, vrps4 = emptyFamily, vrps6 = emptyFamily\<rparr>"

definition NewVRPs :: "VRP list \<Rightarrow> (nat \<times> vrp_error) + VRPs" where
  "NewVRPs vs = indexVRPs ([] @ vs)"

text \<open>The grants of one ancestor: \<open>Inl\<close> when one of them makes the route valid.\<close>

fun validate_grants :: "grant list \<Rightarrow> int \<Rightarrow> asn \<Rightarrow> bool \<Rightarrow> unit + bool" where
  "validate_grants [] bits origin covered = Inr covered"
| "validate_grants (g # gs) bits origin covered =
     (if gasn g \<noteq> 0 \<and> gasn g = origin \<and> bits \<le> uint (gmaxLength g) then Inl ()
      else validate_grants gs bits origin True)"

function validate_loop :: "family \<Rightarrow> prefix \<Rightarrow> asn \<Rightarrow> nat \<Rightarrow> bool \<Rightarrow> State" where
  "validate_loop f p origin l covered =
     (if int l \<le> Bits p then
        if \<not> mask_has (lengths f) l then validate_loop f p origin (l + 1) covered
        else
          let q = (case addr_Prefix (Addr p) (int l) of Some q \<Rightarrow> q | None \<Rightarrow> zeroPrefix) in
          case validate_grants (grants_at f q) (Bits p) origin covered of
            Inl _ \<Rightarrow> Valid
          | Inr covered \<Rightarrow> validate_loop f p origin (l + 1) covered
      else if covered then Invalid else NotFound)"
  by pat_completeness auto
termination
  by (relation "measure (\<lambda>(f, p, origin, l, covered). nat (Bits p + 1 - int l))") auto

declare validate_loop.simps [simp del]

definition Validate :: "VRPs option \<Rightarrow> prefix \<Rightarrow> asn \<Rightarrow> State" where
  "Validate s p origin =
     (case s of
        None \<Rightarrow> NotFound
      | Some s \<Rightarrow> if \<not> prefix_isValid p then NotFound else validate_loop (vrps_fam s p) p origin 0 False)"

definition VRPs_Len :: "VRPs option \<Rightarrow> nat" where
  "VRPs_Len s = (case s of None \<Rightarrow> 0 | Some s \<Rightarrow> length (vrps_all s))"

fun each :: "('st \<Rightarrow> 'a \<Rightarrow> 'st \<times> bool) \<Rightarrow> 'a list \<Rightarrow> 'st \<Rightarrow> 'st" where
  "each yield [] st = st"
| "each yield (x # xs) st = (let (st, ok) = yield st x in if \<not> ok then st else each yield xs st)"

definition VRPs_All :: "VRPs option \<Rightarrow> ('st \<Rightarrow> VRP \<Rightarrow> 'st \<times> bool) \<Rightarrow> 'st \<Rightarrow> 'st" where
  "VRPs_All s yield st = (case s of None \<Rightarrow> st | Some s \<Rightarrow> each yield (vrps_all s) st)"

subsection \<open>RFC 6811\<close>

definition covers :: "VRP \<Rightarrow> prefix \<Rightarrow> bool" where
  "covers v p \<longleftrightarrow> Is4 (Addr (vprefix v)) = Is4 (Addr p) \<and> Bits (vprefix v) \<le> Bits p \<and>
     prefix_path (vprefix v) = take (nat (Bits (vprefix v))) (prefix_path p)"

definition matches :: "VRP \<Rightarrow> prefix \<Rightarrow> asn \<Rightarrow> bool" where
  "matches v p origin \<longleftrightarrow> covers v p \<and> vasn v \<noteq> 0 \<and> vasn v = origin \<and> Bits p \<le> uint (maxLength v)"

definition rfc6811 :: "VRP list \<Rightarrow> prefix \<Rightarrow> asn \<Rightarrow> State" where
  "rfc6811 vs p origin =
     (if \<exists>v \<in> set vs. matches v p origin then Valid
      else if \<exists>v \<in> set vs. covers v p then Invalid else NotFound)"

text \<open>The payloads of one family that sit at the prefix \<open>q\<close>.\<close>

definition grants_of :: "VRP list \<Rightarrow> bool \<Rightarrow> prefix \<Rightarrow> grant list" where
  "grants_of vs four q =
     map (\<lambda>v. \<lparr>gmaxLength = maxLength v, gasn = vasn v\<rparr>)
       (filter (\<lambda>v. Is4 (Addr (vprefix v)) = four \<and> vprefix v = q) vs)"

definition indexes :: "family \<Rightarrow> bool \<Rightarrow> VRP list \<Rightarrow> bool" where
  "indexes f four vs \<longleftrightarrow>
     (\<forall>q. grants_at f q = grants_of vs four q) \<and>
     (\<forall>l \<le> 128. mask_has (lengths f) l \<longleftrightarrow> (\<exists>v \<in> set vs. Is4 (Addr (vprefix v)) = four \<and> nat (Bits (vprefix v)) = l))"

lemma vrp_checkD:
  assumes "vrp_check v = None"
  shows "prefix_isValid (vprefix v)" "Masked (vprefix v) = vprefix v"
    "Bits (vprefix v) \<le> uint (maxLength v)" "uint (maxLength v) \<le> BitLen (Addr (vprefix v))" "wf_prefix (vprefix v)"
proof -
  show "prefix_isValid (vprefix v)" "Bits (vprefix v) \<le> uint (maxLength v)" "uint (maxLength v) \<le> BitLen (Addr (vprefix v))"
    "Masked (vprefix v) = vprefix v" using assms by (auto simp: vrp_check_def split: if_splits)
  then show "wf_prefix (vprefix v)" by (metis wf_prefix_Masked)
qed

lemma indexes_add:
  assumes "indexes f four vs" "vrp_check v = None" "Is4 (Addr (vprefix v)) = four"
  shows "indexes (family_add f v) four (vs @ [v])"
proof -
  note c = vrp_checkD[OF assms(2)]
  have b: "nat (Bits (vprefix v)) \<le> 128" using prefix_bounds[OF c(5,1)] by linarith
  show ?thesis
    using assms(1,3) b
    by (auto simp: indexes_def grants_of_def grants_at_def family_add_def mask_has_set)
qed

lemma indexes_other: "indexes f four vs \<Longrightarrow> Is4 (Addr (vprefix v)) \<noteq> four \<Longrightarrow> indexes f four (vs @ [v])"
  by (auto simp: indexes_def grants_of_def)

lemma indexes_empty: "indexes emptyFamily four []"
  by (simp add: indexes_def grants_of_def grants_at_def emptyFamily_def)

text \<open>Indexing refuses the first payload that breaks a rule, and otherwise indexes them all.\<close>

lemma index_loop_spec:
  assumes "indexes (vrps4 s) True ds" "indexes (vrps6 s) False ds"
  shows "case index_loop i vs s of
       Inr t \<Rightarrow> (\<forall>v \<in> set vs. vrp_check v = None) \<and> vrps_all t = vrps_all s \<and>
         indexes (vrps4 t) True (ds @ vs) \<and> indexes (vrps6 t) False (ds @ vs)
     | Inl (j, e) \<Rightarrow> i \<le> j \<and> j < i + length vs \<and> vrp_check (vs ! (j - i)) = Some e \<and>
         (\<forall>k < j - i. vrp_check (vs ! k) = None)"
  using assms
proof (induction i vs s arbitrary: ds rule: index_loop.induct)
  case (2 i v vs s)
  show ?case
  proof (cases "vrp_check v")
    case None
    let ?t = "if Is4 (Addr (vprefix v)) then s\<lparr>vrps4 := family_add (vrps4 s) v\<rparr> else s\<lparr>vrps6 := family_add (vrps6 s) v\<rparr>"
    have "indexes (vrps4 ?t) True (ds @ [v])" "indexes (vrps6 ?t) False (ds @ [v])"
      using 2(2,3) indexes_add[OF _ None] indexes_other by auto
    from "2.IH"[OF None this]
    have IH: "case index_loop (i + 1) vs ?t of
       Inr t \<Rightarrow> (\<forall>v \<in> set vs. vrp_check v = None) \<and> vrps_all t = vrps_all ?t \<and>
         indexes (vrps4 t) True ((ds @ [v]) @ vs) \<and> indexes (vrps6 t) False ((ds @ [v]) @ vs)
     | Inl (j, e) \<Rightarrow> i + 1 \<le> j \<and> j < i + 1 + length vs \<and> vrp_check (vs ! (j - (i + 1))) = Some e \<and>
         (\<forall>k < j - (i + 1). vrp_check (vs ! k) = None)" .
    have step: "index_loop i (v # vs) s = index_loop (i + 1) vs ?t" by (simp add: None)
    show ?thesis
    proof (cases "index_loop (i + 1) vs ?t")
      case (Inr t)
      then show ?thesis using IH None unfolding step by simp
    next
      case (Inl x)
      obtain j e where "x = (j, e)" by fastforce
      moreover have "vrp_check ((v # vs) ! k) = None" if "i + 1 \<le> j" "\<forall>k < j - (i + 1). vrp_check (vs ! k) = None" "k < j - i" for k
        using that None by (cases k) auto
      ultimately show ?thesis using IH Inl unfolding step by (auto simp: nth_Cons')
    qed
  qed simp
qed simp


subsection \<open>Validate decides RFC 6811\<close>

lemma validate_grants_spec:
  "validate_grants gs bits origin covered =
     (if \<exists>g \<in> set gs. gasn g \<noteq> 0 \<and> gasn g = origin \<and> bits \<le> uint (gmaxLength g) then Inl ()
      else Inr (covered \<or> gs \<noteq> []))"
  by (induction gs arbitrary: covered) auto

lemma ancestor_covers:
  assumes p: "wf_prefix p" "prefix_isValid p" and v: "vrp_check v = None" and l: "int l \<le> Bits p"
    and q: "addr_Prefix (Addr p) (int l) = Some q"
  shows "Is4 (Addr (vprefix v)) = Is4 (Addr p) \<and> vprefix v = q \<longleftrightarrow> covers v p \<and> Bits (vprefix v) = int l"
proof -
  note c = vrp_checkD[OF v]
  obtain m where m: "addr_Prefix (Addr p) (int l) = Some m" "wf_prefix m" "prefix_isValid m" "Masked m = m"
    "Bits m = int l" "Is4 (Addr m) = Is4 (Addr p)" "prefix_path m = take (nat (int l)) (prefix_path p)"
    using addr_Prefix_ancestor[OF p _ l] by auto
  then have "m = q" using q by simp
  show ?thesis
  proof
    assume "Is4 (Addr (vprefix v)) = Is4 (Addr p) \<and> vprefix v = q"
    then show "covers v p \<and> Bits (vprefix v) = int l" using m \<open>m = q\<close> l by (simp add: covers_def)
  next
    assume a: "covers v p \<and> Bits (vprefix v) = int l"
    then have "vprefix v = m"
      using m by (intro masked_prefix_eqI[OF c(5,1,2) m(2-4)]) (auto simp: covers_def)
    then show "Is4 (Addr (vprefix v)) = Is4 (Addr p) \<and> vprefix v = q" using m(6) \<open>m = q\<close> by simp
  qed
qed

definition from_len :: "nat \<Rightarrow> VRP list \<Rightarrow> VRP list" where
  "from_len l vs = filter (\<lambda>v. int l \<le> Bits (vprefix v)) vs"

lemma validate_loop_spec:
  assumes p: "wf_prefix p" "prefix_isValid p" and vs: "\<forall>v \<in> set vs. vrp_check v = None"
    and f: "indexes f (Is4 (Addr p)) vs"
  shows "validate_loop f p origin l covered =
     (if \<exists>v \<in> set (from_len l vs). matches v p origin then Valid
      else if covered \<or> (\<exists>v \<in> set (from_len l vs). covers v p) then Invalid else NotFound)"
proof (induction "nat (Bits p + 1 - int l)" arbitrary: l covered rule: less_induct)
  case less
  let ?at = "filter (\<lambda>v. covers v p \<and> Bits (vprefix v) = int l) vs"
  let ?hit = "\<lambda>v. vasn v \<noteq> 0 \<and> vasn v = origin \<and> Bits p \<le> uint (maxLength v)"
  let ?M = "\<lambda>l. \<exists>v \<in> set (from_len l vs). matches v p origin" and ?C = "\<lambda>l. \<exists>v \<in> set (from_len l vs). covers v p"
  have M: "?M l \<longleftrightarrow> (\<exists>v \<in> set ?at. ?hit v) \<or> ?M (l + 1)"
    by (auto simp: from_len_def matches_def order_le_less)
  have C: "?C l \<longleftrightarrow> ?at \<noteq> [] \<or> ?C (l + 1)"
    by (auto simp: from_len_def order_le_less filter_empty_conv)
  show ?case
  proof (cases "int l \<le> Bits p")
    case False
    then have "\<not> ?C l" by (auto simp: from_len_def covers_def)
    moreover have "validate_loop f p origin l covered = (if covered then Invalid else NotFound)"
      using False by (subst validate_loop.simps) simp
    ultimately show ?thesis by (auto simp: matches_def)
  next
    case True
    have l: "l \<le> 128" using True prefix_bounds[OF p] by linarith
    have IH: "validate_loop f p origin (l + 1) c = (if ?M (l + 1) then Valid else if c \<or> ?C (l + 1) then Invalid else NotFound)" for c
      using less.hyps[of "l + 1"] True by simp
    obtain q where q: "addr_Prefix (Addr p) (int l) = Some q" using addr_Prefix_ancestor[OF p _ True] by auto
    have "filter (\<lambda>v. Is4 (Addr (vprefix v)) = Is4 (Addr p) \<and> vprefix v = q) vs = ?at"
      using ancestor_covers[OF p _ True q] vs by (intro filter_cong) auto
    then have at: "grants_at f q = map (\<lambda>v. \<lparr>gmaxLength = maxLength v, gasn = vasn v\<rparr>) ?at"
      using f by (simp add: indexes_def grants_of_def)
    have has: "?at = []" if no: "\<not> mask_has (lengths f) l"
      using f l no by (auto simp: indexes_def covers_def filter_empty_conv)
    have "validate_loop f p origin l covered =
       (if \<exists>v \<in> set ?at. ?hit v then Valid else validate_loop f p origin (l + 1) (covered \<or> ?at \<noteq> []))"
    proof (cases "mask_has (lengths f) l")
      case False
      then have "?at = []" by (rule has)
      then show ?thesis using True False by (subst validate_loop.simps) simp
    next
      case h: True
      then show ?thesis
        using True q by (subst validate_loop.simps) (auto simp: validate_grants_spec at)
    qed
    then show ?thesis unfolding IH M C by argo
  qed
qed

lemma indexVRPs_ok:
  assumes "indexVRPs vs = Inr s"
  shows "\<forall>v \<in> set vs. vrp_check v = None" "vrps_all s = vs" "indexes (vrps4 s) True vs" "indexes (vrps6 s) False vs"
  using index_loop_spec[of "\<lparr>vrps_all = vs, vrps4 = emptyFamily, vrps6 = emptyFamily\<rparr>" "[]" 0 vs] assms
  by (simp_all add: indexVRPs_def indexes_empty)

lemma Validate_eq:
  assumes "NewVRPs vs = Inr s" "wf_prefix p" "prefix_isValid p"
  shows "Validate (Some s) p origin = rfc6811 vs p origin"
proof -
  have ok: "indexVRPs vs = Inr s" using assms(1) by (simp add: NewVRPs_def)
  note i = indexVRPs_ok[OF ok]
  have ix: "indexes (vrps_fam s p) (Is4 (Addr p)) vs" using i(3,4) by (simp add: vrps_fam_def)
  have "from_len 0 vs = vs" using i(1) vrp_checkD(1) by (auto simp: from_len_def prefix_isValid_def intro!: filter_True)
  then show ?thesis
    using validate_loop_spec[OF assms(2,3) i(1) ix, of origin 0 False] assms(3) by (simp add: Validate_def rfc6811_def)
qed

subsection \<open>The suppressing source\<close>

text \<open>
  \<^verbatim>\<open>keep\<close> with a test that has effects (the \<^verbatim>\<open>OnSuppress\<close> callback): \<open>out\<close> is \<open>None\<close> until an element
  is left out, and \<open>st\<close> is the state of the test.
\<close>

fun keep_loop :: "('st \<Rightarrow> 'a \<Rightarrow> bool \<times> 'st) \<Rightarrow> 'a list \<Rightarrow> nat \<Rightarrow> 'a list \<Rightarrow> 'a list option \<Rightarrow> 'st \<Rightarrow> 'a list option \<times> 'st" where
  "keep_loop ok xs i [] out st = (out, st)"
| "keep_loop ok xs i (x # rest) out st =
     (let (good, st) = ok st x in
      if \<not> good then keep_loop ok xs (i + 1) rest (case out of None \<Rightarrow> Some (take i xs) | Some ys \<Rightarrow> Some ys) st
      else case out of
        Some ys \<Rightarrow> keep_loop ok xs (i + 1) rest (Some (ys @ [x])) st
      | None \<Rightarrow> keep_loop ok xs (i + 1) rest None st)"

definition keep :: "('st \<Rightarrow> 'a \<Rightarrow> bool \<times> 'st) \<Rightarrow> 'a list \<Rightarrow> 'st \<Rightarrow> 'a list \<times> 'st" where
  "keep ok xs st = (let (out, st) = keep_loop ok xs 0 xs None st in
     (case out of None \<Rightarrow> xs | Some ys \<Rightarrow> ys, st))"

text \<open>The state of the callback is the list of its calls; \<open>hook\<close> says whether there is one.\<close>

record RpkiFilter =
  filterVRPs :: "VRPs option"
  hook :: bool

definition suppressed :: "RpkiFilter \<Rightarrow> (prefix \<times> asn) list \<Rightarrow> prefix \<Rightarrow> asn \<Rightarrow> bool \<times> (prefix \<times> asn) list" where
  "suppressed f calls p origin =
     (if Validate (filterVRPs f) p origin \<noteq> Invalid then (False, calls)
      else (True, if hook f then calls @ [(p, origin)] else calls))"

text \<open>Registry objects, as far as the filter looks at them: a route or route6 (or a nil pointer to one), or another class.\<close>

datatype 'o robject = RRoute "(prefix \<times> asn) option" | RRoute6 "(prefix \<times> asn) option" | ROther 'o

fun route :: "'o robject \<Rightarrow> (prefix \<times> asn) option" where
  "route (RRoute (Some r)) = Some r"
| "route (RRoute6 (Some r)) = Some r"
| "route _ = None"

definition Filter_OriginatedRoutes ::
  "RpkiFilter \<Rightarrow> (asn \<Rightarrow> 'e + prefix list) \<Rightarrow> asn \<Rightarrow> (prefix \<times> asn) list \<Rightarrow> ('e + prefix list) \<times> (prefix \<times> asn) list" where
  "Filter_OriginatedRoutes f src as calls =
     (case src as of
        Inl e \<Rightarrow> (Inl e, calls)
      | Inr ps \<Rightarrow>
          let (out, calls) = keep (\<lambda>calls p. let (s, calls) = suppressed f calls p as in (\<not> s, calls)) ps calls in
          (Inr out, calls))"

definition Filter_MembersByRef ::
  "RpkiFilter \<Rightarrow> ('set \<Rightarrow> 'e + 'o robject list) \<Rightarrow> 'set \<Rightarrow> (prefix \<times> asn) list \<Rightarrow> ('e + 'o robject list) \<times> (prefix \<times> asn) list" where
  "Filter_MembersByRef f src st calls =
     (case src st of
        Inl e \<Rightarrow> (Inl e, calls)
      | Inr objs \<Rightarrow>
          let (out, calls) = keep (\<lambda>calls ob. case route ob of
                None \<Rightarrow> (True, calls)
              | Some (p, origin) \<Rightarrow> let (s, calls) = suppressed f calls p origin in (\<not> s, calls)) objs calls in
          (Inr out, calls))"

text \<open>A test whose answer depends on the element alone, with a log of what it refuses.\<close>

lemma keep_loop_filter:
  assumes ok: "\<And>st x. ok st x = (good x, if good x then st else st @ log x)"
    and "xs = pre @ rest" "i = length pre"
    and "case out of None \<Rightarrow> filter good pre = pre | Some ys \<Rightarrow> ys = filter good pre"
  shows "case keep_loop ok xs i rest out st of (out, st') \<Rightarrow>
     (case out of None \<Rightarrow> xs | Some ys \<Rightarrow> ys) = filter good xs \<and>
     st' = st @ concat (map log (filter (\<lambda>x. \<not> good x) rest))"
  using assms(2-)
proof (induction rest arbitrary: pre i out st)
  case (Cons x rest)
  show ?case
  proof (cases "good x")
    case True
    have "case (case out of None \<Rightarrow> None | Some ys \<Rightarrow> Some (ys @ [x])) of
        None \<Rightarrow> filter good (pre @ [x]) = pre @ [x] | Some ys \<Rightarrow> ys = filter good (pre @ [x])"
      using Cons.prems(3) True by (cases out) auto
    from Cons.IH[OF _ _ this, of "i + 1" st] show ?thesis using Cons.prems(1,2) True
      by (cases out) (auto simp: ok Let_def)
  next
    case False
    have "case (case out of None \<Rightarrow> Some (take i xs) | Some ys \<Rightarrow> Some ys) of
        None \<Rightarrow> filter good (pre @ [x]) = pre @ [x] | Some ys \<Rightarrow> ys = filter good (pre @ [x])"
      using Cons.prems False by (cases out) auto
    from Cons.IH[OF _ _ this, of "i + 1" "st @ log x"] show ?thesis using Cons.prems(1,2) False
      by (auto simp: ok Let_def)
  qed
qed (auto split: option.splits)

lemma keep_filter:
  assumes "\<And>st x. ok st x = (good x, if good x then st else st @ log x)"
  shows "keep ok xs st = (filter good xs, st @ concat (map log (filter (\<lambda>x. \<not> good x) xs)))"
  using keep_loop_filter[of ok good log xs "[]" xs 0 None st, OF assms] by (auto simp: keep_def split: prod.splits)

lemma Filter_OriginatedRoutes_eq:
  "Filter_OriginatedRoutes f src as calls =
     (case src as of
        Inl e \<Rightarrow> (Inl e, calls)
      | Inr ps \<Rightarrow>
          let bad = (\<lambda>p. Validate (filterVRPs f) p as = Invalid) in
          (Inr (filter (\<lambda>p. \<not> bad p) ps), calls @ (if hook f then map (\<lambda>p. (p, as)) (filter bad ps) else [])))"
proof (cases "src as")
  case (Inr ps)
  have log: "concat (map (\<lambda>p. if hook f then [(p, as)] else []) xs) = (if hook f then map (\<lambda>p. (p, as)) xs else [])" for xs
    by (induction xs) auto
  show ?thesis
    unfolding Filter_OriginatedRoutes_def Inr
    by (subst keep_filter[where good = "\<lambda>p. Validate (filterVRPs f) p as \<noteq> Invalid" and log = "\<lambda>p. if hook f then [(p, as)] else []"])
       (auto simp: suppressed_def log Let_def)
qed (simp add: Filter_OriginatedRoutes_def)

definition suppresses :: "RpkiFilter \<Rightarrow> 'o robject \<Rightarrow> bool" where
  "suppresses f ob \<longleftrightarrow> (case route ob of None \<Rightarrow> False | Some (p, origin) \<Rightarrow> Validate (filterVRPs f) p origin = Invalid)"

lemma Filter_MembersByRef_eq:
  "Filter_MembersByRef f src st calls =
     (case src st of
        Inl e \<Rightarrow> (Inl e, calls)
      | Inr objs \<Rightarrow>
          (Inr (filter (\<lambda>ob. \<not> suppresses f ob) objs),
           calls @ (if hook f then map (the \<circ> route) (filter (suppresses f) objs) else [])))"
proof (cases "src st")
  case (Inr objs)
  have log: "concat (map (\<lambda>p. if hook f then [the (route p)] else []) xs) = (if hook f then map (the \<circ> route) xs else [])" for xs
    by (induction xs) auto
  show ?thesis
    unfolding Filter_MembersByRef_def Inr
    by (subst keep_filter[where good = "\<lambda>ob. \<not> suppresses f ob" and log = "\<lambda>ob. if hook f then [the (route ob)] else []"],
        simp add: suppressed_def suppresses_def Let_def split: option.splits prod.splits, simp add: log)
qed (simp add: Filter_MembersByRef_def)


subsection \<open>Properties\<close>

definition vrp_ten :: VRP where
  "vrp_ten = \<lparr>vprefix = \<lparr>Addr = IPv4 0x0A000000, Bits = 8\<rparr>, maxLength = 16, vasn = 64500, TA = ''ta''\<rparr>"

definition route_ten24 :: prefix where
  "route_ten24 = \<lparr>Addr = IPv4 0x0A010200, Bits = 24\<rparr>"

text \<open>(C10) Validate gives the RFC 6811 state: Valid when some payload covers the prefix, names the origin, which
  is not AS0, and allows the length; Invalid when payloads cover it and none matches; NotFound
  otherwise.\<close>

theorem Validate_rfc6811:
  assumes "NewVRPs vs = Inr s" "wf_prefix p" "prefix_isValid p"
  shows "Validate (Some s) p origin = rfc6811 vs p origin"
  by (rule Validate_eq[OF assms])

theorem Validate_rfc6811_witness:
  "\<exists>s. NewVRPs [vrp_ten] = Inr s \<and> Validate (Some s) route_ten24 64500 = Invalid"
proof -
  have c: "vrp_check vrp_ten = None" by code_simp
  obtain s where s: "NewVRPs [vrp_ten] = Inr s" by (simp add: NewVRPs_def indexVRPs_def c)
  have w: "wf_prefix route_ten24" "prefix_isValid route_ten24" by code_simp+
  have "rfc6811 [vrp_ten] route_ten24 64500 = Invalid" by code_simp
  then show ?thesis using Validate_rfc6811[OF s w, of 64500] s by simp
qed

text \<open>Building the index fails exactly at the first payload without a valid canonical prefix or with a
  maximum length outside its prefix and family, naming its position and fault; otherwise it
  keeps every payload in order.\<close>

theorem NewVRPs_checks:
  "case NewVRPs vs of
     Inr s \<Rightarrow> (\<forall>v \<in> set vs. vrp_check v = None) \<and> vrps_all s = vs
   | Inl (j, e) \<Rightarrow> j < length vs \<and> vrp_check (vs ! j) = Some e \<and> (\<forall>k < j. vrp_check (vs ! k) = None)"
  using index_loop_spec[of "\<lparr>vrps_all = vs, vrps4 = emptyFamily, vrps6 = emptyFamily\<rparr>" "[]" 0 vs]
  by (auto simp: NewVRPs_def indexVRPs_def indexes_empty split: sum.splits prod.splits)

theorem NewVRPs_checks_witness:
  "case NewVRPs [vrp_ten\<lparr>maxLength := 4\<rparr>] of Inr s \<Rightarrow> False | Inl (j, e) \<Rightarrow> j = 0 \<and> e = MaxLengthOutside"
proof -
  have "vrp_check (vrp_ten\<lparr>maxLength := 4\<rparr>) = Some MaxLengthOutside" by code_simp
  then show ?thesis using NewVRPs_checks[of "[vrp_ten\<lparr>maxLength := 4\<rparr>]"] by (auto split: sum.splits)
qed

text \<open>(C11) The filtering source passes errors on, drops exactly the routes that are Invalid for the AS asked
  about, keeping the order of the rest, and reports each dropped route to the callback, in order.\<close>

theorem Filter_suppresses_invalid:
  "Filter_OriginatedRoutes f src as calls =
     (case src as of
        Inl e \<Rightarrow> (Inl e, calls)
      | Inr ps \<Rightarrow>
          let bad = (\<lambda>p. Validate (filterVRPs f) p as = Invalid) in
          (Inr (filter (\<lambda>p. \<not> bad p) ps), calls @ (if hook f then map (\<lambda>p. (p, as)) (filter bad ps) else [])))"
  by (rule Filter_OriginatedRoutes_eq)

end
