(* ===== verification/Aspa.thy ===== *)
theory Aspa
  imports Rpsl_Prelude "HOL-Library.AList"
begin

text \<open>
  Validated ASPA payloads (\<^verbatim>\<open>resolve/rpki/aspa.go\<close>): the checks of the profile, the merge of a
  customer's payloads into one ascending list of providers, and the listing of the merged set.
  The map from customers to providers is an association list with distinct keys.
\<close>

record ASPA =
  Customer :: asn
  Providers :: "asn list"

definition MaxProviders :: int where
  "MaxProviders = 10000"

type_synonym ASPAs = "(asn \<times> asn list) list"

datatype aspa_error = CustomerAS0 | NoProviders | TooManyProviders | SelfProvider | AS0BesideOthers | NotAscending | TooManyMerged

text \<open>The loop over the providers; \<open>prev\<close> is the provider before, none at the first.\<close>

fun check_providers :: "asn \<Rightarrow> nat \<Rightarrow> asn option \<Rightarrow> asn list \<Rightarrow> aspa_error option" where
  "check_providers customer n prev [] = None"
| "check_providers customer n prev (p # ps) =
     (if p = customer then Some SelfProvider
      else if p = 0 \<and> n > 1 then Some AS0BesideOthers
      else if (case prev of None \<Rightarrow> False | Some q \<Rightarrow> p \<le> q) then Some NotAscending
      else check_providers customer n (Some p) ps)"

definition checkASPA :: "ASPA \<Rightarrow> aspa_error option" where
  "checkASPA a =
     (if Customer a = 0 then Some CustomerAS0
      else if length (Providers a) = 0 then Some NoProviders
      else if int (length (Providers a)) > MaxProviders then Some TooManyProviders
      else check_providers (Customer a) (length (Providers a)) None (Providers a))"

text \<open>\<^verbatim>\<open>union\<close>, by the two indices, which never pass the ends: \<open>length b \<le> j\<close> is \<^verbatim>\<open>j == len(b)\<close>.\<close>

function union_loop :: "asn list \<Rightarrow> asn list \<Rightarrow> nat \<Rightarrow> nat \<Rightarrow> asn list \<Rightarrow> asn list" where
  "union_loop a b i j out =
     (if i < length a \<or> j < length b then
        if length b \<le> j \<or> (i < length a \<and> a ! i < b ! j) then union_loop a b (i + 1) j (out @ [a ! i])
        else if length a \<le> i \<or> b ! j < a ! i then union_loop a b i (j + 1) (out @ [b ! j])
        else union_loop a b (i + 1) (j + 1) (out @ [a ! i])
      else out)"
  by pat_completeness auto
termination
  by (relation "measure (\<lambda>(a, b, i, j, out). (length a - i) + (length b - j))") auto

declare union_loop.simps [simp del]

definition union_asns :: "asn list \<Rightarrow> asn list \<Rightarrow> asn list" where
  "union_asns a b = union_loop a b 0 0 []"

definition aspa_merge :: "ASPAs \<Rightarrow> ASPA \<Rightarrow> aspa_error + ASPAs" where
  "aspa_merge s a =
     (let ps = (if Providers a ! 0 = 0 then [] else Providers a) in
      case map_of s (Customer a) of
        None \<Rightarrow> Inr (AList.update (Customer a) ps s)
      | Some old \<Rightarrow>
          let u = union_asns old ps in
          if int (length u) > MaxProviders then Inl TooManyMerged
          else Inr (AList.update (Customer a) u s))"

fun new_aspas :: "nat \<Rightarrow> ASPA list \<Rightarrow> ASPAs \<Rightarrow> (nat \<times> aspa_error) + ASPAs" where
  "new_aspas i [] s = Inr s"
| "new_aspas i (a # as) s =
     (case checkASPA a of
        Some e \<Rightarrow> Inl (i, e)
      | None \<Rightarrow> (case aspa_merge s a of Inl e \<Rightarrow> Inl (i, e) | Inr s \<Rightarrow> new_aspas (i + 1) as s))"

definition NewASPAs :: "ASPA list \<Rightarrow> (nat \<times> aspa_error) + ASPAs" where
  "NewASPAs as = new_aspas 0 as []"

definition aspas_Providers :: "ASPAs option \<Rightarrow> asn \<Rightarrow> asn list option" where
  "aspas_Providers s customer = (case s of None \<Rightarrow> None | Some s \<Rightarrow> map_of s customer)"

definition aspas_Len :: "ASPAs option \<Rightarrow> nat" where
  "aspas_Len s = (case s of None \<Rightarrow> 0 | Some s \<Rightarrow> length s)"

definition aspas_All :: "ASPAs option \<Rightarrow> ASPA list" where
  "aspas_All s =
     (case s of
        None \<Rightarrow> []
      | Some s \<Rightarrow>
          map (\<lambda>c. let ps = the (map_of s c) in
                \<lparr>Customer = c, Providers = (if length ps = 0 then [0] else ps)\<rparr>)
            (sort (map fst s)))"

subsection \<open>Merging ascending lists\<close>

lemma union_loop_spec:
  assumes "sorted_wrt (<) a" "sorted_wrt (<) b" "i \<le> length a" "j \<le> length b"
    and "sorted_wrt (<) out" "\<forall>x \<in> set out. (\<forall>y \<in> set (drop i a) \<union> set (drop j b). x < y)"
  shows "sorted_wrt (<) (union_loop a b i j out) \<and>
     set (union_loop a b i j out) = set out \<union> set (drop i a) \<union> set (drop j b)"
  using assms
proof (induction a b i j out rule: union_loop.induct)
  case (1 a b i j out)
  note prems = "1.prems"
  have dropA: "drop i a = a ! i # drop (i + 1) a" if "i < length a" using that by (simp add: Cons_nth_drop_Suc)
  have dropB: "drop j b = b ! j # drop (j + 1) b" if "j < length b" using that by (simp add: Cons_nth_drop_Suc)
  have sA: "sorted_wrt (<) (drop i a)" and sB: "sorted_wrt (<) (drop j b)" using prems(1,2) by (simp_all add: sorted_wrt_drop)
  have so: "sorted_wrt (<) (out @ [x])" if "x \<in> set (drop i a) \<union> set (drop j b)" for x
    using prems(5,6) that by (auto simp: sorted_wrt_append)
  consider "\<not> (i < length a \<or> j < length b)"
    | "i < length a \<or> j < length b" "length b \<le> j \<or> (i < length a \<and> a ! i < b ! j)"
    | "i < length a \<or> j < length b" "\<not> (length b \<le> j \<or> (i < length a \<and> a ! i < b ! j))" "length a \<le> i \<or> b ! j < a ! i"
    | "i < length a \<or> j < length b" "\<not> (length b \<le> j \<or> (i < length a \<and> a ! i < b ! j))" "\<not> (length a \<le> i \<or> b ! j < a ! i)" by blast
  then show ?case
  proof cases
    case 1
    then show ?thesis using prems by (subst (1 2) union_loop.simps) simp
  next
    case 2
    then have i: "i < length a" using prems(4) by auto
    have e: "union_loop a b i j out = union_loop a b (i + 1) j (out @ [a ! i])" using 2 by (subst union_loop.simps) simp
    have lt: "\<forall>y \<in> set (drop j b). a ! i < y" using 2 prems(4) sB dropB by (cases "length b \<le> j") auto
    have "\<forall>x \<in> set (out @ [a ! i]). \<forall>y \<in> set (drop (i + 1) a) \<union> set (drop j b). x < y"
      using prems(6) sA lt dropA[OF i] by auto
    with "1.IH"(1)[OF 2 prems(1,2) _ prems(4) so] i dropA[OF i] show ?thesis unfolding e by auto
  next
    case 3
    then have j: "j < length b" using prems(4) by auto
    have e: "union_loop a b i j out = union_loop a b i (j + 1) (out @ [b ! j])" using 3 by (subst union_loop.simps) auto
    have lt: "\<forall>y \<in> set (drop i a). b ! j < y" using 3 prems(3) sA dropA by (cases "length a \<le> i") auto
    have "\<forall>x \<in> set (out @ [b ! j]). \<forall>y \<in> set (drop i a) \<union> set (drop (j + 1) b). x < y"
      using prems(6) sB lt dropB[OF j] by auto
    with "1.IH"(2)[OF 3 prems(1-3) _ so] j dropB[OF j] show ?thesis unfolding e by auto
  next
    case 4
    then have i: "i < length a" and j: "j < length b" and eq: "a ! i = b ! j" using prems(3,4) by auto
    have e: "union_loop a b i j out = union_loop a b (i + 1) (j + 1) (out @ [a ! i])" using 4 by (subst union_loop.simps) auto
    have "\<forall>x \<in> set (out @ [a ! i]). \<forall>y \<in> set (drop (i + 1) a) \<union> set (drop (j + 1) b). x < y"
      using prems(6) sA sB dropA[OF i] dropB[OF j] eq by auto
    with "1.IH"(3)[OF 4 prems(1,2) _ _ so] i j eq dropA[OF i] dropB[OF j] show ?thesis unfolding e by auto
  qed
qed

lemma union_asns_spec:
  "sorted_wrt (<) a \<Longrightarrow> sorted_wrt (<) b \<Longrightarrow> sorted_wrt (<) (union_asns a b) \<and> set (union_asns a b) = set a \<union> set b"
  using union_loop_spec[of a b 0 0 "[]"] by (simp add: union_asns_def)


subsection \<open>The checks of the profile\<close>

lemma check_providers_None:
  "check_providers customer n prev ps = None \<longleftrightarrow>
     customer \<notin> set ps \<and> (n > 1 \<longrightarrow> 0 \<notin> set ps) \<and> sorted_wrt (<) (case prev of None \<Rightarrow> ps | Some q \<Rightarrow> q # ps)"
proof (induction customer n prev ps rule: check_providers.induct)
  case (2 customer n prev p ps)
  then show ?case by (cases prev) (auto simp: not_le intro: less_trans)
qed (auto split: option.splits)

definition good_aspa :: "ASPA \<Rightarrow> bool" where
  "good_aspa a \<longleftrightarrow> Customer a \<noteq> 0 \<and> Providers a \<noteq> [] \<and> int (length (Providers a)) \<le> MaxProviders \<and>
     sorted_wrt (<) (Providers a) \<and> Customer a \<notin> set (Providers a) \<and> (0 \<in> set (Providers a) \<longrightarrow> Providers a = [0])"

lemma checkASPA_None: "checkASPA a = None \<longleftrightarrow> good_aspa a"
proof -
  have "(length ps > 1 \<longrightarrow> 0 \<notin> set ps) \<longleftrightarrow> (0 \<in> set ps \<longrightarrow> ps = [0])" if "ps \<noteq> []" for ps :: "asn list"
    using that by (cases ps rule: list.exhaust; cases "tl ps") auto
  then show ?thesis by (auto simp: checkASPA_def good_aspa_def check_providers_None)
qed

subsection \<open>The merged set\<close>

definition customer_providers :: "ASPA list \<Rightarrow> asn \<Rightarrow> asn set" where
  "customer_providers as c = (\<Union>a \<in> {a \<in> set as. Customer a = c}. set (Providers a)) - {0}"

definition cust_ok :: "ASPA list \<Rightarrow> asn \<Rightarrow> asn list option \<Rightarrow> bool" where
  "cust_ok as c x \<longleftrightarrow> (case x of
     None \<Rightarrow> \<forall>a \<in> set as. Customer a \<noteq> c
   | Some ps \<Rightarrow> (\<exists>a \<in> set as. Customer a = c) \<and> c \<noteq> 0 \<and> sorted_wrt (<) ps \<and> int (length ps) \<le> MaxProviders \<and>
       set ps = customer_providers as c \<and> c \<notin> set ps)"

definition aspas_inv :: "ASPA list \<Rightarrow> ASPAs \<Rightarrow> bool" where
  "aspas_inv as s \<longleftrightarrow> distinct (map fst s) \<and> (\<forall>c. cust_ok as c (map_of s c))"

lemma good_first_zero: "good_aspa a \<Longrightarrow> Providers a ! 0 = 0 \<longleftrightarrow> Providers a = [0]"
  by (cases "Providers a") (auto simp: good_aspa_def)

lemma aspas_inv_merge:
  assumes "aspas_inv as s" "good_aspa a" "aspa_merge s a = Inr t"
  shows "aspas_inv (as @ [a]) t"
proof -
  define ps where "ps = (if Providers a ! 0 = 0 then [] else Providers a)"
  have ps: "sorted_wrt (<) ps" "set ps = set (Providers a) - {0}" "int (length ps) \<le> MaxProviders" "Customer a \<notin> set ps"
  proof -
    have g: "sorted_wrt (<) (Providers a)" "int (length (Providers a)) \<le> MaxProviders" "Customer a \<notin> set (Providers a)"
      "Providers a = [0] \<or> 0 \<notin> set (Providers a)" using assms(2) unfolding good_aspa_def by blast+
    from g(4) show "sorted_wrt (<) ps" "set ps = set (Providers a) - {0}" "int (length ps) \<le> MaxProviders" "Customer a \<notin> set ps"
      using g(1-3) by (auto simp: ps_def good_first_zero[OF assms(2)])
  qed
  define new where "new = (case map_of s (Customer a) of None \<Rightarrow> ps | Some old \<Rightarrow> union_asns old ps)"
  have t: "t = AList.update (Customer a) new s" "int (length new) \<le> MaxProviders"
    using assms(3) ps(3) unfolding aspa_merge_def ps_def[symmetric] new_def
    by (cases "map_of s (Customer a)"; simp add: Let_def split: if_splits)+
  have cp: "customer_providers (as @ [a]) c = (if c = Customer a then customer_providers as c \<union> set ps else customer_providers as c)" for c
    using ps(2) by (auto simp: customer_providers_def)
  have new: "sorted_wrt (<) new" "set new = customer_providers as (Customer a) \<union> set ps" "Customer a \<notin> set new"
  proof -
    have old: "cust_ok as (Customer a) (map_of s (Customer a))" using assms(1) by (simp add: aspas_inv_def)
    have "sorted_wrt (<) new \<and> set new = customer_providers as (Customer a) \<union> set ps \<and> Customer a \<notin> set new"
    proof (cases "map_of s (Customer a)")
      case None
      then have "customer_providers as (Customer a) = {}"
        using old by (auto simp: cust_ok_def customer_providers_def)
      then show ?thesis using None ps by (simp add: new_def)
    next
      case (Some x)
      then show ?thesis using old ps union_asns_spec[OF _ ps(1), of x] by (auto simp: new_def cust_ok_def)
    qed
    then show "sorted_wrt (<) new" "set new = customer_providers as (Customer a) \<union> set ps" "Customer a \<notin> set new" by auto
  qed
  have "cust_ok (as @ [a]) c (map_of t c)" for c
  proof (cases "c = Customer a")
    case True
    then show ?thesis using new t(2) assms(2) cp[of c] by (auto simp: t(1) update_conv cust_ok_def good_aspa_def)
  next
    case False
    have "cust_ok as c (map_of s c)" using assms(1) by (simp add: aspas_inv_def)
    then show ?thesis using False cp[of c] by (cases "map_of s c") (auto simp: t(1) update_conv cust_ok_def)
  qed
  then show ?thesis using assms(1) by (simp add: aspas_inv_def t(1) distinct_update)
qed

lemma new_aspas_inv: "new_aspas i as s = Inr t \<Longrightarrow> aspas_inv ds s \<Longrightarrow> aspas_inv (ds @ as) t"
proof (induction i as s arbitrary: ds rule: new_aspas.induct)
  case (2 i a as s)
  from 2(2) obtain s' where s': "checkASPA a = None" "aspa_merge s a = Inr s'" "new_aspas (i + 1) as s' = Inr t"
    by (auto split: option.splits sum.splits)
  have "aspas_inv (ds @ [a]) s'" using aspas_inv_merge[OF 2(3) _ s'(2)] s'(1) by (simp add: checkASPA_None)
  from "2.IH"[OF s'(1,2,3) this] show ?case by simp
qed simp

lemma NewASPAs_inv: "NewASPAs as = Inr s \<Longrightarrow> aspas_inv as s"
  using new_aspas_inv[of 0 as "[]" s "[]"] by (simp add: NewASPAs_def aspas_inv_def cust_ok_def)

text \<open>Listing gives good payloads with distinct customers, which merge back into the same map.\<close>

lemma new_aspas_distinct:
  assumes "\<forall>a \<in> set as. good_aspa a" "distinct (map Customer as)" "\<forall>a \<in> set as. map_of s (Customer a) = None"
  shows "\<exists>t. new_aspas i as s = Inr t \<and>
     map_of t = (\<lambda>c. case map_of (map (\<lambda>a. (Customer a, if Providers a = [0] then [] else Providers a)) as) c of
                   Some ps \<Rightarrow> Some ps | None \<Rightarrow> map_of s c)"
  using assms
proof (induction as arbitrary: i s)
  case (Cons a as)
  let ?ps = "if Providers a = [0] then [] else Providers a"
  let ?s = "AList.update (Customer a) ?ps s"
  have m: "aspa_merge s a = Inr ?s"
    using Cons.prems good_first_zero[of a] by (simp add: aspa_merge_def)
  have "\<forall>b \<in> set as. map_of ?s (Customer b) = None" using Cons.prems by (auto simp: update_conv) (metis image_eqI)
  from Cons.IH[OF _ _ this, of "i + 1"] Cons.prems obtain t where t: "new_aspas (i + 1) as ?s = Inr t"
    "map_of t = (\<lambda>c. case map_of (map (\<lambda>a. (Customer a, if Providers a = [0] then [] else Providers a)) as) c of
                   Some ps \<Rightarrow> Some ps | None \<Rightarrow> map_of ?s c)" by auto
  have "map_of (map (\<lambda>a. (Customer a, if Providers a = [0] then [] else Providers a)) as) (Customer a) = None"
    using Cons.prems(2) by (auto simp: map_of_eq_None_iff)
  moreover have "checkASPA a = None" using Cons.prems(1) by (simp add: checkASPA_None)
  ultimately show ?case using t m by (auto simp: fun_eq_iff update_conv split: option.splits)
qed simp


lemma aspas_All_good:
  assumes "aspas_inv as s"
  shows "\<forall>a \<in> set (aspas_All (Some s)). good_aspa a" "map Customer (aspas_All (Some s)) = sort (map fst s)"
    "\<And>c. map_of (map (\<lambda>a. (Customer a, if Providers a = [0] then [] else Providers a)) (aspas_All (Some s))) c = map_of s c"
proof -
  have ok: "\<exists>ps. map_of s c = Some ps \<and> c \<noteq> 0 \<and> sorted_wrt (<) ps \<and> int (length ps) \<le> MaxProviders \<and> c \<notin> set ps \<and> 0 \<notin> set ps"
    if "c \<in> fst ` set s" for c
  proof -
    obtain ps where "map_of s c = Some ps" using \<open>c \<in> fst ` set s\<close> by (metis domD dom_map_of_conv_image_fst)
    moreover have "cust_ok as c (map_of s c)" using assms by (simp add: aspas_inv_def)
    ultimately show ?thesis by (auto simp: cust_ok_def customer_providers_def)
  qed
  show "\<forall>a \<in> set (aspas_All (Some s)). good_aspa a"
  proof
    fix a assume "a \<in> set (aspas_All (Some s))"
    then obtain c where c: "c \<in> fst ` set s"
      "a = \<lparr>Customer = c, Providers = (if length (the (map_of s c)) = 0 then [0] else the (map_of s c))\<rparr>"
      by (auto simp: aspas_All_def Let_def)
    obtain ps where ps: "map_of s c = Some ps" "c \<noteq> 0" "sorted_wrt (<) ps" "int (length ps) \<le> MaxProviders" "c \<notin> set ps" "0 \<notin> set ps"
      using ok[OF c(1)] by blast
    show "good_aspa a" using ps c(2) by (cases "ps = []") (simp_all add: good_aspa_def MaxProviders_def)
  qed
  show "map Customer (aspas_All (Some s)) = sort (map fst s)"
    by (simp add: aspas_All_def Let_def o_def)
  fix c
  have nz: "the (map_of s c) \<noteq> [0]" if "c \<in> fst ` set s" for c
    using ok[OF that] by auto
  have "map (\<lambda>a. (Customer a, if Providers a = [0] then [] else Providers a)) (aspas_All (Some s)) =
      map (\<lambda>c. (c, the (map_of s c))) (sort (map fst s))"
    by (simp add: aspas_All_def o_def Let_def, intro conjI impI ballI) (use nz in force)+
  moreover have "map_of (map (\<lambda>c. (c, the (map_of s c))) xs) c = (if c \<in> set xs then map_of s c else None)"
    if "set xs \<subseteq> fst ` set s" for xs
    using that by (induction xs) (auto simp: weak_map_of_SomeI dest!: ok)
  ultimately show "map_of (map (\<lambda>a. (Customer a, if Providers a = [0] then [] else Providers a)) (aspas_All (Some s))) c = map_of s c"
    using map_of_eq_None_iff[of s c] by auto
qed


subsection \<open>Properties\<close>

definition aspa_inputs :: "ASPA list" where
  "aspa_inputs = [\<lparr>Customer = 64500, Providers = [64501, 64503]\<rparr>, \<lparr>Customer = 64500, Providers = [64501, 64502]\<rparr>,
     \<lparr>Customer = 64510, Providers = [0]\<rparr>]"

text \<open>A set of ASPAs that is accepted gives every customer that has one the ascending, duplicate-free
  list of the providers its ASPAs name, without AS0, and gives nothing to any other AS.\<close>

theorem NewASPAs_union:
  assumes "NewASPAs as = Inr s"
  shows "case aspas_Providers (Some s) c of
       None \<Rightarrow> \<forall>a \<in> set as. Customer a \<noteq> c
     | Some ps \<Rightarrow> (\<exists>a \<in> set as. Customer a = c) \<and> sorted_wrt (<) ps \<and> int (length ps) \<le> MaxProviders \<and>
         set ps = (\<Union>a \<in> {a \<in> set as. Customer a = c}. set (Providers a)) - {0} \<and> c \<notin> set ps"
proof -
  have "cust_ok as c (map_of s c)" using NewASPAs_inv[OF assms] by (simp add: aspas_inv_def)
  then show ?thesis by (auto simp: aspas_Providers_def cust_ok_def customer_providers_def split: option.splits)
qed

theorem NewASPAs_union_witness:
  "\<exists>s. NewASPAs aspa_inputs = Inr s \<and> aspas_Providers (Some s) 64500 = Some [64501, 64502, 64503] \<and>
     (case aspas_Providers (Some s) 64500 of None \<Rightarrow> False | Some ps \<Rightarrow> sorted_wrt (<) ps)"
proof -
  have n: "NewASPAs aspa_inputs = Inr [(64500, [64501, 64502, 64503]), (64510, [])]" by code_simp
  show ?thesis using NewASPAs_union[OF n, of 64500] n by (auto simp: aspas_Providers_def)
qed

text \<open>Listing a set of ASPAs and building a set from the listing gives every customer the same
  providers again; the listing is ascending by customer and each of its ASPAs passes the checks.\<close>

theorem aspas_All_roundtrip:
  assumes "NewASPAs as = Inr s"
  shows "(\<exists>t. NewASPAs (aspas_All (Some s)) = Inr t \<and> (\<forall>c. aspas_Providers (Some t) c = aspas_Providers (Some s) c)) \<and>
     sorted (map Customer (aspas_All (Some s))) \<and> (\<forall>a \<in> set (aspas_All (Some s)). checkASPA a = None)"
proof -
  note i = NewASPAs_inv[OF assms]
  note g = aspas_All_good[OF i]
  have "distinct (map Customer (aspas_All (Some s)))" using i by (simp add: g(2) aspas_inv_def)
  from new_aspas_distinct[OF g(1) this, of "[]" 0] obtain t where "NewASPAs (aspas_All (Some s)) = Inr t"
    "map_of t = (\<lambda>c. case map_of s c of Some ps \<Rightarrow> Some ps | None \<Rightarrow> map_of [] c)" using g(3) by (auto simp: NewASPAs_def)
  then show ?thesis using g(1,2) by (auto simp: aspas_Providers_def checkASPA_None split: option.splits)
qed

theorem aspas_All_roundtrip_witness:
  "\<exists>s. NewASPAs aspa_inputs = Inr s \<and> (\<forall>a \<in> set (aspas_All (Some s)). checkASPA a = None)"
proof -
  have n: "NewASPAs aspa_inputs = Inr [(64500, [64501, 64502, 64503]), (64510, [])]" by code_simp
  show ?thesis using aspas_All_roundtrip[OF n] n by blast
qed

end
