(* ===== verification/Go_Text.thy ===== *)
theory Go_Text
  imports Rpsl_Prelude "HOL-Library.Char_ord" "HOL-Library.Code_Target_Nat"
begin

text \<open>
  The functions of Go's \<^verbatim>\<open>strings\<close> and \<^verbatim>\<open>strconv\<close> packages that the repository's parsers and printers
  use.  A Go string is a list of bytes, here a list of characters (8 bits each).  The lemmas are
  the ones round trips need: a printed number has only digits and parses back, and splitting
  undoes joining.
\<close>

subsection \<open>Bytes\<close>

definition isDigit :: "char \<Rightarrow> bool" where
  "isDigit c \<longleftrightarrow> CHR ''0'' \<le> c \<and> c \<le> CHR ''9''"

definition isLower :: "char \<Rightarrow> bool" where
  "isLower c \<longleftrightarrow> CHR ''a'' \<le> c \<and> c \<le> CHR ''z''"

definition isUpper :: "char \<Rightarrow> bool" where
  "isUpper c \<longleftrightarrow> CHR ''A'' \<le> c \<and> c \<le> CHR ''Z''"

definition isLetter :: "char \<Rightarrow> bool" where
  "isLetter c \<longleftrightarrow> isUpper c \<or> isLower c"

definition isAlnum :: "char \<Rightarrow> bool" where
  "isAlnum c \<longleftrightarrow> isLower c \<or> isUpper c \<or> isDigit c"

definition upper :: "char \<Rightarrow> char" where
  "upper c = (if isLower c then char_of (of_char c - 32 :: nat) else c)"

definition lower :: "char \<Rightarrow> char" where
  "lower c = (if isUpper c then char_of (of_char c + 32 :: nat) else c)"

text \<open>\<^verbatim>\<open>strings.ToUpper\<close> and \<^verbatim>\<open>strings.ToLower\<close> on ASCII text, which the names of sets, registries and persons are
  checked to be.  The keys of package \<^verbatim>\<open>auth\<close> are not; their letter case outside ASCII is not modelled.\<close>

definition ToUpper :: "string \<Rightarrow> string" where
  "ToUpper s = map upper s"

definition ToLower :: "string \<Rightarrow> string" where
  "ToLower s = map lower s"

text \<open>\<^verbatim>\<open>strings.ToUpper\<close> on any text: ASCII byte by byte, and other text by the mapping of Unicode's tables, a parameter.\<close>

definition isASCII :: "string \<Rightarrow> bool" where
  "isASCII s \<longleftrightarrow> list_all (\<lambda>c. (of_char c :: nat) < 128) s"

definition ToUpperWith :: "(string \<Rightarrow> string) \<Rightarrow> string \<Rightarrow> string" where
  "ToUpperWith uni s = (if isASCII s then ToUpper s else uni s)"

subsection \<open>Strings\<close>

definition Trim :: "string \<Rightarrow> string \<Rightarrow> string" where
  "Trim s cutset = rev (dropWhile (\<lambda>c. c \<in> set cutset) (rev (dropWhile (\<lambda>c. c \<in> set cutset) s)))"

definition blanks :: string where
  "blanks = [CHR '' '', CHR 0x09]"

definition HasPrefix :: "string \<Rightarrow> string \<Rightarrow> bool" where
  "HasPrefix s p \<longleftrightarrow> take (length p) s = p"

definition TrimPrefix :: "string \<Rightarrow> string \<Rightarrow> string" where
  "TrimPrefix s p = (if HasPrefix s p then drop (length p) s else s)"

definition TrimSuffix :: "string \<Rightarrow> string \<Rightarrow> string" where
  "TrimSuffix s p = (if HasPrefix (rev s) (rev p) then take (length s - length p) s else s)"

text \<open>\<^verbatim>\<open>strings.Cut\<close>: the text before and after the first separator, and whether there is one.\<close>

fun Cut :: "string \<Rightarrow> string \<Rightarrow> string \<times> string \<times> bool" where
  "Cut [] sep = ([], [], sep = [])"
| "Cut (c # s) sep =
     (if HasPrefix (c # s) sep then ([], drop (length sep) (c # s), True)
      else let (a, b, found) = Cut s sep in (c # a, b, found))"

fun Contains :: "string \<Rightarrow> string \<Rightarrow> bool" where
  "Contains [] sub \<longleftrightarrow> sub = []"
| "Contains (c # s) sub \<longleftrightarrow> HasPrefix (c # s) sub \<or> Contains s sub"

text \<open>\<^verbatim>\<open>strings.Split\<close> by a one-byte separator: never empty.\<close>

fun Split :: "string \<Rightarrow> char \<Rightarrow> string list" where
  "Split [] sep = [[]]"
| "Split (c # s) sep =
     (if c = sep then [] # Split s sep
      else case Split s sep of x # xs \<Rightarrow> (c # x) # xs | [] \<Rightarrow> [[c]])"

fun Join :: "string list \<Rightarrow> string \<Rightarrow> string" where
  "Join [] sep = []"
| "Join [x] sep = x"
| "Join (x # xs) sep = x @ sep @ Join xs sep"

subsection \<open>Numbers\<close>

definition digit :: "nat \<Rightarrow> char" where
  "digit d = char_of (48 + d)"

definition digit_val :: "char \<Rightarrow> nat" where
  "digit_val c = of_char c - 48"

fun Itoa :: "nat \<Rightarrow> string" where
  "Itoa n = (if n < 10 then [digit n] else Itoa (n div 10) @ [digit (n mod 10)])"

declare Itoa.simps [simp del]

definition dec_val :: "string \<Rightarrow> nat" where
  "dec_val s = foldl (\<lambda>v c. 10 * v + digit_val c) 0 s"

text \<open>\<^verbatim>\<open>strconv.ParseUint(s, 10, bits)\<close>: digits only, and a value that fits.\<close>

definition ParseUint :: "string \<Rightarrow> nat \<Rightarrow> nat option" where
  "ParseUint s bits =
     (if s \<noteq> [] \<and> list_all isDigit s \<and> dec_val s < 2 ^ bits then Some (dec_val s) else None)"

subsection \<open>Case\<close>

lemma byte_order: "c \<le> d \<longleftrightarrow> (of_char c :: nat) \<le> of_char d"
  by (simp add: less_eq_char_def)

lemmas byte_classes = isDigit_def isLower_def isUpper_def isLetter_def isAlnum_def byte_order

lemma upper_upper [simp]: "upper (upper c) = upper c"
proof (cases "isLower c")
  case True
  then have "(97::nat) \<le> of_char c" "of_char c \<le> (122::nat)" by (simp_all add: byte_classes)
  then have "of_char (upper c) = (of_char c - 32 :: nat)" using True by (simp add: upper_def)
  then have "\<not> isLower (upper c)" using \<open>of_char c \<le> (122::nat)\<close> by (simp add: byte_classes)
  then show ?thesis by (simp add: upper_def)
qed (simp add: upper_def)

lemma ToUpper_idem [simp]: "ToUpper (ToUpper s) = ToUpper s"
  by (simp add: ToUpper_def)

lemma length_ToUpper [simp]: "length (ToUpper s) = length s"
  by (simp add: ToUpper_def)

lemma lower_bytes: "isLower c \<Longrightarrow> (97::nat) \<le> of_char c \<and> of_char c \<le> (122::nat)"
  by (simp add: byte_classes)

lemma of_char_upper:
  assumes "isLower c"
  shows "of_char (upper c) = (of_char c - 32 :: nat)"
proof -
  have "(of_char c - 32 :: nat) < 256" using lower_bytes [OF assms] by linarith
  then show ?thesis using assms by (simp add: upper_def)
qed

lemma isUpper_upper: "isLower c \<Longrightarrow> isUpper (upper c)"
  using lower_bytes [of c] of_char_upper [of c] unfolding isUpper_def byte_order by auto

lemma ToUpper_empty [simp]: "ToUpper s = [] \<longleftrightarrow> s = []"
  by (simp add: ToUpper_def)

lemma isAlnum_upper [simp]: "isAlnum (upper c) = isAlnum c"
proof (cases "isLower c")
  case True
  then show ?thesis using isUpper_upper [OF True] by (simp add: isAlnum_def)
qed (simp add: upper_def)

lemma upper_not_lower [simp]: "\<not> isLower (upper c)"
proof (cases "isLower c")
  case True
  show ?thesis
    using lower_bytes [OF True] of_char_upper [OF True] unfolding isLower_def byte_order by auto
qed (simp add: upper_def)

lemma lower_upper [simp]: "lower (upper c) = lower c"
proof (cases "isLower c")
  case True
  have b: "(97::nat) \<le> of_char c" using lower_bytes [OF True] by simp
  have "lower (upper c) = char_of (of_char (upper c) + 32 :: nat)"
    using isUpper_upper [OF True] by (simp add: lower_def)
  also have "\<dots> = char_of (of_char c :: nat)" using b of_char_upper [OF True] by simp
  also have "\<dots> = c" by simp
  also have "\<dots> = lower c" using True lower_bytes [OF True] by (simp add: lower_def isUpper_def byte_order)
  finally show ?thesis .
qed (simp add: upper_def)

lemma ToLower_ToUpper [simp]: "ToLower (ToUpper s) = ToLower s"
  by (simp add: ToLower_def ToUpper_def)

lemma upper_id [simp]: "\<not> isLower c \<Longrightarrow> upper c = c"
  by (simp add: upper_def)

lemma upper_bytes: "isUpper c \<Longrightarrow> (65::nat) \<le> of_char c \<and> of_char c \<le> (90::nat)"
  by (simp add: byte_classes)

lemma of_char_lower: "isUpper c \<Longrightarrow> of_char (lower c) = (of_char c + 32 :: nat)"
  using upper_bytes [of c] by (simp add: lower_def)

lemma isLower_lower: "isUpper c \<Longrightarrow> isLower (lower c)"
  using upper_bytes [of c] of_char_lower [of c] unfolding isLower_def byte_order by simp

lemma lower_id: "\<not> isUpper c \<Longrightarrow> lower c = c"
  by (simp add: lower_def)

lemma lower_class [simp]:
  "isLetter (lower c) = isLetter c" "isDigit (lower c) = isDigit c" "lower c = CHR ''-'' \<longleftrightarrow> c = CHR ''-''"
  "lower c = CHR ''.'' \<longleftrightarrow> c = CHR ''.''" "lower (lower c) = lower c"
proof -
  have "isLetter (lower c) = isLetter c \<and> isDigit (lower c) = isDigit c \<and> (lower c = CHR ''-'' \<longleftrightarrow> c = CHR ''-'') \<and>
    (lower c = CHR ''.'' \<longleftrightarrow> c = CHR ''.'') \<and> lower (lower c) = lower c"
  proof (cases "isUpper c")
    case True
    have l: "isLower (lower c)" by (rule isLower_lower [OF True])
    have "\<not> isUpper (lower c)" using l by (simp add: isUpper_def isLower_def byte_order)
    moreover have "\<not> isDigit (lower c)" "lower c \<noteq> CHR ''-''" "lower c \<noteq> CHR ''.''"
      using l by (auto simp: isDigit_def isLower_def byte_order)
    moreover have "\<not> isDigit c" "c \<noteq> CHR ''-''" "c \<noteq> CHR ''.''"
      using True by (auto simp: isDigit_def isUpper_def byte_order)
    ultimately show ?thesis using l True by (simp add: isLetter_def lower_id)
  qed (simp add: lower_id)
  then show "isLetter (lower c) = isLetter c" "isDigit (lower c) = isDigit c" "lower c = CHR ''-'' \<longleftrightarrow> c = CHR ''-''"
    "lower c = CHR ''.'' \<longleftrightarrow> c = CHR ''.''" "lower (lower c) = lower c" by blast+
qed

subsection \<open>Printed numbers\<close>

lemma of_char_digit: "d < 10 \<Longrightarrow> of_char (digit d) = (48 + d :: nat)"
  by (simp add: digit_def)

lemma digit_val_digit [simp]: "d < 10 \<Longrightarrow> digit_val (digit d) = d"
  by (simp add: digit_val_def of_char_digit)

lemma isDigit_digit [simp]: "d < 10 \<Longrightarrow> isDigit (digit d)"
  unfolding isDigit_def byte_order by (simp add: of_char_digit)

lemma Itoa_digits: "list_all isDigit (Itoa n)"
proof (induction n rule: Itoa.induct)
  case (1 n)
  then show ?case by (subst Itoa.simps) simp
qed

lemma Itoa_nonempty [simp]: "Itoa n \<noteq> []"
  by (subst Itoa.simps) simp

lemma dec_val_append: "dec_val (s @ [c]) = 10 * dec_val s + digit_val c"
  by (simp add: dec_val_def)

lemma dec_val_Itoa [simp]: "dec_val (Itoa n) = n"
proof (induction n rule: Itoa.induct)
  case (1 n)
  show ?case
  proof (cases "n < 10")
    case True
    then show ?thesis by (subst Itoa.simps) (simp add: dec_val_def)
  next
    case False
    then show ?thesis using 1 by (subst Itoa.simps) (simp add: dec_val_append)
  qed
qed

lemma ParseUint_Itoa [simp]: "n < 2 ^ bits \<Longrightarrow> ParseUint (Itoa n) bits = Some n"
  by (simp add: ParseUint_def Itoa_digits)

lemma ParseUint_bound: "ParseUint s bits = Some n \<Longrightarrow> n < 2 ^ bits"
  by (simp add: ParseUint_def split: if_splits)

lemma Itoa_inj: "Itoa m = Itoa n \<Longrightarrow> m = n"
  by (metis dec_val_Itoa)

lemma digit_not:
  "isDigit c \<Longrightarrow> c \<noteq> CHR ''.''" "isDigit c \<Longrightarrow> c \<noteq> CHR '':''" "isDigit c \<Longrightarrow> c \<noteq> CHR ''-''"
  "isDigit c \<Longrightarrow> c \<noteq> CHR '' ''" "isDigit c \<Longrightarrow> c \<noteq> CHR 0x09" "isDigit c \<Longrightarrow> c \<noteq> CHR ''+''"
  "isDigit c \<Longrightarrow> c \<noteq> CHR ''/''" "isDigit c \<Longrightarrow> c \<noteq> CHR ''^''"
  by (auto simp: isDigit_def byte_order)

lemma digit_not_letter: "isDigit c \<Longrightarrow> \<not> isLower c" "isDigit c \<Longrightarrow> \<not> isUpper c"
  by (auto simp: isDigit_def isLower_def isUpper_def byte_order)

subsection \<open>Cutting, splitting, joining and trimming\<close>

lemma Split_nonempty [simp]: "Split s sep \<noteq> []"
  by (induction s) (auto split: list.splits)

lemma Join_Split: "Join (Split s sep) [sep] = s"
proof (induction s)
  case (Cons c s)
  obtain x xs where x: "Split s sep = x # xs" by (cases "Split s sep") auto
  then show ?case using Cons by (cases xs) auto
qed simp

lemma Split_word: "sep \<notin> set x \<Longrightarrow> Split x sep = [x]"
  by (induction x) auto

lemma Split_append: "sep \<notin> set x \<Longrightarrow> Split (x @ sep # s) sep = x # Split s sep"
  by (induction x) auto

lemma Split_Join:
  "xs \<noteq> [] \<Longrightarrow> list_all (\<lambda>x. sep \<notin> set x) xs \<Longrightarrow> Split (Join xs [sep]) sep = xs"
  by (induction xs "[sep]" rule: Join.induct) (auto simp: Split_word Split_append)

lemma Split_parts: "x \<in> set (Split s sep) \<Longrightarrow> sep \<notin> set x"
proof (induction s arbitrary: x)
  case (Cons c s)
  obtain y ys where y: "Split s sep = y # ys" by (cases "Split s sep") auto
  then show ?case using Cons by (auto split: if_splits)
qed simp

lemma Cut_none: "list_all (\<lambda>c. c \<noteq> d) s \<Longrightarrow> Cut s (d # sep) = (s, [], False)"
  by (induction s) (auto simp: HasPrefix_def)

lemma Cut_word: "list_all (\<lambda>c. c \<noteq> d) a \<Longrightarrow> Cut (a @ (d # sep) @ b) (d # sep) = (a, b, True)"
proof (induction a)
  case Nil
  show ?case by (simp add: HasPrefix_def)
next
  case (Cons c a)
  then show ?case by (simp add: HasPrefix_def)
qed

lemma Cut_found: "Cut s sep = (a, b, True) \<Longrightarrow> s = a @ sep @ b"
proof (induction s arbitrary: a b)
  case (Cons c s)
  show ?case
  proof (cases "HasPrefix (c # s) sep")
    case True
    then show ?thesis using Cons.prems
      by (auto simp: HasPrefix_def) (metis append_take_drop_id)
  next
    case False
    then show ?thesis using Cons by (auto split: prod.splits)
  qed
qed simp

lemma dropWhile_none: "s = [] \<or> \<not> P (hd s) \<Longrightarrow> dropWhile P s = s"
  by (cases s) auto

lemma Trim_id:
  "s = [] \<or> (hd s \<notin> set cs \<and> List.last s \<notin> set cs) \<Longrightarrow> Trim s cs = s"
  by (cases "s = []") (auto simp: Trim_def dropWhile_none hd_rev)

lemma Trim_ends:
  "Trim s cs = [] \<or> (hd (Trim s cs) \<notin> set cs \<and> List.last (Trim s cs) \<notin> set cs)"
proof -
  define t where "t = dropWhile (\<lambda>c. c \<in> set cs) s"
  define u where "u = dropWhile (\<lambda>c. c \<in> set cs) (rev t)"
  have r: "Trim s cs = rev u" by (simp add: Trim_def t_def u_def)
  show ?thesis
  proof (cases "u = []")
    case False
    have hu: "hd u \<notin> set cs" using False hd_dropWhile [of "\<lambda>c. c \<in> set cs" "rev t"] unfolding u_def by simp
    obtain w where w: "rev t = w @ u" using takeWhile_dropWhile_id unfolding u_def by metis
    then have t: "t = rev u @ rev w" by (metis rev_append rev_rev_ident)
    then have "t \<noteq> []" using False by simp
    then have "hd t \<notin> set cs" using hd_dropWhile [of "\<lambda>c. c \<in> set cs" s] unfolding t_def by simp
    then have "List.last u \<notin> set cs" using t False by (simp add: hd_append hd_rev)
    then show ?thesis using hu False r by (simp add: hd_rev last_rev)
  qed (simp add: r)
qed

lemma Trim_Trim [simp]: "Trim (Trim s cs) cs = Trim s cs"
  by (rule Trim_id) (rule Trim_ends)

lemma Trim_outside: "list_all (\<lambda>c. c \<notin> set cs) s \<Longrightarrow> Trim s cs = s"
  by (cases "s = []") (auto simp: list_all_iff intro!: Trim_id)

end
