(* ===== verification/Names.thy ===== *)
theory Names
  imports Go_Text
begin

text \<open>
  The names of RPSL (\<^verbatim>\<open>src/types/asn.go\<close>, \<^verbatim>\<open>setname.go\<close>, \<^verbatim>\<open>setref.go\<close>, \<^verbatim>\<open>nichandle.go\<close> and their
  text forms in \<^verbatim>\<open>text.go\<close>): AS numbers, hierarchical set names, registry-scoped references,
  source names and NIC handles.  Every parser returns \<^term>\<open>None\<close> where the code returns an error.
\<close>

subsection \<open>AS numbers\<close>

definition ParseASN :: "string \<Rightarrow> asn option" where
  "ParseASN s =
     (let t = Trim s blanks in
      if length t < 3 \<or> ToLower (take 2 t) \<noteq> ''as'' then None
      else let num = drop 2 t; (hi, lo, dotted) = Cut num ''.'' in
        if dotted
        then (case ParseUint hi 16 of
                None \<Rightarrow> None
              | Some h \<Rightarrow> (case ParseUint lo 16 of
                   None \<Rightarrow> None
                 | Some l \<Rightarrow> Some (or (push_bit 16 (of_nat h)) (of_nat l))))
        else map_option of_nat (ParseUint num 32))"

definition asn_String :: "asn \<Rightarrow> string" where
  "asn_String a = ''AS'' @ Itoa (unat a)"

subsection \<open>Set names\<close>

datatype SetClass = ClassUnknown | ClassAsSet | ClassRouteSet | ClassRtrSet | ClassFilterSet | ClassPeeringSet

fun class_String :: "SetClass \<Rightarrow> string" where
  "class_String ClassAsSet = ''as-set''"
| "class_String ClassRouteSet = ''route-set''"
| "class_String ClassRtrSet = ''rtr-set''"
| "class_String ClassFilterSet = ''filter-set''"
| "class_String ClassPeeringSet = ''peering-set''"
| "class_String ClassUnknown = ''unknown''"

record SetName =
  set_canon :: string
  set_class :: SetClass

definition zeroSetName :: SetName where
  "zeroSetName = \<lparr>set_canon = [], set_class = ClassUnknown\<rparr>"

definition componentClass :: "string \<Rightarrow> SetClass \<times> bool" where
  "componentClass c =
     (let lc = ToLower c in
      if HasPrefix lc ''as-'' then (ClassAsSet, True)
      else if HasPrefix lc ''rs-'' then (ClassRouteSet, True)
      else if HasPrefix lc ''rtrs-'' then (ClassRtrSet, True)
      else if HasPrefix lc ''fltr-'' then (ClassFilterSet, True)
      else if HasPrefix lc ''prng-'' then (ClassPeeringSet, True)
      else (ClassUnknown, False))"

definition validSetComponent :: "string \<Rightarrow> bool" where
  "validSetComponent c \<longleftrightarrow>
     list_all (\<lambda>b. isAlnum b \<or> b = CHR ''_'' \<or> b = CHR ''-'') c \<and> isAlnum (List.last c)"

definition validASNComponent :: "string \<Rightarrow> bool" where
  "validASNComponent c \<longleftrightarrow> list_all (\<lambda>b. isAlnum b \<or> b = CHR ''.'') c"

definition MaxSetNameLen :: nat where
  "MaxSetNameLen = 1024"

text \<open>The loop over the components: the class seen so far, and the canonical components.\<close>

fun setname_loop :: "SetClass \<Rightarrow> string list \<Rightarrow> (SetClass \<times> string list) option" where
  "setname_loop class [] = Some (class, [])"
| "setname_loop class (p # ps) =
     (if p = [] then None
      else let (cls, isset) = componentClass p in
        if isset
        then if \<not> validSetComponent p then None
             else if class \<noteq> ClassUnknown \<and> cls \<noteq> class then None
             else map_option (\<lambda>(c, canon). (c, ToUpper p # canon)) (setname_loop cls ps)
        else (case ParseASN p of
                None \<Rightarrow> None
              | Some as \<Rightarrow>
                  if \<not> validASNComponent p then None
                  else map_option (\<lambda>(c, canon). (c, asn_String as # canon)) (setname_loop class ps)))"

definition ParseSetName :: "string \<Rightarrow> SetName option" where
  "ParseSetName s =
     (let t = Trim s blanks in
      if t = [] then None
      else if length t > MaxSetNameLen then None
      else case setname_loop ClassUnknown (Split t (CHR '':'')) of
             None \<Rightarrow> None
           | Some (class, canon) \<Rightarrow>
               if class = ClassUnknown then None
               else Some \<lparr>set_canon = Join canon '':'', set_class = class\<rparr>)"

definition setname_IsZero :: "SetName \<Rightarrow> bool" where
  "setname_IsZero n \<longleftrightarrow> set_canon n = []"

definition IsAny :: "SetName \<Rightarrow> bool" where
  "IsAny n \<longleftrightarrow> set_canon n \<in> {''AS-ANY'', ''RS-ANY'', ''RTRS-ANY'', ''PRNG-ANY'', ''FLTR-ANY''}"

definition Components :: "SetName \<Rightarrow> string list" where
  "Components n = (if set_canon n = [] then [] else Split (set_canon n) (CHR '':''))"

definition setname_MarshalText :: "SetName \<Rightarrow> string" where
  "setname_MarshalText n = set_canon n"

definition setname_UnmarshalText :: "string \<Rightarrow> SetName option" where
  "setname_UnmarshalText b = (if length b = 0 then Some zeroSetName else ParseSetName b)"

subsection \<open>Source names and scoped references\<close>

definition MaxSourceNameLen :: nat where
  "MaxSourceNameLen = 64"

definition ParseSourceName :: "string \<Rightarrow> string option" where
  "ParseSourceName s =
     (if s = [] then None
      else if length s > MaxSourceNameLen then None
      else if \<not> list_all (\<lambda>c. isAlnum c \<or> c = CHR ''-'' \<or> c = CHR ''_'') s then None
      else Some (ToUpper s))"

record SetRef =
  ref_source :: string
  ref_name :: SetName

definition Ref :: "SetName \<Rightarrow> SetRef" where
  "Ref name = \<lparr>ref_source = [], ref_name = name\<rparr>"

definition NewSetRef :: "string \<Rightarrow> SetName \<Rightarrow> SetRef option" where
  "NewSetRef source name =
     (if setname_IsZero name then None
      else if source = [] then Some (Ref name)
      else case ParseSourceName source of
             None \<Rightarrow> None
           | Some s \<Rightarrow> Some \<lparr>ref_source = s, ref_name = name\<rparr>)"

definition ParseSetRef :: "string \<Rightarrow> SetRef option" where
  "ParseSetRef s =
     (let t = Trim s blanks; (src, rest, scoped) = Cut t ''::'' in
      if \<not> scoped then map_option Ref (ParseSetName t)
      else if rest = [] \<or> hd rest = CHR '' '' \<or> hd rest = CHR 0x09 then None
      else case ParseSetName rest of
             None \<Rightarrow> None
           | Some n \<Rightarrow> if src = [] then None else NewSetRef src n)"

definition IsScoped :: "SetRef \<Rightarrow> bool" where
  "IsScoped r \<longleftrightarrow> ref_source r \<noteq> []"

definition ref_IsZero :: "SetRef \<Rightarrow> bool" where
  "ref_IsZero r \<longleftrightarrow> setname_IsZero (ref_name r)"

definition ref_String :: "SetRef \<Rightarrow> string" where
  "ref_String r =
     (if ref_source r = [] then set_canon (ref_name r)
      else ref_source r @ ''::'' @ set_canon (ref_name r))"

subsection \<open>NIC handles\<close>

definition MaxNICHandleLen :: nat where
  "MaxNICHandleLen = 64"

definition ParseNICHandle :: "string \<Rightarrow> string option" where
  "ParseNICHandle s =
     (let t = Trim s blanks in
      if t = [] then None
      else if length t > MaxNICHandleLen then None
      else if \<not> isLetter (hd t) \<and> \<not> isDigit (hd t) then None
      else if \<not> isLetter (List.last t) \<and> \<not> isDigit (List.last t) then None
      else if Contains t ''--'' then None
      else if \<not> list_all (\<lambda>c. isLetter c \<or> isDigit c \<or> c = CHR ''-'' \<or> c = CHR ''_'') t then None
      else Some (ToUpper t))"

definition nic_UnmarshalText :: "string \<Rightarrow> string option" where
  "nic_UnmarshalText b = (if length b = 0 then Some [] else ParseNICHandle b)"

text \<open>The bytes that a canonical component, source name or handle may hold.\<close>

definition name_byte :: "char \<Rightarrow> bool" where
  "name_byte c \<longleftrightarrow> isAlnum c \<or> c = CHR ''-'' \<or> c = CHR ''_''"

subsection \<open>AS numbers print and parse back\<close>

lemma blanks_not [simp]:
  "isAlnum c \<Longrightarrow> c \<notin> set blanks" "CHR '':'' \<notin> set blanks" "CHR ''-'' \<notin> set blanks" "CHR ''_'' \<notin> set blanks"
  by (auto simp: blanks_def byte_classes)

lemma isDigit_isAlnum [simp]: "isDigit c \<Longrightarrow> isAlnum c"
  by (simp add: isAlnum_def)

lemma asn_String_alnum: "list_all isAlnum (asn_String a)"
  using Itoa_digits [of "unat a"]
  by (simp add: asn_String_def list_all_iff isAlnum_def isUpper_def byte_order)

lemma asn_String_Trim: "Trim (asn_String a) blanks = asn_String a"
  using asn_String_alnum [of a] by (intro Trim_outside) (auto simp: list_all_iff)

lemma ToLower_AS: "ToLower ''AS'' = ''as''"
  by code_simp

lemma lower_AS: "lower (CHR ''A'') = CHR ''a''" "lower (CHR ''S'') = CHR ''s''"
  "lower (CHR ''a'') = CHR ''a''" "lower (CHR ''s'') = CHR ''s''"
  using ToLower_AS by (simp_all add: ToLower_def) (simp_all add: lower_def isUpper_def byte_order)

lemma unat_asn_less: "unat (a::asn) < 2 ^ LENGTH(32)"
  by (rule unsigned_less)

lemma ParseASN_String: "ParseASN (asn_String a) = Some a"
proof -
  have d: "list_all (\<lambda>c. c \<noteq> CHR ''.'') (Itoa (unat a))"
    using Itoa_digits [of "unat a"] digit_not(1) by (auto simp: list_all_iff)
  have l: "\<not> length (asn_String a) < 3"
    by (simp add: asn_String_def)
  have u: "ParseUint (Itoa (unat a)) 32 = Some (unat a)"
    by (rule ParseUint_Itoa) (use unat_asn_less [of a] in simp)
  show ?thesis
    unfolding ParseASN_def asn_String_Trim Let_def using l
    by (simp add: asn_String_def ToLower_AS [simplified] Cut_none [OF d] u)
qed

lemma asdot_value:
  assumes "h < 2 ^ 16" "l < 2 ^ 16"
  shows "ParseASN (''as'' @ Itoa h @ ''.'' @ Itoa l) = Some (of_nat (65536 * h + l))"
proof -
  let ?s = "''as'' @ Itoa h @ ''.'' @ Itoa l"
  have d: "list_all (\<lambda>c. c \<noteq> CHR ''.'') (Itoa h)"
    using Itoa_digits [of h] digit_not(1) by (auto simp: list_all_iff)
  have "c \<notin> set blanks" if "c \<in> set ?s" for c
    using that Itoa_digits [of h] Itoa_digits [of l] digit_not(4,5)
    by (auto simp: list_all_iff blanks_def)
  then have t: "Trim ?s blanks = ?s" by (intro Trim_outside) (simp add: list_all_iff)
  have c: "Cut (drop 2 ?s) ''.'' = (Itoa h, Itoa l, True)"
    using Cut_word [OF d, of "[]" "Itoa l"] by simp
  have o: "or (push_bit 16 (of_nat h)) (of_nat l) = (of_nat (65536 * h + l) :: asn)"
  proof -
    have e: "or (push_bit 16 h) l = 65536 * h + l"
    proof -
      have "and (push_bit 16 h) l = 0"
      proof (rule bit_eqI)
        fix n
        show "bit (and (push_bit 16 h) l) n = bit (0::nat) n"
          using assms(2) bit_take_bit_iff [of 16 l n]
          by (auto simp: bit_simps take_bit_nat_eq_self)
      qed
      then have "push_bit 16 h + l = or (push_bit 16 h) l" by (rule disjunctive_add_eq_or)
      then show ?thesis by (simp add: push_bit_eq_mult)
    qed
    have "or (push_bit 16 (of_nat h)) (of_nat l) = (of_nat (or (push_bit 16 h) l) :: asn)"
      by (simp add: of_nat_or_eq of_nat_push_bit)
    then show ?thesis by (simp add: e)
  qed
  show ?thesis unfolding ParseASN_def Let_def t c using assms o by (simp add: ToLower_def lower_AS)
qed

subsection \<open>Canonical set names\<close>

lemma componentClass_ToUpper [simp]: "componentClass (ToUpper p) = componentClass p"
  by (simp add: componentClass_def)

lemma validSetComponent_ToUpper:
  "p \<noteq> [] \<Longrightarrow> validSetComponent p \<Longrightarrow> validSetComponent (ToUpper p)"
  by (auto simp: validSetComponent_def list_all_iff ToUpper_def last_map isLower_def byte_order)

lemma Itoa_hd: "isDigit (hd (Itoa n))"
  using Itoa_digits [of n] Itoa_nonempty [of n] by (metis list.pred_set list.set_sel(1))

lemma componentClass_asn: "componentClass (asn_String a) = (ClassUnknown, False)"
proof -
  obtain d ds where d: "Itoa (unat a) = d # ds" "isDigit d"
    using Itoa_hd [of "unat a"] by (cases "Itoa (unat a)") auto
  then have "lower d \<noteq> CHR ''-''" using digit_not(3) digit_not_letter by (auto simp: lower_def)
  then show ?thesis
    by (simp add: componentClass_def asn_String_def d HasPrefix_def ToLower_def Let_def lower_AS)
qed

lemma validASN_asn: "validASNComponent (asn_String a)"
  using asn_String_alnum [of a] by (auto simp: validASNComponent_def list_all_iff)

lemma asn_String_nonempty [simp]: "asn_String a \<noteq> []"
  by (simp add: asn_String_def)

text \<open>The components the loop returns are canonical: the loop returns them as they are.\<close>

lemma setname_loop_idem:
  "setname_loop cl ps = Some (c, qs) \<Longrightarrow> setname_loop cl qs = Some (c, qs)"
proof (induction ps arbitrary: cl qs)
  case (Cons p ps)
  obtain cls ok where k: "componentClass p = (cls, ok)" by fastforce
  have p: "p \<noteq> []" using Cons.prems by (auto split: if_splits)
  show ?case
  proof (cases ok)
    case True
    then obtain qs' where q: "setname_loop cls ps = Some (c, qs')" "qs = ToUpper p # qs'"
      "validSetComponent p" "\<not> (cl \<noteq> ClassUnknown \<and> cls \<noteq> cl)"
      using Cons.prems k p by (auto split: if_splits)
    show ?thesis
      using Cons.IH [OF q(1)] k True q validSetComponent_ToUpper [OF p] p
      by auto
  next
    case False
    then obtain an qs' where q: "setname_loop cl ps = Some (c, qs')" "qs = asn_String an # qs'"
      using Cons.prems k p by (auto split: if_splits option.splits)
    show ?thesis
      using Cons.IH [OF q(1)] q by (simp add: componentClass_asn ParseASN_String validASN_asn)
  qed
qed simp

lemma setname_loop_bytes:
  "setname_loop cl ps = Some (c, qs) \<Longrightarrow> list_all (\<lambda>q. q \<noteq> [] \<and> list_all name_byte q) qs"
proof (induction ps arbitrary: cl qs)
  case (Cons p ps)
  obtain cls ok where k: "componentClass p = (cls, ok)" by fastforce
  have p: "p \<noteq> []" using Cons.prems by (auto split: if_splits)
  show ?case
  proof (cases ok)
    case True
    then obtain qs' where q: "setname_loop cls ps = Some (c, qs')" "qs = ToUpper p # qs'" "validSetComponent p"
      using Cons.prems k p by (auto split: if_splits)
    have "list_all name_byte (ToUpper p)"
      using validSetComponent_ToUpper [OF p q(3)] by (auto simp: validSetComponent_def list_all_iff name_byte_def)
    then show ?thesis using Cons.IH [OF q(1)] q p by (simp add: ToUpper_def)
  next
    case False
    then obtain an qs' where q: "setname_loop cl ps = Some (c, qs')" "qs = asn_String an # qs'"
      using Cons.prems k p by (auto split: if_splits option.splits)
    have "list_all name_byte (asn_String an)"
      using asn_String_alnum [of an] by (auto simp: list_all_iff name_byte_def)
    then show ?thesis using Cons.IH [OF q(1)] q by simp
  qed
qed simp

lemma name_byte_not [simp]:
  "name_byte c \<Longrightarrow> c \<noteq> CHR '':''" "name_byte c \<Longrightarrow> c \<notin> set blanks"
  by (auto simp: name_byte_def) (auto simp: byte_classes)

lemma Join_name:
  "list_all (\<lambda>q. q \<noteq> [] \<and> list_all name_byte q) qs \<Longrightarrow>
   list_all (\<lambda>c. name_byte c \<or> c = CHR '':'') (Join qs '':'')"
  by (induction qs "'':''" rule: Join.induct) (auto simp: list_all_iff)

lemma Join_Nil_iff: "list_all (\<lambda>q. q \<noteq> [] \<and> P q) qs \<Longrightarrow> Join qs sep = [] \<longleftrightarrow> qs = []"
  by (induction qs sep rule: Join.induct) auto

lemma setname_loop_Nil: "setname_loop cl ps = Some (c, qs) \<Longrightarrow> qs = [] \<longleftrightarrow> ps = []"
  by (cases ps) (auto split: if_splits option.splits prod.splits)

text \<open>What a parsed name is: the canonical components of a name, joined.\<close>

lemma ParseSetName_canon:
  assumes "ParseSetName s = Some n"
  obtains qs where "set_canon n = Join qs '':''" "qs \<noteq> []" "setname_loop ClassUnknown qs = Some (set_class n, qs)"
    "set_class n \<noteq> ClassUnknown" "list_all (\<lambda>q. q \<noteq> [] \<and> list_all name_byte q) qs"
proof -
  obtain c qs where l: "setname_loop ClassUnknown (Split (Trim s blanks) (CHR '':'')) = Some (c, qs)"
    and n: "n = \<lparr>set_canon = Join qs '':'', set_class = c\<rparr>" "c \<noteq> ClassUnknown"
    using assms by (auto simp: ParseSetName_def Let_def split: if_splits option.splits)
  show ?thesis
    using that [of qs] n setname_loop_idem [OF l] setname_loop_bytes [OF l] setname_loop_Nil [OF l] by simp
qed

lemma canon_Trim:
  "list_all (\<lambda>q. q \<noteq> [] \<and> list_all name_byte q) qs \<Longrightarrow> Trim (Join qs '':'') blanks = Join qs '':''"
  using Join_name [of qs] by (intro Trim_outside) (auto simp: list_all_iff)

lemma ParseSetName_again:
  assumes "ParseSetName s = Some n" "length (set_canon n) \<le> MaxSetNameLen"
  shows "ParseSetName (set_canon n) = Some n"
proof (rule ParseSetName_canon [OF assms(1)])
  fix qs
  assume q: "set_canon n = Join qs '':''" "qs \<noteq> []" "setname_loop ClassUnknown qs = Some (set_class n, qs)"
    "set_class n \<noteq> ClassUnknown" "list_all (\<lambda>q. q \<noteq> [] \<and> list_all name_byte q) qs"
  have sp: "Split (Join qs '':'') (CHR '':'') = qs"
    using q(2,5) by (intro Split_Join) (auto simp: list_all_iff dest: name_byte_not(1))
  have n: "\<lparr>set_canon = Join qs '':'', set_class = set_class n\<rparr> = n" using q(1) by (cases n) simp
  have "Join qs '':'' \<noteq> []" using q(2,5) by (simp add: Join_Nil_iff)
  then show ?thesis
    using assms(2) q(1,3,4) n unfolding ParseSetName_def q(1) canon_Trim [OF q(5)] Let_def sp by simp
qed

lemma ParseSetName_nonzero: "ParseSetName s = Some n \<Longrightarrow> \<not> setname_IsZero n"
  by (erule ParseSetName_canon) (simp add: setname_IsZero_def Join_Nil_iff)

subsection \<open>Scoped references print and parse back\<close>

lemma Cut_absent: "\<not> Contains s sep \<Longrightarrow> sep \<noteq> [] \<Longrightarrow> Cut s sep = (s, [], False)"
  by (induction s) auto

lemma Contains_skip: "list_all (\<lambda>c. c \<noteq> d) x \<Longrightarrow> Contains (x @ s) (d # sep) = Contains s (d # sep)"
  by (induction x) (auto simp: HasPrefix_def)

lemma Join_single_colons:
  "list_all (\<lambda>q. q \<noteq> [] \<and> list_all name_byte q) qs \<Longrightarrow> \<not> Contains (Join qs '':'') ''::''"
proof (induction qs "'':''" rule: Join.induct)
  case 2
  then show ?case by (simp add: Contains_skip [of "CHR '':''" _ "[]", simplified] list_all_iff)
next
  case (3 x y ys)
  have x: "list_all (\<lambda>c. c \<noteq> CHR '':'') x" using 3(2) by (auto simp: list_all_iff)
  obtain b bs where b: "Join (y # ys) '':'' = b # bs" "b \<noteq> CHR '':''"
  proof (cases y)
    case (Cons b bs')
    then have "b \<noteq> CHR '':''" using 3(2) by (auto simp: list_all_iff)
    then show ?thesis using that Cons by (cases ys) auto
  qed (use 3(2) in simp)
  have "\<not> Contains (Join (y # ys) '':'') ''::''" using 3 by simp
  then show ?case using b by (simp add: Contains_skip [OF x] HasPrefix_def)
qed simp

lemma upper_punct [simp]: "upper (CHR ''-'') = CHR ''-''" "upper (CHR ''_'') = CHR ''_''"
  by (simp_all add: isLower_def byte_order)

lemma name_byte_upper: "name_byte c \<Longrightarrow> name_byte (upper c)"
  by (auto simp: name_byte_def)

lemma ToUpper_name: "list_all name_byte s \<Longrightarrow> list_all name_byte (ToUpper s)"
  by (auto simp: list_all_iff ToUpper_def name_byte_upper)

lemma ParseSourceName_bytes:
  "ParseSourceName s = Some t \<Longrightarrow> t \<noteq> [] \<and> list_all name_byte t \<and> ParseSourceName t = Some t"
  using ToUpper_name [of s]
  by (auto simp: ParseSourceName_def name_byte_def list_all_iff split: if_splits)

lemma ParseSetName_hd:
  assumes "ParseSetName s = Some n"
  shows "set_canon n \<noteq> [] \<and> hd (set_canon n) \<notin> set blanks \<and> List.last (set_canon n) \<notin> set blanks"
proof (rule ParseSetName_canon [OF assms])
  fix qs
  assume q: "set_canon n = Join qs '':''" "qs \<noteq> []" "list_all (\<lambda>q. q \<noteq> [] \<and> list_all name_byte q) qs"
  have "Join qs '':'' \<noteq> []" using q(2,3) by (simp add: Join_Nil_iff)
  then show ?thesis using Join_name [OF q(3)] unfolding q(1) list_all_iff
    by (metis blanks_not(2) hd_in_set last_in_set name_byte_not(2))
qed

lemma ParseSetRef_name:
  assumes "ParseSetRef s = Some r"
  shows "(\<exists>t. ParseSetName t = Some (ref_name r)) \<and>
    (ref_source r = [] \<or> (\<exists>t. ParseSourceName t = Some (ref_source r)))"
  using assms
  by (auto simp: ParseSetRef_def NewSetRef_def Ref_def Let_def split: if_splits option.splits prod.splits)

lemma ParseSetRef_again:
  assumes "ParseSetRef s = Some r" "length (set_canon (ref_name r)) \<le> MaxSetNameLen"
  shows "ParseSetRef (ref_String r) = Some r"
proof -
  obtain t where t: "ParseSetName t = Some (ref_name r)" using ParseSetRef_name [OF assms(1)] by blast
  have again: "ParseSetName (set_canon (ref_name r)) = Some (ref_name r)"
    by (rule ParseSetName_again [OF t assms(2)])
  note hd = ParseSetName_hd [OF t]
  show ?thesis
  proof (cases "ref_source r = []")
    case True
    have c: "Cut (set_canon (ref_name r)) ''::'' = (set_canon (ref_name r), [], False)"
      by (rule ParseSetName_canon [OF t]) (simp add: Cut_absent Join_single_colons)
    have tr: "Trim (set_canon (ref_name r)) blanks = set_canon (ref_name r)" using hd by (simp add: Trim_id)
    show ?thesis using True by (simp add: ParseSetRef_def ref_String_def tr c again Ref_def)
  next
    case False
    then obtain u where "ParseSourceName u = Some (ref_source r)"
      using ParseSetRef_name [OF assms(1)] by blast
    note src = ParseSourceName_bytes [OF this]
    have "list_all (\<lambda>c. c \<noteq> CHR '':'') (ref_source r)" using src by (auto simp: list_all_iff)
    from Cut_word [OF this, of "'':''"]
    have c: "Cut (ref_String r) ''::'' = (ref_source r, set_canon (ref_name r), True)"
      using False by (simp add: ref_String_def)
    have "hd (ref_source r) \<notin> set blanks" using src by (auto simp: list_all_iff)
    then have tr: "Trim (ref_String r) blanks = ref_String r"
      using False hd by (intro Trim_id) (simp add: ref_String_def)
    show ?thesis
      using False hd src ParseSetName_nonzero [OF t] unfolding ParseSetRef_def tr Let_def c
      by (simp add: again NewSetRef_def) (simp add: blanks_def)
  qed
qed

subsection \<open>NIC handles print and parse back\<close>

lemma upper_hyphen [simp]: "upper c = CHR ''-'' \<longleftrightarrow> c = CHR ''-''" "upper c = CHR ''_'' \<longleftrightarrow> c = CHR ''_''"
  using isUpper_upper [of c]
  by (cases "isLower c"; force simp: isUpper_def isLower_def byte_order)+

lemma Contains_hyphens: "Contains (ToUpper t) ''--'' = Contains t ''--''"
proof (induction t)
  case (Cons c t)
  have "HasPrefix (ToUpper (c # t)) ''--'' = HasPrefix (c # t) ''--''"
    by (cases t) (auto simp: HasPrefix_def ToUpper_def)
  then show ?case using Cons by (simp add: ToUpper_def)
qed (simp add: ToUpper_def)

lemma alnum_parts: "isLetter c \<or> isDigit c \<longleftrightarrow> isAlnum c"
  by (auto simp: isLetter_def isAlnum_def)

lemma ParseNICHandle_iff:
  "ParseNICHandle s = Some h \<longleftrightarrow>
   (let t = Trim s blanks in
    t \<noteq> [] \<and> length t \<le> MaxNICHandleLen \<and> isAlnum (hd t) \<and> isAlnum (List.last t) \<and>
    \<not> Contains t ''--'' \<and> list_all name_byte t \<and> h = ToUpper t)"
proof -
  have n: "(\<lambda>c. isLetter c \<or> isDigit c \<or> c = CHR ''-'' \<or> c = CHR ''_'') = name_byte"
    by (rule ext) (simp add: name_byte_def alnum_parts [symmetric])
  have a: "\<not> isLetter c \<and> \<not> isDigit c \<longleftrightarrow> \<not> isAlnum c" for c using alnum_parts by blast
  show ?thesis unfolding ParseNICHandle_def n a Let_def by (simp add: not_less) blast
qed

lemma hd_ToUpper [simp]: "s \<noteq> [] \<Longrightarrow> hd (ToUpper s) = upper (hd s)"
  by (simp add: ToUpper_def hd_map)

lemma last_ToUpper [simp]: "s \<noteq> [] \<Longrightarrow> List.last (ToUpper s) = upper (List.last s)"
  by (simp add: ToUpper_def last_map)

lemma ParseNICHandle_bytes:
  assumes "ParseNICHandle s = Some h"
  shows "h \<noteq> [] \<and> length h \<le> MaxNICHandleLen \<and> isAlnum (hd h) \<and> isAlnum (List.last h) \<and>
    \<not> Contains h ''--'' \<and> list_all name_byte h \<and> ToUpper h = h"
  using assms unfolding ParseNICHandle_iff Let_def by (auto simp: Contains_hyphens ToUpper_name)

lemma ParseNICHandle_again:
  assumes "ParseNICHandle s = Some h"
  shows "ParseNICHandle h = Some h"
proof -
  note b = ParseNICHandle_bytes [OF assms]
  have "Trim h blanks = h" using b by (intro Trim_id) auto
  then show ?thesis using b unfolding ParseNICHandle_iff Let_def by simp
qed

subsection \<open>Case does not matter\<close>

lemma upper_class [simp]: "isDigit (upper c) = isDigit c" "upper c = CHR ''.'' \<longleftrightarrow> c = CHR ''.''"
  "upper c = CHR '':'' \<longleftrightarrow> c = CHR '':''" "upper c \<in> set blanks \<longleftrightarrow> c \<in> set blanks"
proof -
  have "isDigit (upper c) = isDigit c \<and> (upper c = CHR ''.'' \<longleftrightarrow> c = CHR ''.'') \<and>
    (upper c = CHR '':'' \<longleftrightarrow> c = CHR '':'') \<and> (upper c \<in> set blanks \<longleftrightarrow> c \<in> set blanks)"
  proof (cases "isLower c")
    case True
    then show ?thesis using isUpper_upper [OF True]
      by (auto simp: isDigit_def isUpper_def isLower_def blanks_def byte_order)
  qed simp
  then show "isDigit (upper c) = isDigit c" "upper c = CHR ''.'' \<longleftrightarrow> c = CHR ''.''"
    "upper c = CHR '':'' \<longleftrightarrow> c = CHR '':''" "upper c \<in> set blanks \<longleftrightarrow> c \<in> set blanks" by blast+
qed

lemma Trim_ToUpper: "Trim (ToUpper s) blanks = ToUpper (Trim s blanks)"
  by (simp add: Trim_def ToUpper_def dropWhile_map rev_map o_def)

lemma Split_ToUpper: "Split (ToUpper s) (CHR '':'') = map ToUpper (Split s (CHR '':''))"
  by (induction s) (auto simp: ToUpper_def split: list.splits)

lemma Cut_ToUpper:
  "Cut (ToUpper s) ''.'' = (case Cut s ''.'' of (a, b, f) \<Rightarrow> (ToUpper a, ToUpper b, f))"
  by (induction s) (auto simp: ToUpper_def HasPrefix_def split: prod.splits)

lemma ToUpper_digits: "list_all isDigit s \<Longrightarrow> ToUpper s = s"
  by (auto simp: ToUpper_def list_all_iff digit_not_letter intro!: map_idI)

lemma ParseUint_ToUpper: "ParseUint (ToUpper s) bits = ParseUint s bits"
proof (cases "list_all isDigit s")
  case False
  then have "\<not> list_all isDigit (ToUpper s)" by (auto simp: list_all_iff ToUpper_def)
  then show ?thesis using False by (simp add: ParseUint_def)
qed (simp add: ToUpper_digits)

lemma ParseASN_ToUpper: "ParseASN (ToUpper s) = ParseASN s"
proof -
  have "ToLower (take 2 (ToUpper t)) = ToLower (take 2 t)" "drop 2 (ToUpper t) = ToUpper (drop 2 t)" for t
    by (simp_all add: ToLower_def ToUpper_def take_map drop_map)
  then show ?thesis
    unfolding ParseASN_def Trim_ToUpper Let_def
    by (cases "Cut (drop 2 (Trim s blanks)) ''.''") (simp add: Cut_ToUpper ParseUint_ToUpper cong: option.case_cong)
qed

lemma setname_loop_ToUpper: "setname_loop cl (map ToUpper ps) = setname_loop cl ps"
proof (induction ps arbitrary: cl)
  case (Cons p ps)
  have v: "validSetComponent (ToUpper p) = validSetComponent p" if "p \<noteq> []"
    using that by (simp add: validSetComponent_def ToUpper_def list.pred_map comp_def last_map)
  have w: "validASNComponent (ToUpper p) = validASNComponent p"
    by (simp add: validASNComponent_def ToUpper_def list.pred_map comp_def)
  show ?case using v
    by (cases "componentClass p"; cases "ParseASN p") (simp_all add: Cons ParseASN_ToUpper w)
qed simp

lemma ParseSetName_ToUpper: "ParseSetName (ToUpper s) = ParseSetName s"
  by (simp add: ParseSetName_def Let_def Trim_ToUpper Split_ToUpper setname_loop_ToUpper)

subsection \<open>A name whose canonical form is too long\<close>

definition long_name :: string where
  "long_name = Join (replicate 160 ''AS1.1'' @ [''AS-X'']) '':''"

lemma length_Join_replicate:
  "length (Join (replicate k w @ [x]) '':'') = k * (length w + 1) + length x"
proof (induction k)
  case (Suc k)
  then show ?case by (cases k) auto
qed simp

lemma Trim_Join:
  "list_all (\<lambda>q. list_all (\<lambda>c. c \<notin> set blanks) q) qs \<Longrightarrow> Trim (Join qs '':'') blanks = Join qs '':''"
proof -
  have "list_all (\<lambda>q. list_all (\<lambda>c. c \<notin> set blanks) q) qs \<Longrightarrow>
    list_all (\<lambda>c. c \<notin> set blanks) (Join qs '':'')"
    by (induction qs "'':''" rule: Join.induct) auto
  then show "list_all (\<lambda>q. list_all (\<lambda>c. c \<notin> set blanks) q) qs \<Longrightarrow> Trim (Join qs '':'') blanks = Join qs '':''"
    by (intro Trim_outside) simp
qed

lemma setname_loop_replicate:
  assumes "componentClass w = (ClassUnknown, False)" "ParseASN w = Some a" "validASNComponent w" "w \<noteq> []"
  shows "setname_loop cl (replicate k w @ [x]) =
    map_option (\<lambda>(c, qs). (c, replicate k (asn_String a) @ qs)) (setname_loop cl [x])"
proof (induction k)
  case 0
  then show ?case by (simp only: replicate_0 append_Nil) (simp add: option.map_ident)
next
  case (Suc k)
  have "setname_loop cl (replicate (Suc k) w @ [x]) =
    map_option (\<lambda>(c, qs). (c, asn_String a # qs)) (setname_loop cl (replicate k w @ [x]))"
    using assms by simp
  then show ?case unfolding Suc by (simp add: option.map_comp comp_def split_def)
qed

lemma long_name_parses:
  "ParseSetName long_name =
     Some \<lparr>set_canon = Join (replicate 160 ''AS65537'' @ [''AS-X'']) '':'', set_class = ClassAsSet\<rparr>"
proof -
  let ?ps = "replicate 160 ''AS1.1'' @ [''AS-X'']"
  have c: "list_all (\<lambda>x. CHR '':'' \<notin> set x) ?ps" by (simp add: list_all_iff)
  have sp: "Split long_name (CHR '':'') = ?ps" unfolding long_name_def by (rule Split_Join [OF _ c]) simp
  have w: "componentClass ''AS1.1'' = (ClassUnknown, False)" "ParseASN ''AS1.1'' = Some 65537"
    "validASNComponent ''AS1.1''" "asn_String 65537 = ''AS65537''"
    "setname_loop ClassUnknown [''AS-X''] = Some (ClassAsSet, [''AS-X''])" by code_simp+
  have l: "setname_loop ClassUnknown ?ps = Some (ClassAsSet, replicate 160 ''AS65537'' @ [''AS-X''])"
    using setname_loop_replicate [OF w(1-3), of ClassUnknown 160 "''AS-X''"] w(4,5)
    by (simp del: setname_loop.simps)
  have n: "length long_name \<le> MaxSetNameLen" "long_name \<noteq> []"
  proof -
    have "length long_name = 964"
      unfolding long_name_def length_Join_replicate by simp
    then show "length long_name \<le> MaxSetNameLen" "long_name \<noteq> []"
      unfolding MaxSetNameLen_def by auto
  qed
  have t: "Trim long_name blanks = long_name"
    unfolding long_name_def by (rule Trim_Join) (simp add: list_all_iff blanks_def)
  show ?thesis unfolding ParseSetName_def t Let_def sp l using n by simp
qed

lemma too_long:
  assumes "list_all (\<lambda>q. q \<noteq> [] \<and> list_all name_byte q) qs" "length (Join qs '':'') > MaxSetNameLen"
  shows "ParseSetName (Join qs '':'') = None"
  using assms(2) by (simp add: ParseSetName_def Let_def canon_Trim [OF assms(1)])

lemma long_canon_bytes:
  "list_all (\<lambda>q. q \<noteq> [] \<and> list_all name_byte q) (replicate 160 ''AS65537'' @ [''AS-X''])"
proof -
  have "list_all name_byte ''AS65537''" "list_all name_byte ''AS-X''" by code_simp+
  then show ?thesis by (simp add: list_all_iff)
qed

subsection \<open>Properties\<close>

text \<open>An AS number prints as asplain and parses back to itself, and the asdot spelling of two
  16-bit halves parses to \<^verbatim>\<open>hi * 65536 + lo\<close>.\<close>

theorem ParseASN_roundtrip:
  "ParseASN (asn_String a) = Some a \<and>
   (h < 2 ^ 16 \<longrightarrow> l < 2 ^ 16 \<longrightarrow>
    ParseASN (''as'' @ Itoa h @ ''.'' @ Itoa l) = Some (of_nat (65536 * h + l)))"
  using ParseASN_String asdot_value by blast

theorem ParseASN_roundtrip_witness:
  "ParseASN (asn_String 65001) = Some 65001 \<and>
   ParseASN (''as'' @ Itoa 1 @ ''.'' @ Itoa 10) = Some 65546"
  using ParseASN_roundtrip [of 65001 1 10] by simp

text \<open>(C13) A parsed set name holds only letters, digits, hyphens, underscores and colons, so it can
  be put into a query line; it has a set class; its spelling's case does not matter; and whenever
  the canonical form is itself within the length limit, it parses back to the same name.\<close>

theorem ParseSetName_canonical:
  assumes "ParseSetName s = Some n"
  shows "list_all (\<lambda>c. name_byte c \<or> c = CHR '':'') (set_canon n) \<and> \<not> setname_IsZero n \<and>
    set_class n \<noteq> ClassUnknown \<and> ParseSetName (ToUpper s) = Some n \<and>
    Join (Components n) '':'' = set_canon n \<and>
    (length (set_canon n) \<le> MaxSetNameLen \<longrightarrow> setname_UnmarshalText (setname_MarshalText n) = Some n)"
proof -
  have "list_all (\<lambda>c. name_byte c \<or> c = CHR '':'') (set_canon n) \<and> set_class n \<noteq> ClassUnknown"
    by (rule ParseSetName_canon [OF assms]) (simp add: Join_name)
  moreover have "\<not> setname_IsZero n" by (rule ParseSetName_nonzero [OF assms])
  moreover from this have "Join (Components n) '':'' = set_canon n"
    by (simp add: Components_def setname_IsZero_def Join_Split)
  ultimately show ?thesis
    using assms ParseSetName_again [OF assms]
    by (auto simp: ParseSetName_ToUpper setname_UnmarshalText_def setname_MarshalText_def setname_IsZero_def)
qed

theorem ParseSetName_canonical_witness:
  "ParseSetName '' as007:as-x'' = Some \<lparr>set_canon = ''AS7:AS-X'', set_class = ClassAsSet\<rparr> \<and>
   ParseSetName '' AS007:AS-X'' = Some \<lparr>set_canon = ''AS7:AS-X'', set_class = ClassAsSet\<rparr> \<and>
   setname_UnmarshalText ''AS7:AS-X'' = Some \<lparr>set_canon = ''AS7:AS-X'', set_class = ClassAsSet\<rparr>"
proof -
  have p: "ParseSetName '' as007:as-x'' = Some \<lparr>set_canon = ''AS7:AS-X'', set_class = ClassAsSet\<rparr>"
    by code_simp
  have u: "ToUpper '' as007:as-x'' = '' AS007:AS-X''" by code_simp
  show ?thesis using p ParseSetName_canonical [OF p] by (simp add: u setname_MarshalText_def MaxSetNameLen_def)
qed

text \<open>(C14) The length limit is checked on the spelling and not on the canonical form, which asdot
  components make longer: there is a name that parses and whose text form does not parse back.\<close>

theorem setname_text_not_total:
  "\<exists>s n. ParseSetName s = Some n \<and> setname_UnmarshalText (setname_MarshalText n) = None"
proof (intro exI conjI)
  let ?qs = "replicate 160 ''AS65537'' @ [''AS-X'']"
  show "ParseSetName long_name = Some \<lparr>set_canon = Join ?qs '':'', set_class = ClassAsSet\<rparr>"
    by (rule long_name_parses)
  have l: "length (Join ?qs '':'') = 1284" unfolding length_Join_replicate by simp
  have "ParseSetName (Join ?qs '':'') = None"
    using too_long [OF long_canon_bytes] l by (simp add: MaxSetNameLen_def)
  moreover have "length (Join ?qs '':'') \<noteq> 0" using l by simp
  ultimately show "setname_UnmarshalText
    (setname_MarshalText \<lparr>set_canon = Join ?qs '':'', set_class = ClassAsSet\<rparr>) = None"
    by (simp add: setname_UnmarshalText_def setname_MarshalText_def)
qed

text \<open>A parsed reference, scoped or not, prints to a text that parses back to it, whenever its
  set name's canonical form is within the length limit.\<close>

theorem ParseSetRef_roundtrip:
  assumes "ParseSetRef s = Some r" "length (set_canon (ref_name r)) \<le> MaxSetNameLen"
  shows "ParseSetRef (ref_String r) = Some r"
  by (rule ParseSetRef_again [OF assms])

theorem ParseSetRef_roundtrip_witness:
  "ParseSetRef ''ripe::as-foo'' =
     Some \<lparr>ref_source = ''RIPE'', ref_name = \<lparr>set_canon = ''AS-FOO'', set_class = ClassAsSet\<rparr>\<rparr> \<and>
   ParseSetRef ''RIPE::AS-FOO'' =
     Some \<lparr>ref_source = ''RIPE'', ref_name = \<lparr>set_canon = ''AS-FOO'', set_class = ClassAsSet\<rparr>\<rparr>"
proof -
  have p: "ParseSetRef ''ripe::as-foo'' =
     Some \<lparr>ref_source = ''RIPE'', ref_name = \<lparr>set_canon = ''AS-FOO'', set_class = ClassAsSet\<rparr>\<rparr>"
    by code_simp
  show ?thesis using p ParseSetRef_roundtrip [OF p] by (simp add: ref_String_def MaxSetNameLen_def)
qed

text \<open>A parsed NIC handle is one upper-case word of at most 64 letters, digits, hyphens and
  underscores without two hyphens in a row, and its text form parses back to it.\<close>

theorem ParseNICHandle_word:
  assumes "ParseNICHandle s = Some h"
  shows "h \<noteq> [] \<and> length h \<le> MaxNICHandleLen \<and> list_all name_byte h \<and> \<not> Contains h ''--'' \<and>
    ToUpper h = h \<and> nic_UnmarshalText h = Some h"
  using ParseNICHandle_bytes [OF assms] ParseNICHandle_again [OF assms] by (simp add: nic_UnmarshalText_def)

theorem ParseNICHandle_word_witness:
  "ParseNICHandle '' ex1-Ripe'' = Some ''EX1-RIPE'' \<and> nic_UnmarshalText ''EX1-RIPE'' = Some ''EX1-RIPE''"
proof -
  have p: "ParseNICHandle '' ex1-Ripe'' = Some ''EX1-RIPE''" by code_simp
  show ?thesis using p ParseNICHandle_word [OF p] by simp
qed

end
