(* ===== verification/Netip_Text.thy ===== *)
theory Netip_Text
  imports Netip Go_Text
begin

text \<open>
  The text forms of \<^verbatim>\<open>net/netip\<close>: \<^verbatim>\<open>ParseAddr\<close>, \<^verbatim>\<open>ParsePrefix\<close>, \<^verbatim>\<open>Addr.String\<close> and
  \<^verbatim>\<open>Prefix.String\<close>, with the IPv6 grammar (the ellipsis, the embedded IPv4 tail and the zone) and
  the canonical printing that shortens the longest run of zero groups.  A model of the standard
  library, so not mapped.  What the repository relies on is proved here: a printed address or
  prefix parses back to itself.
\<close>

subsection \<open>Numbers as digits of a base, most significant first\<close>

fun be_digits :: "nat \<Rightarrow> nat \<Rightarrow> nat \<Rightarrow> nat list" where
  "be_digits b 0 n = []"
| "be_digits b (Suc k) n = be_digits b k (n div b) @ [n mod b]"

definition be_val :: "nat \<Rightarrow> nat list \<Rightarrow> nat" where
  "be_val b ds = foldl (\<lambda>v d. b * v + d) 0 ds"

definition octets :: "32 word \<Rightarrow> nat list" where
  "octets w = be_digits 256 4 (unat w)"

definition groups :: "128 word \<Rightarrow> nat list" where
  "groups w = be_digits 65536 8 (unat w)"

subsection \<open>Parsing\<close>

text \<open>One octet: digits without a leading zero, at most 255.\<close>

definition octet :: "string \<Rightarrow> nat option" where
  "octet s =
     (if s \<noteq> [] \<and> list_all isDigit s \<and> (length s = 1 \<or> hd s \<noteq> CHR ''0'') \<and> dec_val s \<le> 255
      then Some (dec_val s) else None)"

definition parseIPv4Fields :: "string \<Rightarrow> nat list option" where
  "parseIPv4Fields s =
     (let fs = map octet (Split s (CHR ''.'')) in
      if length fs = 4 \<and> None \<notin> set fs then Some (map the fs) else None)"

definition isHex :: "char \<Rightarrow> bool" where
  "isHex c \<longleftrightarrow> isDigit c \<or> CHR ''a'' \<le> c \<and> c \<le> CHR ''f'' \<or> CHR ''A'' \<le> c \<and> c \<le> CHR ''F''"

definition hexdigit_val :: "char \<Rightarrow> nat" where
  "hexdigit_val c =
     (if isDigit c then of_char c - 48
      else if CHR ''a'' \<le> c then of_char c - 87 else of_char c - 55)"

definition hex_val :: "string \<Rightarrow> nat" where
  "hex_val s = foldl (\<lambda>v c. 16 * v + hexdigit_val c) 0 s"

text \<open>
  The loop of \<^verbatim>\<open>parseIPv6\<close>: the rest of the text, the groups read, and the position of the
  ellipsis, if there was one.
\<close>

function v6_loop :: "string \<Rightarrow> nat list \<Rightarrow> nat option \<Rightarrow> (string \<times> nat list \<times> nat option) option" where
  "v6_loop s gs ell =
     (if length gs \<ge> 8 then Some (s, gs, ell)
      else let h = takeWhile isHex s; r = dropWhile isHex s in
        if h = [] \<or> length h > 4 then None
        else if r \<noteq> [] \<and> hd r = CHR ''.'' then
          (if ell = None \<and> length gs \<noteq> 6 then None
           else if length gs + 2 > 8 then None
           else case parseIPv4Fields s of
                  None \<Rightarrow> None
                | Some f \<Rightarrow> Some ([], gs @ [256 * f ! 0 + f ! 1, 256 * f ! 2 + f ! 3], ell))
        else let gs' = gs @ [hex_val h] in
          if r = [] then Some ([], gs', ell)
          else if hd r \<noteq> CHR '':'' \<or> length r = 1 then None
          else if hd (tl r) = CHR '':'' then
            (if ell \<noteq> None then None
             else if tl (tl r) = [] then Some ([], gs', Some (length gs'))
             else v6_loop (tl (tl r)) gs' (Some (length gs')))
          else v6_loop (tl r) gs' ell)"
  by pat_completeness auto
termination
proof (relation "measure (\<lambda>(s, _, _). length s)")
  fix s :: string and x xa
  assume a: "x = takeWhile isHex s" "xa = dropWhile isHex s" "\<not> (x = [] \<or> length x > 4)" "xa \<noteq> []"
  have "length x + length xa = length s" using a(1,2) by (metis length_append takeWhile_dropWhile_id)
  then have "length xa < length s" using a(3) by (cases x) auto
  then show "((tl (tl xa), y, z), s, u, v) \<in> measure (\<lambda>(s, _, _). length s)"
    "((tl xa, y, z), s, u, v) \<in> measure (\<lambda>(s, _, _). length s)" for y z u v by auto
qed auto

declare v6_loop.simps [simp del]

definition v6_groups :: "string \<Rightarrow> nat list option" where
  "v6_groups s =
     (let (ell, s) = (if HasPrefix s ''::'' then (Some 0, drop 2 s) else (None, s)) in
      if ell = Some 0 \<and> s = [] then Some (replicate 8 0)
      else case v6_loop s [] ell of
             None \<Rightarrow> None
           | Some (rest, gs, ell) \<Rightarrow>
               if rest \<noteq> [] then None
               else if length gs < 8
               then (case ell of
                       None \<Rightarrow> None
                     | Some e \<Rightarrow> Some (take e gs @ replicate (8 - length gs) 0 @ drop e gs))
               else if ell \<noteq> None then None else Some gs)"

definition parseIPv4 :: "string \<Rightarrow> addr option" where
  "parseIPv4 s = map_option (\<lambda>f. IPv4 (of_nat (be_val 256 f))) (parseIPv4Fields s)"

definition parseIPv6 :: "string \<Rightarrow> addr option" where
  "parseIPv6 s =
     (let (s, z, zoned) = Cut s ''%'' in
      if zoned \<and> z = [] then None
      else map_option (\<lambda>g. IPv6 (of_nat (be_val 65536 g)) z) (v6_groups s))"

definition netip_ParseAddr :: "string \<Rightarrow> addr option" where
  "netip_ParseAddr s =
     (case List.find (\<lambda>c. c \<in> {CHR ''.'', CHR '':'', CHR ''%''}) s of
        None \<Rightarrow> None
      | Some c \<Rightarrow>
          if c = CHR ''.'' then parseIPv4 s else if c = CHR '':'' then parseIPv6 s else None)"

text \<open>\<^verbatim>\<open>ParsePrefix\<close> splits at the last slash and refuses a zone, a sign and leading zeros.\<close>

definition netip_ParsePrefix :: "string \<Rightarrow> prefix option" where
  "netip_ParsePrefix s =
     (if CHR ''/'' \<notin> set s then None
      else let b = rev (takeWhile (\<lambda>c. c \<noteq> CHR ''/'') (rev s)) in
        case netip_ParseAddr (take (length s - length b - 1) s) of
          None \<Rightarrow> None
        | Some a \<Rightarrow>
            if zone a \<noteq> [] then None
            else if b = [] \<or> \<not> list_all isDigit b \<or> (length b > 1 \<and> hd b = CHR ''0'') then None
            else if int (dec_val b) > BitLen a then None
            else Some (PrefixFrom a (int (dec_val b))))"

subsection \<open>Printing\<close>

definition hexdigit :: "nat \<Rightarrow> char" where
  "hexdigit d = (if d < 10 then char_of (48 + d) else char_of (87 + d))"

fun hex :: "nat \<Rightarrow> string" where
  "hex n = (if n < 16 then [hexdigit n] else hex (n div 16) @ [hexdigit (n mod 16)])"

declare hex.simps [simp del]

definition string4 :: "nat list \<Rightarrow> string" where
  "string4 f = Join (map Itoa f) ''.''"

text \<open>The first longest run of at least two zero groups, as its start and end.\<close>

fun zero_run :: "nat list \<Rightarrow> nat \<Rightarrow> nat \<times> nat \<Rightarrow> nat \<times> nat" where
  "zero_run [] i best = best"
| "zero_run (g # gs) i best =
     (let l = length (takeWhile (\<lambda>x. x = 0) (g # gs)) in
      zero_run gs (Suc i) (if l \<ge> 2 \<and> l > snd best - fst best then (i, i + l) else best))"

definition string6 :: "nat list \<Rightarrow> string" where
  "string6 gs =
     (let (a, e) = zero_run gs 0 (255, 255) in
      if a = 255 then Join (map hex gs) '':''
      else Join (map hex (take a gs)) '':'' @ ''::'' @ Join (map hex (drop e gs)) '':'')"

definition Is4In6 :: "128 word \<Rightarrow> bool" where
  "Is4In6 w \<longleftrightarrow> take 6 (groups w) = [0, 0, 0, 0, 0, 65535]"

fun addr_String :: "addr \<Rightarrow> string" where
  "addr_String ZeroAddr = ''invalid IP''"
| "addr_String (IPv4 w) = string4 (octets w)"
| "addr_String (IPv6 w z) =
     (if Is4In6 w then ''::ffff:'' @ string4 (octets (of_nat (unat w)))
      else string6 (groups w)) @ (if z = [] then [] else CHR ''%'' # z)"

definition prefix_String :: "prefix \<Rightarrow> string" where
  "prefix_String p =
     (if \<not> prefix_isValid p then ''invalid Prefix''
      else addr_String (Addr p) @ ''/'' @ Itoa (nat (Bits p)))"

subsection \<open>Digits\<close>

lemma be_digits_length [simp]: "length (be_digits b k n) = k"
  by (induction k arbitrary: n) auto

lemma be_val_snoc [simp]: "be_val b (ds @ [d]) = b * be_val b ds + d"
  by (simp add: be_val_def)

lemma be_digits_less: "0 < b \<Longrightarrow> d \<in> set (be_digits b k n) \<Longrightarrow> d < b"
  by (induction k arbitrary: n) auto

lemma be_val_digits: "n < b ^ k \<Longrightarrow> be_val b (be_digits b k n) = n"
proof (induction k arbitrary: n)
  case (Suc k)
  have "n div b < b ^ k" using Suc.prems by (simp add: less_mult_imp_div_less mult.commute)
  then show ?case using Suc.IH by simp
qed (simp add: be_val_def)

lemma of_octets: "of_nat (be_val 256 (octets w)) = w"
proof -
  have "unat w < 2 ^ LENGTH(32)" by (rule unsigned_less)
  then have "unat w < 256 ^ 4" by simp
  then show ?thesis by (simp add: octets_def be_val_digits)
qed

lemma of_groups: "of_nat (be_val 65536 (groups w)) = w"
proof -
  have "unat w < 2 ^ LENGTH(128)" by (rule unsigned_less)
  then have "unat w < 65536 ^ 8" by simp
  then show ?thesis by (simp add: groups_def be_val_digits)
qed

lemma octets_less: "d \<in> set (octets w) \<Longrightarrow> d < 256"
  by (simp add: octets_def be_digits_less)

lemma groups_less: "d \<in> set (groups w) \<Longrightarrow> d < 65536"
  by (simp add: groups_def be_digits_less)

lemma groups_length [simp]: "length (groups w) = 8" "length (octets v) = 4"
  by (simp_all add: groups_def octets_def)

subsection \<open>IPv4 text\<close>

lemma Itoa_no_leading_zero: "0 < n \<Longrightarrow> hd (Itoa n) \<noteq> CHR ''0''"
proof (induction n rule: Itoa.induct)
  case (1 n)
  show ?case
  proof (cases "n < 10")
    case True
    then have "(of_char (digit n) :: nat) = 48 + n" by (rule of_char_digit)
    then have "digit n \<noteq> CHR ''0''" using 1(2) by auto
    then show ?thesis using True by (subst Itoa.simps) simp
  next
    case False
    then show ?thesis using 1(1) by (subst Itoa.simps) (simp add: div_greater_zero_iff)
  qed
qed

lemma Itoa_plain: "length (Itoa n) = 1 \<or> hd (Itoa n) \<noteq> CHR ''0''"
proof (cases "n = 0")
  case True
  then show ?thesis by (subst (1) Itoa.simps) simp
qed (simp add: Itoa_no_leading_zero)

lemma octet_Itoa: "n < 256 \<Longrightarrow> octet (Itoa n) = Some n"
  using Itoa_digits [of n] Itoa_plain [of n] by (simp add: octet_def)

lemma parseIPv4Fields_string4:
  assumes "length f = 4" "\<And>d. d \<in> set f \<Longrightarrow> d < 256"
  shows "parseIPv4Fields (string4 f) = Some f"
proof -
  have "list_all (\<lambda>x. CHR ''.'' \<notin> set x) (map Itoa f)"
    using Itoa_digits digit_not(1) by (fastforce simp: list_all_iff)
  then have s: "Split (string4 f) (CHR ''.'') = map Itoa f"
    unfolding string4_def using assms(1) by (intro Split_Join) auto
  have o: "map octet (map Itoa f) = map Some f" using assms(2) by (simp add: octet_Itoa)
  show ?thesis unfolding parseIPv4Fields_def s o using assms(1) by (auto simp: comp_def)
qed

lemma string4_find:
  assumes "length f = 4"
  shows "\<exists>x y. string4 f = x @ CHR ''.'' # y \<and> list_all isDigit x \<and> x = Itoa (hd f)"
proof -
  have "f = hd f # hd (tl f) # tl (tl f)" using assms by (cases f; cases "tl f") auto
  then obtain a b r where "f = a # b # r" by blast
  then show ?thesis using Itoa_digits by (auto simp: string4_def)
qed

lemma find_skip: "list_all (\<lambda>c. \<not> P c) x \<Longrightarrow> List.find P (x @ y) = List.find P y"
  by (induction x) auto

lemma ParseAddr_IPv4: "netip_ParseAddr (addr_String (IPv4 w)) = Some (IPv4 w)"
proof -
  obtain x y where x: "string4 (octets w) = x @ CHR ''.'' # y" "list_all isDigit x"
    using string4_find [of "octets w"] by auto
  have "list_all (\<lambda>c. \<not> c \<in> {CHR ''.'', CHR '':'', CHR ''%''}) x"
    using x(2) by (auto simp: list_all_iff isDigit_def byte_order)
  then have "List.find (\<lambda>c. c \<in> {CHR ''.'', CHR '':'', CHR ''%''}) (string4 (octets w)) = Some (CHR ''.'')"
    unfolding x(1) by (subst find_skip) simp_all
  moreover have "parseIPv4Fields (string4 (octets w)) = Some (octets w)"
    by (rule parseIPv4Fields_string4) (simp_all add: octets_less)
  ultimately show ?thesis by (simp add: netip_ParseAddr_def parseIPv4_def of_octets)
qed

lemma Join_Itoa_bytes: "list_all (\<lambda>c. c \<noteq> CHR ''%'') (Join (map Itoa f) ''.'')"
proof (induction f)
  case (Cons n f)
  have "list_all (\<lambda>c. c \<noteq> CHR ''%'') (Itoa n)"
    using Itoa_digits [of n] by (auto simp: list_all_iff isDigit_def byte_order)
  then show ?case using Cons by (cases f) auto
qed simp

lemma Itoa_length: "n < 10 ^ Suc k \<Longrightarrow> length (Itoa n) \<le> Suc k"
proof (induction k arbitrary: n)
  case 0
  then show ?case by (subst Itoa.simps) simp
next
  case (Suc k)
  show ?case
  proof (cases "n < 10")
    case False
    have "n div 10 < 10 ^ Suc k" using Suc.prems by (simp add: less_mult_imp_div_less mult.commute)
    then show ?thesis using False Suc.IH by (subst Itoa.simps) simp
  qed (subst Itoa.simps, simp)
qed

subsection \<open>Hexadecimal groups\<close>

lemma hexdigit_props: "d < 16 \<Longrightarrow> isHex (hexdigit d) \<and> hexdigit_val (hexdigit d) = d"
proof -
  have "\<forall>d \<in> set [0..<16]. isHex (hexdigit d) \<and> hexdigit_val (hexdigit d) = d" by code_simp
  then show "d < 16 \<Longrightarrow> isHex (hexdigit d) \<and> hexdigit_val (hexdigit d) = d" by simp
qed

lemma hex_isHex: "list_all isHex (hex n)"
proof (induction n rule: hex.induct)
  case (1 n)
  then show ?case by (subst hex.simps) (simp add: hexdigit_props)
qed

lemma hex_nonempty [simp]: "hex n \<noteq> []"
  by (subst hex.simps) simp

lemma hex_val_snoc: "hex_val (s @ [c]) = 16 * hex_val s + hexdigit_val c"
  by (simp add: hex_val_def)

lemma hex_val_hex [simp]: "hex_val (hex n) = n"
proof (induction n rule: hex.induct)
  case (1 n)
  show ?case
  proof (cases "n < 16")
    case True
    then show ?thesis by (subst hex.simps) (simp add: hex_val_def hexdigit_props)
  next
    case False
    then show ?thesis using 1 by (subst hex.simps) (simp add: hex_val_snoc hexdigit_props)
  qed
qed

lemma hex_length: "n < 16 ^ Suc k \<Longrightarrow> length (hex n) \<le> Suc k"
proof (induction k arbitrary: n)
  case 0
  then show ?case by (subst hex.simps) simp
next
  case (Suc k)
  show ?case
  proof (cases "n < 16")
    case False
    have "n div 16 < 16 ^ Suc k" using Suc.prems by (simp add: less_mult_imp_div_less mult.commute)
    then show ?thesis using False Suc.IH by (subst hex.simps) simp
  qed (subst hex.simps, simp)
qed

lemma hex_length4: "n < 65536 \<Longrightarrow> length (hex n) \<le> 4"
  using hex_length [of n 3] by simp

lemma isHex_not [simp]: "\<not> isHex (CHR '':'')" "\<not> isHex (CHR ''.'')" "\<not> isHex (CHR ''%'')" "\<not> isHex (CHR ''/'')"
  by (simp_all add: isHex_def isDigit_def byte_order)

lemma hex_hd [simp]: "isHex (hd (hex n))"
  using hex_isHex [of n] hex_nonempty [of n] by (metis list.pred_set list.set_sel(1))

lemma hex_split:
  "takeWhile isHex (hex n) = hex n" "dropWhile isHex (hex n) = []"
  "takeWhile isHex (hex n @ CHR '':'' # r) = hex n" "dropWhile isHex (hex n @ CHR '':'' # r) = CHR '':'' # r"
  using hex_isHex [of n] by (simp_all add: list_all_iff)

subsection \<open>IPv6 text\<close>

definition group_list :: "nat list \<Rightarrow> bool" where
  "group_list gs \<longleftrightarrow> (\<forall>g \<in> set gs. g < 65536)"

lemma group_list_simps [simp]:
  "group_list []" "group_list (g # gs) \<longleftrightarrow> g < 65536 \<and> group_list gs"
  "group_list (xs @ ys) \<longleftrightarrow> group_list xs \<and> group_list ys"
  by (auto simp: group_list_def)

lemma Join_hex_hd: "gs \<noteq> [] \<Longrightarrow> Join (map hex gs) '':'' \<noteq> [] \<and> isHex (hd (Join (map hex gs) '':''))"
  by (cases gs; cases "tl gs") (auto simp: hd_append)

lemma isHex_not_colon: "isHex c \<Longrightarrow> c \<noteq> CHR '':''"
  by auto

lemma v6_loop_plain:
  "gs \<noteq> [] \<Longrightarrow> group_list gs \<Longrightarrow> length acc + length gs \<le> 8 \<Longrightarrow>
   v6_loop (Join (map hex gs) '':'') acc ell = Some ([], acc @ gs, ell)"
proof (induction gs arbitrary: acc)
  case (Cons g gs)
  have l: "\<not> length (hex g) > 4" using hex_length4 [of g] Cons.prems(2) by simp
  show ?case
  proof (cases "gs = []")
    case True
    then show ?thesis using Cons.prems l by (subst v6_loop.simps) (simp add: hex_split)
  next
    case False
    let ?r = "Join (map hex gs) '':''"
    have j: "Join (map hex (g # gs)) '':'' = hex g @ CHR '':'' # ?r" using False by (cases gs) auto
    have r: "?r \<noteq> []" "hd ?r \<noteq> CHR '':''" using Join_hex_hd [OF False] by auto
    have "v6_loop ?r (acc @ [g]) ell = Some ([], (acc @ [g]) @ gs, ell)"
      using Cons.prems False by (intro Cons.IH) auto
    then show ?thesis using Cons.prems l r unfolding j
      by (subst v6_loop.simps) (simp add: hex_split Let_def)
  qed
qed simp

lemma v6_loop_ellipsis:
  "pre \<noteq> [] \<Longrightarrow> group_list (pre @ post) \<Longrightarrow> length acc + length pre + length post < 8 \<Longrightarrow>
   v6_loop (Join (map hex pre) '':'' @ ''::'' @ Join (map hex post) '':'') acc None =
     Some ([], acc @ pre @ post, Some (length acc + length pre))"
proof (induction pre arbitrary: acc)
  case (Cons g pre)
  have l: "\<not> length (hex g) > 4" using hex_length4 [of g] Cons.prems(2) by simp
  let ?q = "Join (map hex post) '':''"
  show ?case
  proof (cases "pre = []")
    case True
    have t: "takeWhile isHex (hex g @ ''::'' @ ?q) = hex g" "dropWhile isHex (hex g @ ''::'' @ ?q) = ''::'' @ ?q"
      using hex_split(3,4) [of g "CHR '':'' # ?q"] by simp_all
    show ?thesis
    proof (cases "post = []")
      case True
      then show ?thesis using \<open>pre = []\<close> Cons.prems l t by (subst v6_loop.simps) (simp add: Let_def)
    next
      case False
      have "v6_loop ?q (acc @ [g]) (Some (length (acc @ [g]))) =
          Some ([], (acc @ [g]) @ post, Some (length (acc @ [g])))"
        using Cons.prems False \<open>pre = []\<close> by (intro v6_loop_plain) auto
      then show ?thesis using \<open>pre = []\<close> False Cons.prems l t Join_hex_hd [OF False]
        by (subst v6_loop.simps) (simp add: Let_def)
    qed
  next
    case False
    let ?r = "Join (map hex pre) '':'' @ ''::'' @ ?q"
    have j: "Join (map hex (g # pre)) '':'' @ ''::'' @ ?q = hex g @ CHR '':'' # ?r" using False by (cases pre) auto
    have r: "?r \<noteq> []" "hd ?r \<noteq> CHR '':''" using Join_hex_hd [OF False] by (auto simp: hd_append)
    have "v6_loop ?r (acc @ [g]) None = Some ([], (acc @ [g]) @ pre @ post, Some (length (acc @ [g]) + length pre))"
      using Cons.prems False by (intro Cons.IH) auto
    then show ?thesis using Cons.prems l r unfolding j
      by (subst v6_loop.simps) (simp add: hex_split Let_def)
  qed
qed simp

lemma zero_run_spec:
  "zero_run gs i best = best \<or>
   (\<exists>k l. zero_run gs i best = (i + k, i + k + l) \<and> 2 \<le> l \<and> k + l \<le> length gs \<and>
      gs = take k gs @ replicate l 0 @ drop (k + l) gs)"
proof (induction gs arbitrary: i best)
  case (Cons g gs)
  define l where "l = length (takeWhile (\<lambda>x. x = 0) (g # gs))"
  have split: "g # gs = replicate l 0 @ drop l (g # gs)"
    unfolding l_def by (metis (mono_tags, lifting) takeWhile_dropWhile_id dropWhile_eq_drop
        replicate_length_same set_takeWhileD)
  have le: "l \<le> length (g # gs)" unfolding l_def by (rule length_takeWhile_le)
  define b where "b = (if l \<ge> 2 \<and> l > snd best - fst best then (i, i + l) else best)"
  have z: "zero_run (g # gs) i best = zero_run gs (Suc i) b" by (simp add: b_def l_def Let_def)
  consider "zero_run gs (Suc i) b = b"
    | k m where "zero_run gs (Suc i) b = (Suc i + k, Suc i + k + m)" "2 \<le> m" "k + m \<le> length gs"
        "gs = take k gs @ replicate m 0 @ drop (k + m) gs" using Cons.IH by blast
  then show ?case
  proof cases
    case 1
    then show ?thesis using split le unfolding z b_def
      by (cases "l \<ge> 2 \<and> l > snd best - fst best") (auto intro: exI [of _ 0])
  next
    case 2
    then have "zero_run (g # gs) i best = (i + Suc k, i + Suc k + m) \<and> 2 \<le> m \<and>
      Suc k + m \<le> length (g # gs) \<and>
      g # gs = take (Suc k) (g # gs) @ replicate m 0 @ drop (Suc k + m) (g # gs)" unfolding z by simp
    then show ?thesis by blast
  qed
qed simp

lemma zero_run_cases:
  assumes "length gs = 8"
  obtains "zero_run gs 0 (255, 255) = (255, 255)"
  | a l where "zero_run gs 0 (255, 255) = (a, a + l)" "a \<noteq> 255" "2 \<le> l" "a + l \<le> 8"
      "gs = take a gs @ replicate l 0 @ drop (a + l) gs"
proof -
  consider "zero_run gs 0 (255, 255) = (255, 255)"
    | k l where "zero_run gs 0 (255, 255) = (k, k + l)" "2 \<le> l" "k + l \<le> length gs"
        "gs = take k gs @ replicate l 0 @ drop (k + l) gs"
    using zero_run_spec [of gs 0 "(255, 255)"] by auto
  then show ?thesis using that assms by cases auto
qed

lemma not_ellipsis_first: "s \<noteq> [] \<Longrightarrow> isHex (hd s) \<Longrightarrow> \<not> HasPrefix (s @ t) ''::''"
  by (cases s) (auto simp: HasPrefix_def)

lemma v6_groups_string6:
  assumes "length gs = 8" "group_list gs"
  shows "v6_groups (string6 gs) = Some gs"
  using assms(1)
proof (cases rule: zero_run_cases)
  case 1
  have ne: "gs \<noteq> []" using assms(1) by auto
  have "\<not> HasPrefix (Join (map hex gs) '':'') ''::''"
    using not_ellipsis_first [of "Join (map hex gs) '':''" "[]"] Join_hex_hd [OF ne] by simp
  moreover have "v6_loop (Join (map hex gs) '':'') [] None = Some ([], gs, None)"
    using v6_loop_plain [OF ne assms(2), of "[]"] assms(1) by simp
  ultimately show ?thesis using 1 assms(1) by (simp add: v6_groups_def string6_def)
next
  case (2 a l)
  let ?pre = "take a gs" and ?post = "drop (a + l) gs"
  have s: "string6 gs = Join (map hex ?pre) '':'' @ ''::'' @ Join (map hex ?post) '':''"
    using 2 by (simp add: string6_def)
  have gl: "group_list (?pre @ ?post)"
    using assms(2) by (auto simp: group_list_def dest: in_set_takeD in_set_dropD)
  have len: "length ?pre = a" "length ?post = 8 - (a + l)" using assms(1) 2(4) by simp_all
  have glue: "?pre @ replicate l 0 @ ?post = gs" using 2(5) by simp
  show ?thesis
  proof (cases "a = 0")
    case True
    show ?thesis
    proof (cases "?post = []")
      case True
      then have "l = 8" using len \<open>a = 0\<close> 2(4) by simp
      then show ?thesis using True \<open>a = 0\<close> s glue by (simp add: v6_groups_def HasPrefix_def)
    next
      case False
      have "v6_loop (Join (map hex ?post) '':'') [] (Some 0) = Some ([], ?post, Some 0)"
        using v6_loop_plain [OF False, of "[]" "Some 0"] gl len by simp
      then show ?thesis
        using False \<open>a = 0\<close> s glue len 2(3,4) Join_hex_hd [OF False] by (simp add: v6_groups_def HasPrefix_def)
    qed
  next
    case False
    then have ne: "?pre \<noteq> []" using len(1) by auto
    have "\<not> HasPrefix (string6 gs) ''::''" unfolding s by (rule not_ellipsis_first) (use Join_hex_hd [OF ne] in auto)
    moreover have "v6_loop (string6 gs) [] None = Some ([], ?pre @ ?post, Some a)"
      unfolding s using v6_loop_ellipsis [OF ne gl, of "[]"] len 2(3,4) by simp
    ultimately show ?thesis using len 2(3,4) glue by (simp add: v6_groups_def)
  qed
qed

text \<open>The text of an IPv6 address has hexadecimal digits, colons and dots only, and the first of its
  punctuation is a colon.\<close>

lemma string6_colon:
  assumes "length gs = 8"
  shows "\<exists>x y. string6 gs = x @ CHR '':'' # y \<and> list_all isHex x"
proof -
  have j: "\<exists>x y. Join (map hex hs) '':'' @ CHR '':'' # t = x @ CHR '':'' # y \<and> list_all isHex x" for hs t
  proof (cases hs)
    case (Cons h hs')
    then show ?thesis using hex_isHex [of h] by (cases hs') auto
  qed (auto intro: exI [of _ "[]"])
  show ?thesis using assms
  proof (cases rule: zero_run_cases)
    case 1
    have "gs = hd gs # hd (tl gs) # tl (tl gs)" using assms by (cases gs; cases "tl gs") auto
    then obtain g h t where g: "gs = g # h # t" by blast
    show ?thesis using 1 hex_isHex [of g] by (auto simp: string6_def g)
  next
    case (2 a l)
    then show ?thesis using j [of "take a gs"] by (simp add: string6_def)
  qed
qed

lemma Join_hex_bytes: "list_all (\<lambda>c. isHex c \<or> c = CHR '':'') (Join (map hex gs) '':'')"
proof (induction gs)
  case (Cons g gs)
  then show ?case using hex_isHex [of g] by (cases gs) (auto simp: list_all_iff)
qed simp

lemma string6_bytes: "list_all (\<lambda>c. isHex c \<or> c = CHR '':'') (string6 gs)"
  using Join_hex_bytes by (auto simp: string6_def split: prod.splits)

text \<open>The IPv4 tail of an IPv4-mapped address.\<close>

lemma v6_groups_mapped:
  assumes "length f = 4" "\<And>d. d \<in> set f \<Longrightarrow> d < 256"
  shows "v6_groups (''::ffff:'' @ string4 f) =
    Some [0, 0, 0, 0, 0, 65535, 256 * f ! 0 + f ! 1, 256 * f ! 2 + f ! 3]"
proof -
  obtain y where y: "string4 f = Itoa (hd f) @ CHR ''.'' # y" using string4_find [OF assms(1)] by auto
  have hexd: "list_all isHex (Itoa (hd f))" using Itoa_digits [of "hd f"] by (auto simp: list_all_iff isHex_def)
  have tw: "takeWhile isHex (string4 f) = Itoa (hd f)" "dropWhile isHex (string4 f) = CHR ''.'' # y"
    using hexd unfolding y by (simp_all add: list_all_iff)
  have "hd f < 256" using assms by (cases f) auto
  then have l: "\<not> length (Itoa (hd f)) > 4" using Itoa_length [of "hd f" 2] by simp
  have t: "v6_loop (string4 f) [65535] (Some 0) =
      Some ([], [65535, 256 * f ! 0 + f ! 1, 256 * f ! 2 + f ! 3], Some 0)"
    using l parseIPv4Fields_string4 [OF assms] by (subst v6_loop.simps) (simp add: tw Let_def)
  have e: "takeWhile isHex (''ffff:'' @ string4 f) = ''ffff''" "dropWhile isHex (''ffff:'' @ string4 f) = CHR '':'' # string4 f"
    "hex_val ''ffff'' = 65535"
  proof -
    have "isHex (CHR ''f'')" "hex_val ''ffff'' = 65535" by code_simp+
    then show "takeWhile isHex (''ffff:'' @ string4 f) = ''ffff''"
      "dropWhile isHex (''ffff:'' @ string4 f) = CHR '':'' # string4 f" "hex_val ''ffff'' = 65535" by simp_all
  qed
  have "hd (string4 f) \<noteq> CHR '':''" "string4 f \<noteq> []" using y hexd by (cases "Itoa (hd f)"; auto)+
  then have "v6_loop (''ffff:'' @ string4 f) [] (Some 0) = v6_loop (string4 f) [65535] (Some 0)"
    by (subst v6_loop.simps) (simp add: e [simplified] Let_def)
  moreover have "replicate 5 0 = [0, 0, 0, 0, 0::nat]" by (simp add: eval_nat_numeral)
  ultimately show ?thesis using t by (simp add: v6_groups_def HasPrefix_def)
qed

lemma be_digits_4: "be_digits b 4 n = [n div b div b div b mod b, n div b div b mod b, n div b mod b, n mod b]"
  by (simp add: eval_nat_numeral)

lemma be_digits_8: "be_digits b 8 n = be_digits b 6 (n div b div b) @ [n div b mod b, n mod b]"
  by (simp add: eval_nat_numeral)

lemma mapped_groups:
  assumes "Is4In6 w"
  defines "f \<equiv> octets (of_nat (unat w))"
  shows "[0, 0, 0, 0, 0, 65535, 256 * f ! 0 + f ! 1, 256 * f ! 2 + f ! 3] = groups w"
proof -
  define n where "n = unat w"
  have u: "unat (of_nat n :: 32 word) = n mod 2 ^ 32" by (simp add: unat_of_nat)
  have f: "f = [n mod 2 ^ 32 div 65536 div 256 mod 256, n mod 2 ^ 32 div 65536 mod 256,
      n mod 2 ^ 32 div 256 mod 256, n mod 2 ^ 32 mod 256]"
    unfolding f_def octets_def n_def [symmetric] u be_digits_4 by (simp add: div_mult2_eq [symmetric])
  have g: "groups w = be_digits 65536 6 (n div 65536 div 65536) @ [n div 65536 mod 65536, n mod 65536]"
    unfolding groups_def n_def [symmetric] by (rule be_digits_8)
  have hi: "be_digits 65536 6 (n div 65536 div 65536) = [0, 0, 0, 0, 0, 65535]"
    using assms(1) unfolding Is4In6_def g by simp
  have two: "256 * (x div 256 mod 256) + x mod 256 = x mod 65536" for x :: nat
    using mod_mult2_eq [of x 256 256] by simp
  have a: "256 * f ! 0 + f ! 1 = n div 65536 mod 65536"
  proof -
    have "n mod 2 ^ 32 = 65536 * (n div 65536 mod 65536) + n mod 65536" using mod_mult2_eq [of n 65536 65536] by simp
    then have "n mod 2 ^ 32 div 65536 = n div 65536 mod 65536" by simp
    then show ?thesis unfolding f using two [of "n div 65536 mod 65536"] by simp
  qed
  have b: "256 * f ! 2 + f ! 3 = n mod 65536"
    unfolding f using two [of "n mod 2 ^ 32"] by (simp add: mod_mod_cancel)
  show ?thesis unfolding g hi a b by simp
qed

lemma ParseAddr_IPv6: "netip_ParseAddr (addr_String (IPv6 w z)) = Some (IPv6 w z)"
proof -
  define t where "t = (if Is4In6 w then ''::ffff:'' @ string4 (octets (of_nat (unat w))) else string6 (groups w))"
  have g: "v6_groups t = Some (groups w)"
  proof (cases "Is4In6 w")
    case True
    then show ?thesis using v6_groups_mapped [of "octets (of_nat (unat w))"] mapped_groups [OF True]
      by (simp add: t_def octets_less)
  next
    case False
    then show ?thesis using v6_groups_string6 [of "groups w"] by (simp add: t_def group_list_def groups_less)
  qed
  have c: "\<exists>x y. t = x @ CHR '':'' # y \<and> list_all isHex x"
  proof (cases "Is4In6 w")
    case True
    then show ?thesis by (auto simp: t_def intro: exI [of _ "[]"])
  qed (use string6_colon [of "groups w"] in \<open>simp add: t_def\<close>)
  have p: "list_all (\<lambda>c. c \<noteq> CHR ''%'') t"
    using string6_bytes [of "groups w"] Join_Itoa_bytes [of "octets (of_nat (unat w))"]
    by (cases "Is4In6 w") (auto simp: t_def string4_def elim!: list.pred_mono_strong)
  have cut: "Cut (t @ (if z = [] then [] else CHR ''%'' # z)) ''%'' = (t, z, z \<noteq> [])"
    using Cut_none [OF p, of "[]"] Cut_word [OF p, of "[]" z] by simp
  obtain x y where x: "t = x @ CHR '':'' # y" "list_all isHex x" using c by blast
  have "list_all (\<lambda>c. \<not> c \<in> {CHR ''.'', CHR '':'', CHR ''%''}) x" using x(2) by (auto simp: list_all_iff)
  then have "List.find (\<lambda>c. c \<in> {CHR ''.'', CHR '':'', CHR ''%''}) (t @ r) = Some (CHR '':'')" for r
    unfolding x(1) append_assoc by (subst find_skip) simp_all
  then show ?thesis using cut g
    by (simp add: netip_ParseAddr_def parseIPv6_def t_def [symmetric] of_groups)
qed

lemma ParseAddr_String: "a \<noteq> ZeroAddr \<Longrightarrow> netip_ParseAddr (addr_String a) = Some a"
  by (cases a) (auto simp: ParseAddr_IPv4 ParseAddr_IPv6 simp del: addr_String.simps)

lemma ParsePrefix_String:
  assumes "wf_prefix p" "prefix_isValid p"
  shows "netip_ParsePrefix (prefix_String p) = Some p"
proof -
  let ?b = "Itoa (nat (Bits p))"
  have a: "Addr p \<noteq> ZeroAddr" "zone (Addr p) = []" "0 \<le> Bits p" "Bits p \<le> BitLen (Addr p)"
    using assms by (auto simp: wf_prefix_def prefix_isValid_def)
  have s: "prefix_String p = addr_String (Addr p) @ CHR ''/'' # ?b"
    using assms(2) by (simp add: prefix_String_def)
  have d: "list_all isDigit ?b" by (rule Itoa_digits)
  have tw: "takeWhile (\<lambda>c. c \<noteq> CHR ''/'') (rev (prefix_String p)) = rev ?b"
    unfolding s using d digit_not(7) by (auto simp: list_all_iff takeWhile_append2 takeWhile_append)
  have t: "take (length (prefix_String p) - length ?b - 1) (prefix_String p) = addr_String (Addr p)"
    unfolding s by simp
  have p: "PrefixFrom (Addr p) (Bits p) = p"
    using a by (cases p) (simp add: PrefixFrom_def withoutZone_id)
  show ?thesis
    unfolding netip_ParsePrefix_def tw rev_rev_ident Let_def t
    using a d Itoa_plain [of "nat (Bits p)"] p by (auto simp: ParseAddr_String s)
qed

end
