(* ===== verification/Text_Forms.thy ===== *)
theory Text_Forms
  imports Netip_Text Names Prefix_Range Prefix_Space
begin

text \<open>
  The text forms of the remaining value types: addresses and prefixes the RPSL way
  (\<^verbatim>\<open>src/types/addr.go\<close>), range operators (\<^verbatim>\<open>rangeop.go\<close>), prefix ranges (\<^verbatim>\<open>prefixrange.go\<close>), address
  families (\<^verbatim>\<open>addrfamily.go\<close>), routers (\<^verbatim>\<open>routerid.go\<close>) and the \<^verbatim>\<open>MarshalText\<close>/\<^verbatim>\<open>UnmarshalText\<close> pairs of
  \<^verbatim>\<open>text.go\<close>.
\<close>

subsection \<open>Addresses and prefixes\<close>

text \<open>The loop of \<^verbatim>\<open>unpadIPv4\<close> over the octets, with the flag that one was padded.\<close>

fun unpad_loop :: "string list \<Rightarrow> (string list \<times> bool) option" where
  "unpad_loop [] = Some ([], False)"
| "unpad_loop (oct # octs) =
     (if oct = [] \<or> Trim oct ''0123456789'' \<noteq> [] then None
      else let pad = length oct > 1 \<and> hd oct = CHR ''0'';
               z = dropWhile (\<lambda>c. c = CHR ''0'') oct;
               oct' = (if pad then if z = [] then ''0'' else z else oct) in
        map_option (\<lambda>(octs', padded). (oct' # octs', pad \<or> padded)) (unpad_loop octs))"

definition unpadIPv4 :: "string \<Rightarrow> string option" where
  "unpadIPv4 s =
     (let octs = Split s (CHR ''.'') in
      if length octs \<noteq> 4 then None
      else case unpad_loop octs of
             None \<Rightarrow> None
           | Some (octs', padded) \<Rightarrow> if \<not> padded then None else Some (Join octs' ''.''))"

definition fillIPv4 :: "string \<Rightarrow> string \<Rightarrow> string" where
  "fillIPv4 addr bits =
     (if bits = [] \<or> Trim bits ''0123456789'' \<noteq> [] then addr
      else let octs = Split addr (CHR ''.'') in
        if length octs > 3 then addr
        else if list_ex (\<lambda>oct. oct = [] \<or> Trim oct ''0123456789'' \<noteq> [] \<or> dec_val oct > 255) octs then addr
        else addr @ concat (replicate (4 - length octs) ''.0''))"

definition ParseAddr :: "string \<Rightarrow> addr option" where
  "ParseAddr s = netip_ParseAddr (case unpadIPv4 s of Some canon \<Rightarrow> canon | None \<Rightarrow> s)"

definition ParsePrefix :: "string \<Rightarrow> prefix option" where
  "ParsePrefix s =
     (let (addr, bits, found) = Cut s ''/'' in
      netip_ParsePrefix
        (if found
         then let addr = fillIPv4 addr bits in
              (case unpadIPv4 addr of Some canon \<Rightarrow> canon | None \<Rightarrow> addr) @ ''/'' @ bits
         else s))"

definition PaddedIPv4 :: "string \<Rightarrow> bool" where
  "PaddedIPv4 s =
     (let (addr, bits, found) = Cut s ''/'' in
      unpadIPv4 (if found then fillIPv4 addr bits else addr) \<noteq> None)"

definition AbbreviatedIPv4 :: "string \<Rightarrow> bool" where
  "AbbreviatedIPv4 s = (let (addr, bits, found) = Cut s ''/'' in found \<and> fillIPv4 addr bits \<noteq> addr)"

subsection \<open>Range operators\<close>

definition parseBits :: "string \<Rightarrow> u8 option" where
  "parseBits s =
     (if length s = 0 \<or> length s > 3 then None
      else if \<not> list_all isDigit s then None
      else if dec_val s > 128 then None
      else Some (of_nat (dec_val s)))"

definition ParseRangeOperator :: "string \<Rightarrow> RangeOperator option" where
  "ParseRangeOperator s =
     (if s = ''+'' then Some \<lparr>Op = RangePlus, opN = 0, opM = 0\<rparr>
      else if s = ''-'' then Some \<lparr>Op = RangeMinus, opN = 0, opM = 0\<rparr>
      else let (lo, hi, isRange) = Cut s ''-'' in
        case parseBits lo of
          None \<Rightarrow> None
        | Some n \<Rightarrow>
            if \<not> isRange then Some \<lparr>Op = RangeLength, opN = n, opM = n\<rparr>
            else (case parseBits hi of
                    None \<Rightarrow> None
                  | Some m \<Rightarrow>
                      if m < n then None else Some \<lparr>Op = RangeRange, opN = n, opM = m\<rparr>))"

definition op_String :: "RangeOperator \<Rightarrow> string" where
  "op_String oper =
     (case Op oper of
        RangePlus \<Rightarrow> ''^+''
      | RangeMinus \<Rightarrow> ''^-''
      | RangeLength \<Rightarrow> ''^'' @ Itoa (unat (opN oper))
      | RangeRange \<Rightarrow> ''^'' @ Itoa (unat (opN oper)) @ ''-'' @ Itoa (unat (opM oper))
      | RangeExact \<Rightarrow> [])"

definition zeroOp :: RangeOperator where
  "zeroOp = \<lparr>Op = RangeExact, opN = 0, opM = 0\<rparr>"

definition op_UnmarshalText :: "string \<Rightarrow> RangeOperator option" where
  "op_UnmarshalText b = (if length b = 0 then Some zeroOp else ParseRangeOperator (TrimPrefix b ''^''))"

subsection \<open>Prefix ranges\<close>

definition ParsePrefixRange :: "string \<Rightarrow> PrefixRange option" where
  "ParsePrefixRange s =
     (let t = Trim s blanks; (pfxStr, opStr, hasOp) = Cut t ''^'' in
      case ParsePrefix pfxStr of
        None \<Rightarrow> None
      | Some pfx \<Rightarrow>
          let pfx = Masked pfx; bits = Bits pfx; maxBits = BitLen (Addr pfx) in
          if \<not> hasOp then Some \<lparr>rprefix = pfx, rlo = of_int bits, rhi = of_int bits\<rparr>
          else case ParseRangeOperator opStr of
                 None \<Rightarrow> None
               | Some oper \<Rightarrow>
                   (case Op oper of
                      RangePlus \<Rightarrow> Some \<lparr>rprefix = pfx, rlo = of_int bits, rhi = of_int maxBits\<rparr>
                    | RangeMinus \<Rightarrow> Some \<lparr>rprefix = pfx, rlo = of_int (bits + 1), rhi = of_int maxBits\<rparr>
                    | _ \<Rightarrow>
                        if uint (opN oper) < bits \<or> uint (opM oper) > maxBits then None
                        else Some \<lparr>rprefix = pfx, rlo = opN oper, rhi = opM oper\<rparr>))"

definition range_String :: "PrefixRange \<Rightarrow> string" where
  "range_String r =
     (if range_IsZero r then []
      else let p = prefix_String (rprefix r) in
        case range_Op r of
          RangePlus \<Rightarrow> p @ ''^+''
        | RangeMinus \<Rightarrow> p @ ''^-''
        | RangeLength \<Rightarrow> p @ ''^'' @ Itoa (unat (rlo r))
        | RangeRange \<Rightarrow> p @ ''^'' @ Itoa (unat (rlo r)) @ ''-'' @ Itoa (unat (rhi r))
        | RangeExact \<Rightarrow> p)"

definition range_UnmarshalText :: "string \<Rightarrow> PrefixRange option" where
  "range_UnmarshalText b = (if length b = 0 then Some zeroRange else ParsePrefixRange b)"

subsection \<open>Address families\<close>

datatype SAFI = SAFIUnspecified | SAFIUnicast | SAFIMulticast

record AddrFamily =
  fAFI :: AFI
  fSAFI :: SAFI

text \<open>
  \<^verbatim>\<open>strings.ToLower\<close> on text that need not be ASCII: two non-ASCII letters have an ASCII lower case,
  the dotted capital I (bytes C4 B0) and the Kelvin sign (E2 84 AA).  Every other non-ASCII letter
  has a non-ASCII lower case and is left as it is, for the callers only compare with ASCII words.
\<close>

fun go_ToLower :: "string \<Rightarrow> string" where
  "go_ToLower [] = []"
| "go_ToLower (c # s) =
     (if c = CHR 0xC4 \<and> HasPrefix s [CHR 0xB0] then CHR ''i'' # go_ToLower (drop 1 s)
      else if c = CHR 0xE2 \<and> HasPrefix s [CHR 0x84, CHR 0xAA] then CHR ''k'' # go_ToLower (drop 2 s)
      else lower c # go_ToLower s)"

definition ParseAddrFamily :: "string \<Rightarrow> AddrFamily option" where
  "ParseAddrFamily s =
     (let t = go_ToLower (Trim s blanks) in
      if t = [] then None
      else let (left, right, hasDot) = Cut t ''.'';
               afi = (if left = ''ipv4'' then Some AFIv4
                      else if left = ''ipv6'' then Some AFIv6
                      else if left = ''any'' then Some AFIAny
                      else None) in
        case afi of
          None \<Rightarrow> None
        | Some a \<Rightarrow>
            if \<not> hasDot then Some \<lparr>fAFI = a, fSAFI = SAFIUnspecified\<rparr>
            else if right = ''unicast'' then Some \<lparr>fAFI = a, fSAFI = SAFIUnicast\<rparr>
            else if right = ''multicast'' then Some \<lparr>fAFI = a, fSAFI = SAFIMulticast\<rparr>
            else None)"

fun AFI_String :: "AFI \<Rightarrow> string" where
  "AFI_String AFIv4 = ''ipv4''"
| "AFI_String AFIv6 = ''ipv6''"
| "AFI_String AFIAny = ''any''"
| "AFI_String AFIUnspecified = ''unspecified''"

fun SAFI_String :: "SAFI \<Rightarrow> string" where
  "SAFI_String SAFIUnicast = ''unicast''"
| "SAFI_String SAFIMulticast = ''multicast''"
| "SAFI_String SAFIUnspecified = ''unspecified''"

definition family_String :: "AddrFamily \<Rightarrow> string" where
  "family_String a =
     (if fSAFI a = SAFIUnspecified then AFI_String (fAFI a)
      else AFI_String (fAFI a) @ ''.'' @ SAFI_String (fSAFI a))"

definition Covers :: "AddrFamily \<Rightarrow> AddrFamily \<Rightarrow> bool" where
  "Covers a b =
     (if fAFI a \<noteq> AFIAny \<and> fAFI a \<noteq> fAFI b then False
      else if fSAFI a \<noteq> SAFIUnspecified \<and> fSAFI a \<noteq> fSAFI b then False
      else True)"

definition zeroFamily :: AddrFamily where
  "zeroFamily = \<lparr>fAFI = AFIUnspecified, fSAFI = SAFIUnspecified\<rparr>"

definition family_MarshalText :: "AddrFamily \<Rightarrow> string" where
  "family_MarshalText a = (if a = zeroFamily then [] else family_String a)"

definition family_UnmarshalText :: "string \<Rightarrow> AddrFamily option" where
  "family_UnmarshalText b = (if length b = 0 then Some zeroFamily else ParseAddrFamily b)"

subsection \<open>Routers\<close>

record RouterID =
  rid_addr :: addr
  rid_name :: string

definition zeroRouter :: RouterID where
  "zeroRouter = \<lparr>rid_addr = ZeroAddr, rid_name = []\<rparr>"

definition MaxRouterNameLen :: nat where
  "MaxRouterNameLen = 253"

fun Unmap :: "addr \<Rightarrow> addr" where
  "Unmap (IPv6 w z) = (if Is4In6 w then IPv4 (of_nat (unat w)) else IPv6 w z)"
| "Unmap a = a"

definition validRouterName :: "string \<Rightarrow> bool" where
  "validRouterName name =
     (if name = [] then False
      else if length name > MaxRouterNameLen then False
      else let labels = Split name (CHR ''.''); lst = List.last labels in
        if lst \<noteq> [] \<and> Trim lst ''0123456789'' = [] then False
        else list_all (\<lambda>label.
               label \<noteq> [] \<and> length label \<le> 63 \<and> hd label \<noteq> CHR ''-'' \<and> List.last label \<noteq> CHR ''-'' \<and>
               list_all (\<lambda>c. isLetter c \<or> isDigit c \<or> c = CHR ''-'') label) labels)"

definition ParseRouterID :: "string \<Rightarrow> RouterID option" where
  "ParseRouterID s =
     (let t = TrimSuffix (Trim s blanks) ''.'' in
      if t = [] then None
      else case ParseAddr t of
             Some a \<Rightarrow> Some \<lparr>rid_addr = withoutZone (Unmap a), rid_name = []\<rparr>
           | None \<Rightarrow>
               if \<not> validRouterName t then None
               else Some \<lparr>rid_addr = ZeroAddr, rid_name = ToLower t\<rparr>)"

definition router_IsZero :: "RouterID \<Rightarrow> bool" where
  "router_IsZero r \<longleftrightarrow> \<not> addr_isValid (rid_addr r) \<and> rid_name r = []"

definition router_String :: "RouterID \<Rightarrow> string" where
  "router_String r = (if addr_isValid (rid_addr r) then addr_String (rid_addr r) else rid_name r)"

definition router_UnmarshalText :: "string \<Rightarrow> RouterID option" where
  "router_UnmarshalText b = (if length b = 0 then Some zeroRouter else ParseRouterID b)"

subsection \<open>Runs of digits\<close>

lemma digits_upt: "map digit [0..<10] = ''0123456789''"
  by code_simp

lemma isDigit_digit_val: "isDigit c \<Longrightarrow> digit_val c < 10 \<and> c = digit (digit_val c)"
  unfolding isDigit_def byte_order digit_val_def digit_def by auto

lemma digit_set: "isDigit c \<longleftrightarrow> c \<in> set ''0123456789''"
proof
  assume "isDigit c"
  then have "c \<in> digit ` {0..<10}" using isDigit_digit_val [of c] by auto
  then show "c \<in> set ''0123456789''" unfolding digits_upt [symmetric] by simp
next
  assume "c \<in> set ''0123456789''"
  then show "isDigit c" unfolding digits_upt [symmetric] by auto
qed

lemma Trim_Nil_iff: "Trim s cs = [] \<longleftrightarrow> set s \<subseteq> set cs"
proof -
  let ?t = "dropWhile (\<lambda>c. c \<in> set cs) s"
  have "Trim s cs = [] \<longleftrightarrow> (\<forall>c \<in> set ?t. c \<in> set cs)" by (simp add: Trim_def)
  also have "\<dots> \<longleftrightarrow> ?t = []" 
  proof (cases "?t = []")
    case False
    then have "hd ?t \<notin> set cs" "hd ?t \<in> set ?t"
      using hd_dropWhile [of "\<lambda>c. c \<in> set cs" s] hd_in_set [of ?t] by simp_all
    then show ?thesis using False by blast
  next
    case True
    show ?thesis unfolding True by simp
  qed
  also have "\<dots> \<longleftrightarrow> set s \<subseteq> set cs" by auto
  finally show ?thesis .
qed

lemma Trim_digits [simp]: "Trim s ''0123456789'' = [] \<longleftrightarrow> list_all isDigit s"
  unfolding Trim_Nil_iff list_all_iff digit_set by blast

subsection \<open>Octets in decimal, padded or missing\<close>

text \<open>What \<^verbatim>\<open>unpadIPv4\<close> makes of one octet.\<close>

definition unpad :: "string \<Rightarrow> string" where
  "unpad oct =
     (let z = dropWhile (\<lambda>c. c = CHR ''0'') oct in
      if length oct > 1 \<and> hd oct = CHR ''0'' then if z = [] then ''0'' else z else oct)"

lemma unpad_loop_digits:
  "list_all (\<lambda>oct. oct \<noteq> [] \<and> list_all isDigit oct) octs \<Longrightarrow>
   unpad_loop octs = Some (map unpad octs, \<exists>oct \<in> set octs. length oct > 1 \<and> hd oct = CHR ''0'')"
  by (induction octs) (auto simp: unpad_def Let_def)

lemma unpad_loop_None:
  "\<not> list_all (\<lambda>oct. oct \<noteq> [] \<and> list_all isDigit oct) octs \<Longrightarrow> unpad_loop octs = None"
  by (induction octs) (auto simp: Let_def)

lemma dec_val_zeros: "dec_val (CHR ''0'' # s) = dec_val s"
  by (simp add: dec_val_def digit_val_def)

lemma dec_val_dropWhile: "dec_val (dropWhile (\<lambda>c. c = CHR ''0'') s) = dec_val s"
  by (induction s) (auto simp: dec_val_zeros)

lemma unpad_octet:
  assumes "oct \<noteq> []" "list_all isDigit oct" "dec_val oct \<le> 255"
  shows "octet (unpad oct) = Some (dec_val oct)"
proof -
  let ?z = "dropWhile (\<lambda>c. c = CHR ''0'') oct"
  have d: "list_all isDigit ?z" using assms(2) by (auto simp: list_all_iff dest: set_dropWhileD)
  have h: "?z \<noteq> [] \<Longrightarrow> hd ?z \<noteq> CHR ''0''" by (rule hd_dropWhile)
  have v: "dec_val ?z = dec_val oct" by (rule dec_val_dropWhile)
  have zero: "octet ''0'' = Some 0" by code_simp
  show ?thesis
  proof (cases "length oct > 1 \<and> hd oct = CHR ''0''")
    case True
    show ?thesis
    proof (cases "?z = []")
      case True
      have "dec_val oct = dec_val []" using v unfolding True by (rule sym)
      then have "dec_val oct = 0" by (simp add: dec_val_def)
      then show ?thesis using True \<open>length oct > 1 \<and> hd oct = CHR ''0''\<close> zero by (simp add: unpad_def)
    next
      case False
      then have "octet ?z = Some (dec_val oct)" using d h v assms(3) by (simp add: octet_def)
      then show ?thesis using False True by (auto simp: unpad_def)
    qed
  next
    case False
    then have "unpad oct = oct" by (auto simp: unpad_def Let_def)
    moreover have "length oct = 1 \<or> hd oct \<noteq> CHR ''0''" using False assms(1) by (cases oct) auto
    ultimately show ?thesis using assms by (simp add: octet_def)
  qed
qed

lemma octet_list_dots: "list_all (\<lambda>oct. oct \<noteq> [] \<and> list_all isDigit oct) octs \<Longrightarrow>
    list_all (\<lambda>x. CHR ''.'' \<notin> set x) octs"
  using digit_not(1) by (fastforce simp: list_all_iff)

lemma unpad_digits:
  assumes "oct \<noteq> [] \<and> list_all isDigit oct"
  shows "unpad oct \<noteq> [] \<and> list_all isDigit (unpad oct)"
proof -
  have "list_all isDigit (dropWhile (\<lambda>c. c = CHR ''0'') oct)"
    using assms by (auto simp: list_all_iff dest: set_dropWhileD)
  moreover have "isDigit (CHR ''0'')" by code_simp
  ultimately show ?thesis using assms by (simp add: unpad_def Let_def)
qed

text \<open>The address that dot-separated decimal octets denote.\<close>

lemma fields_of_octets:
  assumes "length octs = 4" "list_all (\<lambda>oct. oct \<noteq> [] \<and> list_all isDigit oct \<and> dec_val oct \<le> 255) octs"
  shows "parseIPv4Fields (Join (map unpad octs) ''.'') = Some (map dec_val octs)"
proof -
  have d: "list_all (\<lambda>oct. oct \<noteq> [] \<and> list_all isDigit oct) (map unpad octs)"
    using assms(2) unpad_digits by (fastforce simp: list_all_iff)
  have "map unpad octs \<noteq> []" using assms(1) by auto
  then have s: "Split (Join (map unpad octs) ''.'') (CHR ''.'') = map unpad octs"
    by (rule Split_Join) (rule octet_list_dots [OF d])
  have o: "map octet (map unpad octs) = map (Some \<circ> dec_val) octs"
    using assms(2) unpad_octet by (simp add: list_all_iff)
  show ?thesis unfolding parseIPv4Fields_def s o using assms(1) by (auto simp: comp_def)
qed

lemma unpadded_same:
  assumes "list_all (\<lambda>oct. oct \<noteq> [] \<and> list_all isDigit oct) octs"
    "\<not> (\<exists>oct \<in> set octs. length oct > 1 \<and> hd oct = CHR ''0'')"
  shows "map unpad octs = octs"
proof -
  have "unpad oct = oct" if "oct \<in> set octs" for oct
    using that assms(2) unfolding unpad_def Let_def by (metis (no_types, lifting))
  then show ?thesis by (simp add: map_idI)
qed

lemma Join_dot_find:
  assumes "length octs = 4" "list_all (\<lambda>oct. list_all isDigit oct) octs"
  shows "List.find (\<lambda>c. c \<in> {CHR ''.'', CHR '':'', CHR ''%''}) (Join octs ''.'') = Some (CHR ''.'')"
proof -
  have "octs = hd octs # hd (tl octs) # tl (tl octs)" using assms(1) by (cases octs; cases "tl octs") auto
  then obtain a b r where o: "octs = a # b # r" by blast
  have "list_all (\<lambda>c. \<not> c \<in> {CHR ''.'', CHR '':'', CHR ''%''}) a"
    using assms(2) unfolding o by (auto simp: list_all_iff isDigit_def byte_order)
  then show ?thesis unfolding o by (simp add: find_skip)
qed

lemma ParseAddr_octets:
  assumes "length octs = 4" "list_all (\<lambda>oct. oct \<noteq> [] \<and> list_all isDigit oct \<and> dec_val oct \<le> 255) octs"
  shows "(case unpadIPv4 (Join octs ''.'') of Some canon \<Rightarrow> canon | None \<Rightarrow> Join octs ''.'') = Join (map unpad octs) ''.''"
    "netip_ParseAddr (Join (map unpad octs) ''.'') = Some (IPv4 (of_nat (be_val 256 (map dec_val octs))))"
proof -
  have d: "list_all (\<lambda>oct. oct \<noteq> [] \<and> list_all isDigit oct) octs" using assms(2) by (auto simp: list_all_iff)
  have "octs \<noteq> []" using assms(1) by auto
  then have s: "Split (Join octs ''.'') (CHR ''.'') = octs" by (rule Split_Join) (rule octet_list_dots [OF d])
  show "(case unpadIPv4 (Join octs ''.'') of Some canon \<Rightarrow> canon | None \<Rightarrow> Join octs ''.'') = Join (map unpad octs) ''.''"
    unfolding unpadIPv4_def Let_def s unpad_loop_digits [OF d]
    using assms(1) unpadded_same [OF d] by simp
  have u: "list_all (\<lambda>oct. list_all isDigit oct) (map unpad octs)"
    using d unpad_digits by (fastforce simp: list_all_iff)
  show "netip_ParseAddr (Join (map unpad octs) ''.'') = Some (IPv4 (of_nat (be_val 256 (map dec_val octs))))"
    unfolding netip_ParseAddr_def using Join_dot_find [OF _ u] assms(1)
    by (simp add: parseIPv4_def fields_of_octets [OF assms])
qed

text \<open>A prefix of one to four octets: the missing ones are zero.\<close>

lemma Split_octets:
  assumes "octs \<noteq> []" "list_all (\<lambda>oct. oct \<noteq> [] \<and> list_all isDigit oct) octs"
  shows "Split (Join octs ''.'') (CHR ''.'') = octs"
  by (rule Split_Join [OF assms(1) octet_list_dots [OF assms(2)]])

lemma Join_zeros: "octs \<noteq> [] \<Longrightarrow> Join octs ''.'' @ concat (replicate k ''.0'') = Join (octs @ replicate k ''0'') ''.''"
proof (induction k arbitrary: octs)
  case (Suc k)
  have j: "Join octs ''.'' @ ''.0'' = Join (octs @ [''0'']) ''.''" if "octs \<noteq> []" for octs
    using that by (induction octs "''.''" rule: Join.induct) auto
  have "Join octs ''.'' @ concat (replicate (Suc k) ''.0'') = (Join octs ''.'' @ ''.0'') @ concat (replicate k ''.0'')" by simp
  also have "\<dots> = Join (octs @ [''0'']) ''.'' @ concat (replicate k ''.0'')" by (simp only: j [OF Suc.prems])
  also have "\<dots> = Join ((octs @ [''0'']) @ replicate k ''0'') ''.''" by (rule Suc.IH) simp
  finally show ?case by simp
qed simp

lemma fill_octets:
  assumes "octs \<noteq> []" "length octs \<le> 4"
    "list_all (\<lambda>oct. oct \<noteq> [] \<and> list_all isDigit oct \<and> dec_val oct \<le> 255) octs" "b \<noteq> []" "list_all isDigit b"
  shows "fillIPv4 (Join octs ''.'') b = Join (octs @ replicate (4 - length octs) ''0'') ''.''"
proof -
  have d: "list_all (\<lambda>oct. oct \<noteq> [] \<and> list_all isDigit oct) octs" using assms(3) by (auto simp: list_all_iff)
  have ex: "\<not> list_ex (\<lambda>oct. oct = [] \<or> Trim oct ''0123456789'' \<noteq> [] \<or> dec_val oct > 255) octs"
    using assms(3) by (auto simp: list_all_iff list_ex_iff)
  show ?thesis
  proof (cases "length octs = 4")
    case True
    then show ?thesis using assms(4,5) by (simp add: fillIPv4_def Split_octets [OF assms(1) d])
  next
    case False
    then show ?thesis
      using assms(2,4,5) ex Join_zeros [OF assms(1), of "4 - length octs"]
      by (simp add: fillIPv4_def Split_octets [OF assms(1) d] del: Trim_digits)
        (simp add: Let_def)
  qed
qed

lemma be_val_append: "be_val b (xs @ ys) = be_val b xs * b ^ length ys + be_val b ys"
  by (induction ys rule: rev_induct) (simp_all add: be_val_def algebra_simps flip: append_assoc)

lemma netip_ParsePrefix_slash:
  assumes "list_all isDigit b"
  shows "netip_ParsePrefix (t @ CHR ''/'' # b) =
    (case netip_ParseAddr t of
       None \<Rightarrow> None
     | Some a \<Rightarrow>
         if zone a \<noteq> [] \<or> b = [] \<or> (length b > 1 \<and> hd b = CHR ''0'') \<or> int (dec_val b) > BitLen a then None
         else Some (PrefixFrom a (int (dec_val b))))"
proof -
  let ?s = "t @ CHR ''/'' # b"
  have tw: "takeWhile (\<lambda>c. c \<noteq> CHR ''/'') (rev ?s) = rev b"
    using assms digit_not(7) by (auto simp: list_all_iff takeWhile_append2 takeWhile_append)
  have t: "take (length ?s - length b - 1) ?s = t" by simp
  show ?thesis
    unfolding netip_ParsePrefix_def tw rev_rev_ident Let_def t using assms by (auto split: option.split)
qed

lemma Itoa_no_slash: "list_all (\<lambda>c. c \<noteq> CHR ''/'') (Itoa n)"
  using Itoa_digits [of n] digit_not(7) by (auto simp: list_all_iff)

lemma digits_no_slash: "list_all isDigit x \<Longrightarrow> list_all (\<lambda>c. c \<noteq> CHR ''/'') x"
  using digit_not(7) by (auto simp: list_all_iff)

lemma octets_no_slash:
  "list_all (\<lambda>oct. oct \<noteq> [] \<and> list_all isDigit oct) octs \<Longrightarrow> list_all (\<lambda>c. c \<noteq> CHR ''/'') (Join octs ''.'')"
  by (induction octs "''.''" rule: Join.induct) (auto simp: digits_no_slash)

lemma ParsePrefix_octets:
  assumes "octs \<noteq> []" "length octs \<le> 4" "n \<le> 32"
    "list_all (\<lambda>oct. oct \<noteq> [] \<and> list_all isDigit oct \<and> dec_val oct \<le> 255) octs"
  shows "ParsePrefix (Join octs ''.'' @ ''/'' @ Itoa n) =
    Some (PrefixFrom (IPv4 (of_nat (be_val 256 (map dec_val octs @ replicate (4 - length octs) 0)))) (int n))"
proof -
  let ?o = "octs @ replicate (4 - length octs) ''0''"
  have d: "list_all (\<lambda>oct. oct \<noteq> [] \<and> list_all isDigit oct) octs" using assms(4) by (auto simp: list_all_iff)
  have cut: "Cut (Join octs ''.'' @ ''/'' @ Itoa n) ''/'' = (Join octs ''.'', Itoa n, True)"
    using Cut_word [OF octets_no_slash [OF d], of "[]" "Itoa n"] by simp
  have fill: "fillIPv4 (Join octs ''.'') (Itoa n) = Join ?o ''.''"
    by (rule fill_octets [OF assms(1,2,4)]) (simp_all add: Itoa_digits)
  have zero: "list_all isDigit ''0''" "dec_val ''0'' = 0" by code_simp+
  have four: "length ?o = 4" using assms(2) by simp
  have ok: "list_all (\<lambda>oct. oct \<noteq> [] \<and> list_all isDigit oct \<and> dec_val oct \<le> 255) ?o"
    using assms(4) zero by (auto simp: list_all_iff)
  have vals: "map dec_val ?o = map dec_val octs @ replicate (4 - length octs) 0" using zero(2) by simp
  have "ParsePrefix (Join octs ''.'' @ ''/'' @ Itoa n) = netip_ParsePrefix (Join (map unpad ?o) ''.'' @ CHR ''/'' # Itoa n)"
    unfolding ParsePrefix_def cut by (simp add: fill ParseAddr_octets(1) [OF four ok] del: map_append)
  also have "\<dots> = Some (PrefixFrom (IPv4 (of_nat (be_val 256 (map dec_val ?o)))) (int n))"
    unfolding netip_ParsePrefix_slash [OF Itoa_digits] ParseAddr_octets(2) [OF four ok]
    using assms(3) Itoa_plain [of n] by auto
  finally show ?thesis unfolding vals .
qed

subsection \<open>Printed addresses are read as they are\<close>

lemma in_Join_Split: "c \<in> set s \<Longrightarrow> c \<noteq> d \<Longrightarrow> \<exists>x \<in> set (Split s d). c \<in> set x"
proof (induction s)
  case (Cons b s)
  obtain y ys where "Split s d = y # ys" by (cases "Split s d") auto
  then show ?case using Cons by (cases "b = d") auto
qed simp

lemma colon_not_digits: "CHR '':'' \<in> set s \<Longrightarrow> \<exists>x \<in> set (Split s (CHR ''.'')). \<not> list_all isDigit x"
  using in_Join_Split [of "CHR '':''" s "CHR ''.''"] digit_not(2) by (fastforce simp: list_all_iff)

lemma unpadIPv4_colon: "CHR '':'' \<in> set s \<Longrightarrow> unpadIPv4 s = None"
proof -
  assume "CHR '':'' \<in> set s"
  then have "\<not> list_all (\<lambda>oct. oct \<noteq> [] \<and> list_all isDigit oct) (Split s (CHR ''.''))"
    using colon_not_digits [of s] unfolding list_all_iff [of "\<lambda>oct. oct \<noteq> [] \<and> list_all isDigit oct"] by blast
  then show ?thesis by (simp add: unpadIPv4_def Let_def unpad_loop_None)
qed

lemma fillIPv4_colon: "CHR '':'' \<in> set s \<Longrightarrow> fillIPv4 s b = s"
  using colon_not_digits [of s] by (auto simp: fillIPv4_def Let_def list_ex_iff)

lemma addr_text_colon: "CHR '':'' \<in> set (addr_String (IPv6 w z))"
proof (cases "Is4In6 w")
  case False
  then show ?thesis using string6_colon [of "groups w"] by auto
qed simp

lemma string4_not_padded: "length f = 4 \<Longrightarrow> unpadIPv4 (string4 f) = None"
proof -
  assume l: "length f = 4"
  have d: "list_all (\<lambda>oct. oct \<noteq> [] \<and> list_all isDigit oct) (map Itoa f)"
    using Itoa_digits by (auto simp: list_all_iff)
  have s: "Split (string4 f) (CHR ''.'') = map Itoa f"
    unfolding string4_def using l by (intro Split_octets d) auto
  have "\<not> (\<exists>oct \<in> set (map Itoa f). length oct > 1 \<and> hd oct = CHR ''0'')"
    using Itoa_plain by (metis (no_types, lifting) ex_map_conv less_irrefl)
  then show ?thesis unfolding unpadIPv4_def Let_def s unpad_loop_digits [OF d] by simp
qed

lemma addr_text_unpad: "a \<noteq> ZeroAddr \<Longrightarrow> unpadIPv4 (addr_String a) = None"
  by (cases a) (auto simp: string4_not_padded unpadIPv4_colon addr_text_colon simp del: addr_String.simps(3))

lemma addr_text_fill: "a \<noteq> ZeroAddr \<Longrightarrow> fillIPv4 (addr_String a) b = addr_String a"
proof (cases a)
  case (IPv4 w)
  have "octets w \<noteq> []" using groups_length(2) [of w] by (metis list.size(3) zero_neq_numeral)
  then have "Split (string4 (octets w)) (CHR ''.'') = map Itoa (octets w)"
    unfolding string4_def using Itoa_digits by (intro Split_octets) (auto simp: list_all_iff)
  then show ?thesis using IPv4 by (simp add: fillIPv4_def)
qed (auto simp: fillIPv4_colon addr_text_colon simp del: addr_String.simps(3))

lemma ParseAddr_text: "a \<noteq> ZeroAddr \<Longrightarrow> ParseAddr (addr_String a) = Some a"
  by (simp add: ParseAddr_def addr_text_unpad ParseAddr_String)

lemma addr_text_no_slash: "a \<noteq> ZeroAddr \<Longrightarrow> zone a = [] \<Longrightarrow> list_all (\<lambda>c. c \<noteq> CHR ''/'' \<and> c \<noteq> CHR ''^'' \<and> c \<notin> set blanks) (addr_String a)"
proof -
  have i: "list_all (\<lambda>c. c \<noteq> CHR ''/'' \<and> c \<noteq> CHR ''^'' \<and> c \<notin> set blanks) (string4 f)" for f
  proof -
    have "list_all (\<lambda>c. isDigit c \<or> c = CHR ''.'') (Join (map Itoa f) ''.'')"
    proof (induction f)
      case (Cons n f)
      have "list_all (\<lambda>c. isDigit c \<or> c = CHR ''.'') (Itoa n)" using Itoa_digits [of n] by (auto elim: list.pred_mono_strong)
      then show ?case using Cons by (cases f) auto
    qed simp
    then show ?thesis unfolding string4_def
      by (rule list.pred_mono_strong) (auto simp: isDigit_def byte_order blanks_def)
  qed
  have j: "list_all (\<lambda>c. c \<noteq> CHR ''/'' \<and> c \<noteq> CHR ''^'' \<and> c \<notin> set blanks) (string6 gs)" for gs
    by (rule list.pred_mono_strong [OF string6_bytes]) (auto simp: isHex_def isDigit_def byte_order blanks_def)
  show "a \<noteq> ZeroAddr \<Longrightarrow> zone a = [] \<Longrightarrow> list_all (\<lambda>c. c \<noteq> CHR ''/'' \<and> c \<noteq> CHR ''^'' \<and> c \<notin> set blanks) (addr_String a)"
    using i j by (cases a) (auto simp: blanks_def)
qed

lemma ParsePrefix_text:
  assumes "wf_prefix p" "prefix_isValid p"
  shows "ParsePrefix (prefix_String p) = Some p"
proof -
  have a: "Addr p \<noteq> ZeroAddr" "zone (Addr p) = []" using assms by (auto simp: wf_prefix_def prefix_isValid_def)
  have n: "list_all (\<lambda>c. c \<noteq> CHR ''/'') (addr_String (Addr p))"
    using addr_text_no_slash [OF a] by (auto elim: list.pred_mono_strong)
  have s: "prefix_String p = addr_String (Addr p) @ ''/'' @ Itoa (nat (Bits p))"
    using assms(2) by (simp add: prefix_String_def)
  have "Cut (prefix_String p) ''/'' = (addr_String (Addr p), Itoa (nat (Bits p)), True)"
    unfolding s using Cut_word [OF n, of "[]"] by simp
  then have "ParsePrefix (prefix_String p) = netip_ParsePrefix (prefix_String p)"
    using a by (simp add: ParsePrefix_def addr_text_fill addr_text_unpad s)
  then show ?thesis by (simp add: ParsePrefix_String [OF assms])
qed

subsection \<open>Range operators print and parse back\<close>

lemma parseBits_Itoa: "n \<le> 128 \<Longrightarrow> parseBits (Itoa n) = Some (of_nat n)"
  using Itoa_length [of n 2] Itoa_digits [of n] by (simp add: parseBits_def)

lemma u8_le: "uint (n::u8) \<le> 128 \<longleftrightarrow> unat n \<le> 128" "uint (n::u8) \<le> uint m \<longleftrightarrow> unat n \<le> unat (m::u8)"
proof -
  have n: "uint n = int (unat n)" and m: "uint m = int (unat m)" by simp_all
  show "uint n \<le> 128 \<longleftrightarrow> unat n \<le> 128" using n by linarith
  show "uint n \<le> uint m \<longleftrightarrow> unat n \<le> unat m" using n m by linarith
qed

lemma parseBits_le: "parseBits s = Some n \<Longrightarrow> unat n \<le> 128"
  by (auto simp: parseBits_def unat_of_nat split: if_splits)

lemma Itoa_not_sign: "Itoa n \<noteq> CHR ''+'' # x" "Itoa n \<noteq> CHR ''-'' # x" "Itoa n @ y \<noteq> CHR ''+'' # x" "Itoa n @ y \<noteq> CHR ''-'' # x"
proof -
  obtain d ds where "Itoa n = d # ds" "isDigit d" using Itoa_hd [of n] Itoa_nonempty [of n] by (cases "Itoa n") auto
  then show "Itoa n \<noteq> CHR ''+'' # x" "Itoa n \<noteq> CHR ''-'' # x" "Itoa n @ y \<noteq> CHR ''+'' # x" "Itoa n @ y \<noteq> CHR ''-'' # x"
    using digit_not(3,6) by auto
qed

lemma Itoa_no_dash: "list_all (\<lambda>c. c \<noteq> CHR ''-'') (Itoa n)"
  using Itoa_digits [of n] digit_not(3) by (auto simp: list_all_iff)

lemma ParseRangeOperator_Itoa:
  "n \<le> 128 \<Longrightarrow> ParseRangeOperator (Itoa n) = Some \<lparr>Op = RangeLength, opN = of_nat n, opM = of_nat n\<rparr>"
  by (simp add: ParseRangeOperator_def Itoa_not_sign Cut_none [OF Itoa_no_dash] parseBits_Itoa)

lemma ParseRangeOperator_Itoas:
  assumes "n \<le> m" "m \<le> 128"
  shows "ParseRangeOperator (Itoa n @ ''-'' @ Itoa m) = Some \<lparr>Op = RangeRange, opN = of_nat n, opM = of_nat m\<rparr>"
proof -
  have "\<not> (of_nat m :: u8) < of_nat n"
    using assms by (simp add: word_less_nat_alt unat_of_nat)
  then show ?thesis
    using assms Cut_word [OF Itoa_no_dash, of n "[]" "Itoa m"]
    by (simp add: ParseRangeOperator_def Itoa_not_sign parseBits_Itoa)
qed

lemma ParseRangeOperator_wf:
  assumes "ParseRangeOperator s = Some x"
  shows "wf_op x \<and> Op x \<noteq> RangeExact"
proof -
  obtain lo hi r where c: "Cut s ''-'' = (lo, hi, r)" by (cases "Cut s ''-''")
  have b: "uint n \<le> 128" if "parseBits t = Some n" for t n
    using parseBits_le [OF that] by (simp only: u8_le)
  show ?thesis
  proof (cases "s = ''+'' \<or> s = ''-''")
    case True
    then show ?thesis using assms by (auto simp: ParseRangeOperator_def wf_op_def)
  next
    case False
    then obtain n where n: "parseBits lo = Some n" using assms c
      by (cases "parseBits lo") (simp_all add: ParseRangeOperator_def)
    show ?thesis
    proof (cases r)
      case True
      have p: "(case parseBits hi of None \<Rightarrow> None
          | Some m \<Rightarrow> if m < n then None else Some \<lparr>Op = RangeRange, opN = n, opM = m\<rparr>) = Some x"
        using assms c n False True by (simp add: ParseRangeOperator_def)
      then obtain m where m: "parseBits hi = Some m" "\<not> m < n" "x = \<lparr>Op = RangeRange, opN = n, opM = m\<rparr>"
        by (cases "parseBits hi") (simp_all split: if_splits)
      then show ?thesis using b [OF m(1)] by (simp add: wf_op_def)
    next
      case False
      then have "x = \<lparr>Op = RangeLength, opN = n, opM = n\<rparr>"
        using assms c n \<open>\<not> (s = ''+'' \<or> s = ''-'')\<close> by (simp add: ParseRangeOperator_def)
      then show ?thesis using b [OF n] by (simp add: wf_op_def)
    qed
  qed
qed

lemma op_text:
  assumes "wf_op x"
  shows "op_UnmarshalText (op_String x) = Some x"
proof -
  have le: "unat (opM x) \<le> 128" using assms by (simp only: wf_op_def u8_le)
  have x: "x = \<lparr>Op = Op x, opN = opN x, opM = opM x\<rparr>" by simp
  have t: "TrimPrefix (CHR ''^'' # s) ''^'' = s" for s by (simp add: TrimPrefix_def HasPrefix_def)
  show ?thesis
  proof (cases "Op x")
    case RangeExact
    then show ?thesis using assms by (cases x) (simp add: op_UnmarshalText_def op_String_def zeroOp_def wf_op_def)
  next
    case RangeLength
    then have "opN x = opM x" using assms by (simp add: wf_op_def)
    then show ?thesis using RangeLength le
      by (cases x) (simp add: op_UnmarshalText_def op_String_def t ParseRangeOperator_Itoa)
  next
    case RangeRange
    then have "unat (opN x) \<le> unat (opM x)" using assms by (simp add: wf_op_def word_le_nat_alt)
    from ParseRangeOperator_Itoas [OF this le] show ?thesis using RangeRange
      by (cases x) (simp add: op_UnmarshalText_def op_String_def t)
  qed (use assms in \<open>cases x; simp add: op_UnmarshalText_def op_String_def t ParseRangeOperator_def wf_op_def\<close>)+
qed

subsection \<open>Prefix ranges print and parse back\<close>

lemma prefix_text_bytes:
  assumes "wf_prefix p" "prefix_isValid p"
  shows "list_all (\<lambda>c. c \<noteq> CHR ''^'' \<and> c \<notin> set blanks) (prefix_String p)" "prefix_String p \<noteq> []"
proof -
  have a: "Addr p \<noteq> ZeroAddr" "zone (Addr p) = []" using assms by (auto simp: wf_prefix_def prefix_isValid_def)
  have "list_all (\<lambda>c. c \<noteq> CHR ''^'' \<and> c \<notin> set blanks) (addr_String (Addr p))"
    using addr_text_no_slash [OF a] by (auto simp: list_all_iff)
  moreover have "list_all (\<lambda>c. c \<noteq> CHR ''^'' \<and> c \<notin> set blanks) (Itoa n)" for n
    using Itoa_digits [of n] digit_not(4,5,8) by (auto simp: list_all_iff blanks_def)
  ultimately show "list_all (\<lambda>c. c \<noteq> CHR ''^'' \<and> c \<notin> set blanks) (prefix_String p)" "prefix_String p \<noteq> []"
    using assms(2) by (auto simp: prefix_String_def blanks_def)
qed

text \<open>A range text without blanks at its ends splits into its prefix and its operator.\<close>

lemma ParsePrefixRange_op:
  assumes "wf_prefix p" "prefix_isValid p" "t \<noteq> []" "List.last t \<notin> set blanks"
  shows "ParsePrefixRange (prefix_String p @ ''^'' @ t) =
    (let pfx = Masked p; bits = Bits pfx; maxBits = BitLen (Addr pfx) in
     case ParseRangeOperator t of
       None \<Rightarrow> None
     | Some oper \<Rightarrow>
         (case Op oper of
            RangePlus \<Rightarrow> Some \<lparr>rprefix = pfx, rlo = of_int bits, rhi = of_int maxBits\<rparr>
          | RangeMinus \<Rightarrow> Some \<lparr>rprefix = pfx, rlo = of_int (bits + 1), rhi = of_int maxBits\<rparr>
          | _ \<Rightarrow>
              if uint (opN oper) < bits \<or> uint (opM oper) > maxBits then None
              else Some \<lparr>rprefix = pfx, rlo = opN oper, rhi = opM oper\<rparr>))"
proof -
  note b = prefix_text_bytes [OF assms(1,2)]
  have c: "list_all (\<lambda>c. c \<noteq> CHR ''^'') (prefix_String p)" using b(1) by (auto simp: list_all_iff)
  have "hd (prefix_String p) \<notin> set blanks" using b by (auto simp: list_all_iff)
  then have t: "Trim (prefix_String p @ ''^'' @ t) blanks = prefix_String p @ ''^'' @ t"
    using assms(3,4) b(2) by (intro Trim_id) auto
  show ?thesis
    unfolding ParsePrefixRange_def t Let_def using Cut_word [OF c, of "[]" t] ParsePrefix_text [OF assms(1,2)] by simp
qed

lemma ParsePrefixRange_exact:
  assumes "wf_prefix p" "prefix_isValid p"
  shows "ParsePrefixRange (prefix_String p) =
    Some \<lparr>rprefix = Masked p, rlo = of_int (Bits (Masked p)), rhi = of_int (Bits (Masked p))\<rparr>"
proof -
  note b = prefix_text_bytes [OF assms(1,2)]
  have c: "list_all (\<lambda>c. c \<noteq> CHR ''^'') (prefix_String p)" "list_all (\<lambda>c. c \<notin> set blanks) (prefix_String p)"
    using b(1) by (auto simp: list_all_iff)
  show ?thesis
    unfolding ParsePrefixRange_def Trim_outside [OF c(2)] Cut_none [OF c(1)] Let_def
    by (simp add: ParsePrefix_text [OF assms])
qed

lemma Itoa_last: "List.last (Itoa n) \<notin> set blanks" "List.last (x @ Itoa n) \<notin> set blanks"
proof -
  have "isDigit (List.last (Itoa n))" using Itoa_digits [of n] by (simp add: list_all_iff)
  then show "List.last (Itoa n) \<notin> set blanks" "List.last (x @ Itoa n) \<notin> set blanks"
    using digit_not(4,5) by (auto simp: blanks_def)
qed

lemma range_text:
  assumes "wf_range r" "\<not> range_IsZero r"
  shows "ParsePrefixRange (range_String r) = Some r"
proof -
  have z: "r \<noteq> zeroRange" using assms(2) range_zero(1) by metis
  have p: "wf_prefix (rprefix r)" "prefix_isValid (rprefix r)" "Masked (rprefix r) = rprefix r"
    "Bits (rprefix r) \<le> Lo r" "Hi r \<le> BitLen (Addr (rprefix r))"
    "Lo r \<le> Hi r \<or> (Lo r = Hi r + 1 \<and> Hi r = BitLen (Addr (rprefix r)) \<and> Bits (rprefix r) = Hi r)"
    using assms(1) z by (auto simp: wf_range_def)
  have r: "r = \<lparr>rprefix = rprefix r, rlo = of_int (Lo r), rhi = of_int (Hi r)\<rparr>"
    by (cases r) (simp add: Lo_def Hi_def)
  have "Hi r \<le> 128" using p(5) BitLen_le [of "Addr (rprefix r)"] by linarith
  then have h: "unat (rhi r) \<le> 128" by (simp only: Hi_def u8_le)
  show ?thesis
  proof (cases "range_Op r")
    case RangeExact
    then have "Lo r = Bits (rprefix r)" "Hi r = Bits (rprefix r)"
      by (auto simp: range_Op_def Let_def split: if_splits)
    then show ?thesis
      using RangeExact assms(2) r by (simp add: range_String_def Let_def ParsePrefixRange_exact [OF p(1,2)] p(3))
  next
    case RangePlus
    then have "Lo r = Bits (rprefix r)" "Hi r = BitLen (Addr (rprefix r))"
      by (auto simp: range_Op_def Let_def split: if_splits)
    then show ?thesis
      using RangePlus assms(2) r ParsePrefixRange_op [OF p(1,2), of "''+''"]
      by (simp add: range_String_def Let_def p(3) ParseRangeOperator_def blanks_def)
  next
    case RangeMinus
    then have "Lo r = Bits (rprefix r) + 1" "Hi r = BitLen (Addr (rprefix r))"
      by (auto simp: range_Op_def Let_def split: if_splits)
    then show ?thesis
      using RangeMinus assms(2) r ParsePrefixRange_op [OF p(1,2), of "''-''"]
      by (simp add: range_String_def Let_def p(3) ParseRangeOperator_def blanks_def)
  next
    case RangeLength
    then have "Lo r = Hi r" by (auto simp: range_Op_def Let_def split: if_splits)
    then have "rlo r = rhi r" by (simp only: Lo_def Hi_def word_uint_eq_iff)
    then show ?thesis
      using RangeLength assms(2) h p(4,5) ParsePrefixRange_op [OF p(1,2) Itoa_nonempty Itoa_last(1), of "unat (rhi r)"]
      by (simp add: range_String_def Let_def p(3) ParseRangeOperator_Itoa Lo_def Hi_def)
  next
    case RangeRange
    then have "\<not> (Lo r = Bits (rprefix r) + 1 \<and> Hi r = BitLen (Addr (rprefix r)))"
      by (auto simp: range_Op_def Let_def split: if_splits)
    then have "Lo r \<le> Hi r" using p(6) by auto
    then have "unat (rlo r) \<le> unat (rhi r)" by (simp only: Lo_def Hi_def u8_le)
    then show ?thesis
      using RangeRange assms(2) h p(4,5) ParsePrefixRange_op [OF p(1,2) _ Itoa_last(2), of "Itoa (unat (rlo r)) @ ''-''" "unat (rhi r)"]
      by (simp add: range_String_def Let_def p(3) ParseRangeOperator_Itoas [simplified] Lo_def Hi_def)
  qed
qed

text \<open>What parses is well formed.\<close>

lemma netip_ParseAddr_valid: "netip_ParseAddr t = Some a \<Longrightarrow> a \<noteq> ZeroAddr"
  by (auto simp: netip_ParseAddr_def parseIPv4_def parseIPv6_def Let_def split: option.splits if_splits prod.splits)

lemma netip_ParsePrefix_wf:
  assumes "netip_ParsePrefix s = Some p"
  shows "wf_prefix p \<and> prefix_isValid p"
proof -
  define b where "b = rev (takeWhile (\<lambda>c. c \<noteq> CHR ''/'') (rev s))"
  define t where "t = take (length s - length b - 1) s"
  have c: "(case netip_ParseAddr t of
          None \<Rightarrow> None
        | Some a \<Rightarrow>
            if zone a \<noteq> [] then None
            else if b = [] \<or> \<not> list_all isDigit b \<or> (length b > 1 \<and> hd b = CHR ''0'') then None
            else if int (dec_val b) > BitLen a then None
            else Some (PrefixFrom a (int (dec_val b)))) = Some p"
    using assms unfolding netip_ParsePrefix_def Let_def b_def [symmetric] t_def [symmetric] by (simp split: if_splits)
  then obtain a where a: "netip_ParseAddr t = Some a" by (cases "netip_ParseAddr t") simp_all
  then have "p = PrefixFrom a (int (dec_val b))" "int (dec_val b) \<le> BitLen a" "zone a = []"
    using c by (simp_all split: if_splits)
  then show ?thesis using netip_ParseAddr_valid [OF a]
    by (simp add: wf_prefix_def prefix_isValid_def PrefixFrom_def withoutZone_simps)
qed

lemma ParsePrefix_wf: "ParsePrefix s = Some p \<Longrightarrow> wf_prefix p \<and> prefix_isValid p"
  unfolding ParsePrefix_def Let_def using netip_ParsePrefix_wf by (auto split: prod.splits)

lemma wf_window:
  assumes "wf_prefix p" "prefix_isValid p" "Masked p = p" "Bits p \<le> lo" "hi \<le> BitLen (Addr p)"
    "lo \<le> hi \<or> lo = hi + 1 \<and> hi = BitLen (Addr p) \<and> Bits p = hi"
  shows "wf_range \<lparr>rprefix = p, rlo = of_int lo, rhi = of_int hi\<rparr>"
proof -
  have "0 \<le> Bits p" using assms(2) by (simp add: prefix_isValid_def)
  then have "0 \<le> lo" "lo < 256" "0 \<le> hi" "hi < 256" using assms(4-6) BitLen_le [of "Addr p"] by linarith+
  then have "uint (of_int lo :: u8) = lo" "uint (of_int hi :: u8) = hi" by (simp_all add: uint_word_of_int)
  then show ?thesis using assms by (simp add: wf_range_def Lo_def Hi_def)
qed

lemma ParsePrefixRange_wf:
  assumes "ParsePrefixRange s = Some r"
  shows "wf_range r \<and> \<not> range_IsZero r"
proof -
  obtain a t h where c: "Cut (Trim s blanks) ''^'' = (a, t, h)" by (cases "Cut (Trim s blanks) ''^''")
  obtain p0 where p0: "ParsePrefix a = Some p0" using assms c
    by (cases "ParsePrefix a") (simp_all add: ParsePrefixRange_def)
  define p where "p = Masked p0"
  have w: "wf_prefix p0" "prefix_isValid p0" using ParsePrefix_wf [OF p0] by simp_all
  have p: "wf_prefix p" "prefix_isValid p" "Masked p = p" "0 \<le> Bits p" "Bits p \<le> BitLen (Addr p)"
  proof -
    have "0 \<le> Bits p0" "Bits p0 \<le> BitLen (Addr p0)" using w by (auto simp: wf_prefix_def prefix_isValid_def)
    then show "wf_prefix p" "prefix_isValid p" "Masked p = p" "0 \<le> Bits p" "Bits p \<le> BitLen (Addr p)"
      using w by (simp_all add: p_def Masked_valid)
  qed
  note body = assms [unfolded ParsePrefixRange_def Let_def c, simplified, unfolded p0, simplified, folded p_def]
  have z: "\<not> range_IsZero \<lparr>rprefix = p, rlo = x, rhi = y\<rparr>" for x y using p(2) by (simp add: range_IsZero_def)
  have lt: "uint x \<le> uint y" if "wf_op x1" "x = opN x1" "y = opM x1" "Op x1 = RangeLength \<or> Op x1 = RangeRange" for x y x1
    using that by (auto simp: wf_op_def word_le_def)
  have n: "wf_range \<lparr>rprefix = p, rlo = x, rhi = y\<rparr>"
    if "Bits p \<le> uint x" "uint y \<le> BitLen (Addr p)" "uint x \<le> uint y" for x y
    using wf_window [OF p(1-3) that(1,2)] that(3) by simp
  show ?thesis
  proof (cases h)
    case False
    then have "r = \<lparr>rprefix = p, rlo = of_int (Bits p), rhi = of_int (Bits p)\<rparr>" using body by simp
    then show ?thesis using wf_window [OF p(1-3), of "Bits p" "Bits p"] p z by simp
  next
    case True
    then obtain x where x: "ParseRangeOperator t = Some x" using body by (cases "ParseRangeOperator t") simp_all
    note wx = ParseRangeOperator_wf [OF x]
    show ?thesis
    proof (cases "Op x")
      case RangePlus
      then have "r = \<lparr>rprefix = p, rlo = of_int (Bits p), rhi = of_int (BitLen (Addr p))\<rparr>"
        using body True x by simp
      then show ?thesis using wf_window [OF p(1-3), of "Bits p" "BitLen (Addr p)"] p z by simp
    next
      case RangeMinus
      then have "r = \<lparr>rprefix = p, rlo = of_int (Bits p + 1), rhi = of_int (BitLen (Addr p))\<rparr>"
        using body True x by simp
      moreover have "Bits p + 1 \<le> BitLen (Addr p) \<or> Bits p = BitLen (Addr p)" using p(5) by linarith
      ultimately show ?thesis using wf_window [OF p(1-3), of "Bits p + 1" "BitLen (Addr p)"] p z by auto
    next
      case RangeExact
      then show ?thesis using wx by simp
    next
      case RangeLength
      then have "r = \<lparr>rprefix = p, rlo = opN x, rhi = opM x\<rparr>" "Bits p \<le> uint (opN x)" "uint (opM x) \<le> BitLen (Addr p)"
        using body True x by (simp_all split: if_splits)
      then show ?thesis using n [of "opN x" "opM x"] lt [of x] wx RangeLength z by simp
    next
      case RangeRange
      then have "r = \<lparr>rprefix = p, rlo = opN x, rhi = opM x\<rparr>" "Bits p \<le> uint (opN x)" "uint (opM x) \<le> BitLen (Addr p)"
        using body True x by (simp_all split: if_splits)
      then show ?thesis using n [of "opN x" "opM x"] lt [of x] wx RangeRange z by simp
    qed
  qed
qed

end
