(* ===== verification/Text_Properties.thy ===== *)
theory Text_Properties
  imports Text_Forms
begin

text \<open>
  Families and routers print and parse back, and the properties of the text forms of
  \<^verbatim>\<open>src/types\<close>.
\<close>

subsection \<open>Address families\<close>

definition family_texts :: "(string \<times> AddrFamily) list" where
  "family_texts =
     [(''ipv4'', \<lparr>fAFI = AFIv4, fSAFI = SAFIUnspecified\<rparr>),
      (''ipv6'', \<lparr>fAFI = AFIv6, fSAFI = SAFIUnspecified\<rparr>),
      (''any'', \<lparr>fAFI = AFIAny, fSAFI = SAFIUnspecified\<rparr>),
      (''ipv4.unicast'', \<lparr>fAFI = AFIv4, fSAFI = SAFIUnicast\<rparr>),
      (''ipv6.unicast'', \<lparr>fAFI = AFIv6, fSAFI = SAFIUnicast\<rparr>),
      (''any.unicast'', \<lparr>fAFI = AFIAny, fSAFI = SAFIUnicast\<rparr>),
      (''ipv4.multicast'', \<lparr>fAFI = AFIv4, fSAFI = SAFIMulticast\<rparr>),
      (''ipv6.multicast'', \<lparr>fAFI = AFIv6, fSAFI = SAFIMulticast\<rparr>),
      (''any.multicast'', \<lparr>fAFI = AFIAny, fSAFI = SAFIMulticast\<rparr>)]"

lemma family_texts_parse:
  "list_all (\<lambda>(t, f). ParseAddrFamily t = Some f \<and> family_String f = t) family_texts"
  by code_simp

lemma ParseAddrFamily_known: "ParseAddrFamily s = Some f \<Longrightarrow> fAFI f \<noteq> AFIUnspecified"
  by (auto simp: ParseAddrFamily_def Let_def split: if_splits prod.splits option.splits)

lemma family_text:
  assumes "fAFI f \<noteq> AFIUnspecified"
  shows "ParseAddrFamily (family_String f) = Some f"
proof -
  have "f \<in> snd ` set family_texts"
    using assms by (cases f; cases "fAFI f"; cases "fSAFI f") (simp_all add: family_texts_def)
  then show ?thesis using family_texts_parse by (fastforce simp: list_all_iff)
qed

subsection \<open>Router names\<close>

lemma Split_ToLower: "Split (ToLower s) (CHR ''.'') = map ToLower (Split s (CHR ''.''))"
  by (induction s) (auto simp: ToLower_def split: list.splits)

lemma validRouterName_ToLower: "validRouterName (ToLower s) = validRouterName s"
proof -
  have d: "list_all isDigit (ToLower x) = list_all isDigit x" for x
    by (simp add: ToLower_def list.pred_map comp_def)
  have e: "ToLower x = [] \<longleftrightarrow> x = []" "length (ToLower x) = length x" for x by (simp_all add: ToLower_def)
  have l: "List.last (map ToLower (Split s (CHR ''.''))) = ToLower (List.last (Split s (CHR ''.'')))"
    by (simp add: last_map)
  have c: "x \<noteq> [] \<Longrightarrow> hd (ToLower x) = CHR ''-'' \<longleftrightarrow> hd x = CHR ''-''"
    "x \<noteq> [] \<Longrightarrow> List.last (ToLower x) = CHR ''-'' \<longleftrightarrow> List.last x = CHR ''-''"
    "list_all (\<lambda>c. isLetter c \<or> isDigit c \<or> c = CHR ''-'') (ToLower x) =
     list_all (\<lambda>c. isLetter c \<or> isDigit c \<or> c = CHR ''-'') x" for x
    by (simp_all add: ToLower_def hd_map last_map list.pred_map comp_def)
  define ok where "ok = (\<lambda>label.
    label \<noteq> [] \<and> length label \<le> 63 \<and> hd label \<noteq> CHR ''-'' \<and> List.last label \<noteq> CHR ''-'' \<and>
    list_all (\<lambda>c. isLetter c \<or> isDigit c \<or> c = CHR ''-'') label)"
  have "ok (ToLower x) = ok x" for x using c [of x] unfolding ok_def e by blast
  then have "list_all ok (map ToLower xs) = list_all ok xs" for xs by (simp add: list.pred_map comp_def)
  then show ?thesis
    unfolding validRouterName_def Split_ToLower Let_def ok_def [symmetric] l by (simp add: e d)
qed

text \<open>A valid name is not an address: it has no colon, and its last label is not a number.\<close>

lemma validRouterName_bytes:
  "validRouterName s \<Longrightarrow> list_all (\<lambda>c. isLetter c \<or> isDigit c \<or> c = CHR ''-'' \<or> c = CHR ''.'') s"
proof -
  assume v: "validRouterName s"
  show ?thesis unfolding list_all_iff
  proof
    fix c
    assume "c \<in> set s"
    show "isLetter c \<or> isDigit c \<or> c = CHR ''-'' \<or> c = CHR ''.''"
    proof (cases "c = CHR ''.''")
      case False
      then obtain x where "x \<in> set (Split s (CHR ''.''))" "c \<in> set x"
        using in_Join_Split [OF \<open>c \<in> set s\<close>] by blast
      then show ?thesis using v by (auto simp: validRouterName_def Let_def list_all_iff split: if_splits)
    qed simp
  qed
qed

lemma find_in: "List.find P s = Some c \<Longrightarrow> c \<in> set s \<and> P c"
  by (induction s) (auto split: if_splits)

lemma name_not_address:
  assumes "validRouterName s"
  shows "netip_ParseAddr s = None" "unpadIPv4 s = None"
proof -
  let ?l = "Split s (CHR ''.'')"
  have "\<not> (List.last ?l \<noteq> [] \<and> list_all isDigit (List.last ?l))" "List.last ?l \<noteq> []"
    using assms by (auto simp: validRouterName_def Let_def list_all_iff split: if_splits)
  then have n: "\<not> list_all isDigit (List.last ?l)" by blast
  have m: "List.last ?l \<in> set ?l" by simp
  have "octet (List.last ?l) = None" using n by (simp add: octet_def)
  then have "None \<in> set (map octet ?l)" using m unfolding set_map by (metis image_eqI)
  then have "parseIPv4 s = None" by (simp add: parseIPv4_def parseIPv4Fields_def Let_def)
  moreover have "List.find (\<lambda>c. c \<in> {CHR ''.'', CHR '':'', CHR ''%''}) s \<in> {None, Some (CHR ''.'')}"
  proof (cases "List.find (\<lambda>c. c \<in> {CHR ''.'', CHR '':'', CHR ''%''}) s")
    case (Some c)
    then have "c \<in> set s" "c \<in> {CHR ''.'', CHR '':'', CHR ''%''}" using find_in by force+
    then show ?thesis using Some validRouterName_bytes [OF assms]
      by (auto simp: list_all_iff isLetter_def isUpper_def isLower_def isDigit_def byte_order)
  qed simp
  ultimately show "netip_ParseAddr s = None" by (auto simp: netip_ParseAddr_def split: option.split)
  have "\<not> list_all (\<lambda>oct. oct \<noteq> [] \<and> list_all isDigit oct) ?l"
    using n m unfolding list_all_iff [of "\<lambda>oct. oct \<noteq> [] \<and> list_all isDigit oct"] by blast
  then show "unpadIPv4 s = None" by (simp add: unpadIPv4_def Let_def unpad_loop_None)
qed

lemma TrimSuffix_id: "s = [] \<or> List.last s \<noteq> CHR ''.'' \<Longrightarrow> TrimSuffix s ''.'' = s"
proof -
  assume a: "s = [] \<or> List.last s \<noteq> CHR ''.''"
  have "\<not> HasPrefix (rev s) ''.''"
  proof (cases s rule: rev_cases)
    case (snoc ys y)
    then show ?thesis using a by (simp add: HasPrefix_def)
  qed (simp add: HasPrefix_def)
  then show ?thesis by (simp add: TrimSuffix_def)
qed

lemma Split_last_dot: "s \<noteq> [] \<Longrightarrow> List.last s = d \<Longrightarrow> List.last (Split s d) = []"
proof (induction s)
  case (Cons c s)
  show ?case
  proof (cases "s = []")
    case True
    then show ?thesis using Cons.prems by simp
  next
    case False
    then have "List.last (Split s d) = []" using Cons by simp
    moreover obtain y ys where y: "Split s d = y # ys" by (cases "Split s d") auto
    moreover have "ys \<noteq> []" if "c \<noteq> d"
    proof
      assume "ys = []"
      then have "s = y" using Join_Split [of s d] y by simp
      then show False using calculation \<open>ys = []\<close> False by simp
    qed
    ultimately show ?thesis by auto
  qed
qed simp

lemma router_name_text:
  assumes "validRouterName t"
  shows "ParseRouterID (ToLower t) = Some \<lparr>rid_addr = ZeroAddr, rid_name = ToLower t\<rparr>"
proof -
  let ?s = "ToLower t"
  have v: "validRouterName ?s" using assms by (simp add: validRouterName_ToLower)
  have "list_all (\<lambda>c. c \<notin> set blanks) ?s"
    by (rule list.pred_mono_strong [OF validRouterName_bytes [OF v]])
      (auto simp: blanks_def isLetter_def isUpper_def isLower_def isDigit_def byte_order)
  then have tr: "Trim ?s blanks = ?s" by (rule Trim_outside)
  have ne: "?s \<noteq> []" using v by (auto simp: validRouterName_def)
  have "List.last (Split ?s (CHR ''.'')) \<noteq> []"
    using v by (auto simp: validRouterName_def Let_def list_all_iff split: if_splits)
  then have "TrimSuffix ?s ''.'' = ?s" using Split_last_dot [OF ne] by (intro TrimSuffix_id) blast
  moreover have "ToLower ?s = ?s" by (simp add: ToLower_def)
  ultimately show ?thesis
    using ne v name_not_address [OF v] unfolding ParseRouterID_def tr Let_def by (simp add: ParseAddr_def)
qed

lemma last_Join: "qs \<noteq> [] \<Longrightarrow> List.last qs \<noteq> [] \<Longrightarrow> List.last (Join qs sep) = List.last (List.last qs)"
proof (induction qs sep rule: Join.induct)
  case (3 x y ys sep)
  moreover have "Join (y # ys) sep \<noteq> []" using 3(3) by (induction ys arbitrary: y) auto
  ultimately show ?case by simp
qed simp_all

lemma router_addr_text:
  assumes "a \<noteq> ZeroAddr" "zone a = []" "\<And>w z. a = IPv6 w z \<Longrightarrow> \<not> Is4In6 w"
  shows "ParseRouterID (addr_String a) = Some \<lparr>rid_addr = a, rid_name = []\<rparr>"
proof -
  let ?s = "addr_String a"
  have tr: "Trim ?s blanks = ?s"
    using addr_text_no_slash [OF assms(1,2)] by (intro Trim_outside) (auto simp: list_all_iff)
  have "?s \<noteq> []" "List.last ?s \<noteq> CHR ''.''"
  proof -
    have "?s \<noteq> [] \<and> List.last ?s \<noteq> CHR ''.''"
    proof (cases a)
      case (IPv4 w)
      have "octets w \<noteq> []" using groups_length(2) [of w] by (metis list.size(3) zero_neq_numeral)
      then have "List.last ?s = List.last (Itoa (List.last (octets w)))"
        unfolding IPv4 by (simp add: string4_def last_Join last_map)
      moreover have "isDigit (List.last (Itoa n))" for n using Itoa_digits [of n] by (simp add: list_all_iff)
      ultimately show ?thesis using string4_find [of "octets w"] digit_not(1) IPv4 by auto
    next
      case (IPv6 w z)
      then have s: "?s = string6 (groups w)" using assms by simp
      have ne: "string6 (groups w) \<noteq> []" using string6_colon [of "groups w"] by auto
      have "List.last (string6 (groups w)) \<in> set (string6 (groups w))" using ne by simp
      then have "isHex (List.last (string6 (groups w))) \<or> List.last (string6 (groups w)) = CHR '':''"
        using string6_bytes [of "groups w"] unfolding list_all_iff by blast
      then show ?thesis using s ne by auto
    qed (use assms in simp)
    then show "?s \<noteq> []" "List.last ?s \<noteq> CHR ''.''" by simp_all
  qed
  then have "TrimSuffix ?s ''.'' = ?s" by (intro TrimSuffix_id) blast
  moreover have "withoutZone (Unmap a) = a" using assms by (cases a) auto
  ultimately show ?thesis
    using \<open>?s \<noteq> []\<close> by (simp add: ParseRouterID_def tr ParseAddr_text [OF assms(1)])
qed

text \<open>What \<^verbatim>\<open>ParseRouterID\<close> returns: an unmapped zoneless address, or the lower case of a valid name.\<close>

lemma ParseRouterID_canon:
  assumes "ParseRouterID s = Some r"
  shows "(rid_name r = [] \<and> rid_addr r \<noteq> ZeroAddr \<and> zone (rid_addr r) = [] \<and>
      (\<forall>w z. rid_addr r = IPv6 w z \<longrightarrow> \<not> Is4In6 w)) \<or>
    (rid_addr r = ZeroAddr \<and> (\<exists>t. validRouterName t \<and> rid_name r = ToLower t))"
proof -
  define t where "t = TrimSuffix (Trim s blanks) ''.''"
  show ?thesis
  proof (cases "ParseAddr t")
    case None
    then show ?thesis using assms by (auto simp: ParseRouterID_def Let_def t_def [symmetric] split: if_splits)
  next
    case (Some a)
    then have "r = \<lparr>rid_addr = withoutZone (Unmap a), rid_name = []\<rparr>"
      using assms by (auto simp: ParseRouterID_def Let_def t_def [symmetric] split: if_splits)
    moreover have "a \<noteq> ZeroAddr" using Some netip_ParseAddr_valid by (auto simp: ParseAddr_def)
    ultimately show ?thesis by (cases a) auto
  qed
qed

subsection \<open>Properties\<close>

text \<open>(C15) What \<^verbatim>\<open>ParsePrefixRange\<close> accepts is a well-formed range, and every well-formed range, the
  zero range and the empty \<^verbatim>\<open>^-\<close> of a host prefix included, prints to a text that unmarshals to it.\<close>

theorem range_text_roundtrip:
  "(ParsePrefixRange s = Some r \<longrightarrow> wf_range r \<and> \<not> range_IsZero r) \<and>
   (wf_range r \<longrightarrow> range_UnmarshalText (range_String r) = Some r)"
proof (intro conjI impI)
  assume w: "wf_range r"
  show "range_UnmarshalText (range_String r) = Some r"
  proof (cases "range_IsZero r")
    case True
    then have "r = zeroRange" using w by (auto simp: wf_range_def range_IsZero_def)
    then show ?thesis by (simp add: range_UnmarshalText_def range_String_def)
  next
    case False
    then have p: "ParsePrefixRange (range_String r) = Some r" by (rule range_text [OF w])
    have "ParsePrefixRange [] = None" by code_simp
    then have "range_String r \<noteq> []" using p by auto
    then show ?thesis using p by (simp add: range_UnmarshalText_def)
  qed
qed (use ParsePrefixRange_wf in auto)

theorem range_text_roundtrip_witness:
  "ParsePrefixRange ''10.1.0.0/16^24'' =
     Some \<lparr>rprefix = \<lparr>Addr = IPv4 0x0A010000, Bits = 16\<rparr>, rlo = 24, rhi = 24\<rparr> \<and>
   range_UnmarshalText ''10.1.0.0/16^24'' =
     Some \<lparr>rprefix = \<lparr>Addr = IPv4 0x0A010000, Bits = 16\<rparr>, rlo = 24, rhi = 24\<rparr>"
proof -
  let ?r = "\<lparr>rprefix = \<lparr>Addr = IPv4 0x0A010000, Bits = 16\<rparr>, rlo = 24, rhi = 24\<rparr>"
  have p: "ParsePrefixRange ''10.1.0.0/16^24'' = Some ?r" by code_simp
  have t: "range_String ?r = ''10.1.0.0/16^24''" by code_simp
  show ?thesis using p range_text_roundtrip [of "''10.1.0.0/16^24''" ?r] unfolding t by blast
qed

text \<open>An IPv4 prefix of one to four decimal octets, each padded with any number of zeros,
  is read as the octets' values with the missing ones zero.\<close>

theorem ParsePrefix_decimal:
  assumes "octs \<noteq> []" "length octs \<le> 4" "n \<le> 32"
    "list_all (\<lambda>oct. oct \<noteq> [] \<and> list_all isDigit oct \<and> dec_val oct \<le> 255) octs"
  shows "ParsePrefix (Join octs ''.'' @ ''/'' @ Itoa n) =
    Some (PrefixFrom (IPv4 (of_nat (be_val 256 (map dec_val octs @ replicate (4 - length octs) 0)))) (int n))"
  by (rule ParsePrefix_octets [OF assms])

theorem ParsePrefix_decimal_witness:
  "ParsePrefix (''0143.208.0148/22'') = Some \<lparr>Addr = IPv4 0x8FD09400, Bits = 22\<rparr>"
proof -
  let ?o = "[''0143'', ''208'', ''0148'']"
  have o: "list_all (\<lambda>oct. oct \<noteq> [] \<and> list_all isDigit oct \<and> dec_val oct \<le> 255) ?o" by code_simp
  have t: "Join ?o ''.'' @ ''/'' @ Itoa 22 = ''0143.208.0148/22''" by code_simp
  have v: "PrefixFrom (IPv4 (of_nat (be_val 256 (map dec_val ?o @ replicate (4 - length ?o) 0)))) (int 22) =
      \<lparr>Addr = IPv4 0x8FD09400, Bits = 22\<rparr>" by code_simp
  show ?thesis using ParsePrefix_decimal [of ?o 22] o unfolding t v by simp
qed

text \<open>Range operators and address families are stable under their text forms: what the parsers
  accept prints to a text that unmarshals to the same value.\<close>

theorem operator_family_roundtrip:
  "(ParseRangeOperator s = Some x \<longrightarrow> wf_op x) \<and> (wf_op x \<longrightarrow> op_UnmarshalText (op_String x) = Some x) \<and>
   (ParseAddrFamily s = Some f \<longrightarrow> family_UnmarshalText (family_MarshalText f) = Some f)"
proof (intro conjI impI)
  assume "ParseAddrFamily s = Some f"
  then have a: "fAFI f \<noteq> AFIUnspecified" by (rule ParseAddrFamily_known)
  have "ParseAddrFamily [] = None" by code_simp
  then have "family_String f \<noteq> []" using family_text [OF a] by auto
  moreover have "f \<noteq> zeroFamily" using a by (auto simp: zeroFamily_def)
  ultimately show "family_UnmarshalText (family_MarshalText f) = Some f"
    by (simp add: family_UnmarshalText_def family_MarshalText_def family_text [OF a])
qed (use ParseRangeOperator_wf op_text in auto)

theorem operator_family_roundtrip_witness:
  "ParseRangeOperator ''24-32'' = Some \<lparr>Op = RangeRange, opN = 24, opM = 32\<rparr> \<and>
   op_UnmarshalText ''^24-32'' = Some \<lparr>Op = RangeRange, opN = 24, opM = 32\<rparr>"
proof -
  let ?x = "\<lparr>Op = RangeRange, opN = 24, opM = 32\<rparr>"
  have p: "ParseRangeOperator ''24-32'' = Some ?x" by code_simp
  have t: "op_String ?x = ''^24-32''" by code_simp
  show ?thesis using p operator_family_roundtrip [of "''24-32''" ?x] unfolding t by blast
qed

text \<open>A parsed router is an address without zone and never IPv4-mapped, or a lower-case name;
  either way its text form parses back to the same router.\<close>

theorem router_text_roundtrip:
  assumes "ParseRouterID s = Some r"
  shows "ParseRouterID (router_String r) = Some r \<and> \<not> router_IsZero r"
  using ParseRouterID_canon [OF assms]
proof
  assume a: "rid_name r = [] \<and> rid_addr r \<noteq> ZeroAddr \<and> zone (rid_addr r) = [] \<and>
      (\<forall>w z. rid_addr r = IPv6 w z \<longrightarrow> \<not> Is4In6 w)"
  then have "ParseRouterID (addr_String (rid_addr r)) = Some \<lparr>rid_addr = rid_addr r, rid_name = []\<rparr>"
    by (intro router_addr_text) auto
  then show ?thesis using a by (cases r) (simp add: router_String_def addr_isValid_def router_IsZero_def)
next
  assume a: "rid_addr r = ZeroAddr \<and> (\<exists>t. validRouterName t \<and> rid_name r = ToLower t)"
  then obtain t where t: "validRouterName t" "rid_name r = ToLower t" by blast
  have "ToLower t \<noteq> []" using t(1) by (auto simp: validRouterName_def ToLower_def)
  then show ?thesis using a t router_name_text [OF t(1)]
    by (cases r) (simp add: router_String_def addr_isValid_def router_IsZero_def)
qed

theorem router_text_roundtrip_witness:
  "ParseRouterID ''Rtr1.Example.NET.'' = Some \<lparr>rid_addr = ZeroAddr, rid_name = ''rtr1.example.net''\<rparr> \<and>
   ParseRouterID ''rtr1.example.net'' = Some \<lparr>rid_addr = ZeroAddr, rid_name = ''rtr1.example.net''\<rparr>"
proof -
  have p: "ParseRouterID ''Rtr1.Example.NET.'' = Some \<lparr>rid_addr = ZeroAddr, rid_name = ''rtr1.example.net''\<rparr>"
    by code_simp
  show ?thesis using p router_text_roundtrip [OF p] by (simp add: router_String_def addr_isValid_def)
qed

end
