(* ===== verification/Addr_Range.thy ===== *)
theory Addr_Range
  imports Netip
begin

text \<open>
  Address ranges (\<^verbatim>\<open>src/types/addrrange.go\<close>): the last address of a prefix, and the fewest prefixes
  that hold exactly the addresses from one to another, computed on 128-bit numbers kept as two
  64-bit words.
\<close>

subsection \<open>Unsigned 128-bit numbers\<close>

record u128 =
  u_hi :: "64 word"
  u_lo :: "64 word"

text \<open>\<^verbatim>\<open>bits.TrailingZeros64\<close> and \<^verbatim>\<open>bits.Len64\<close>.\<close>

definition TrailingZeros64 :: "64 word \<Rightarrow> nat" where
  "TrailingZeros64 w = length (takeWhile (\<lambda>i. \<not> bit w i) [0..<64])"

definition Len64 :: "64 word \<Rightarrow> nat" where
  "Len64 w = 64 - length (takeWhile (\<lambda>i. \<not> bit w i) (rev [0..<64]))"

fun u128Of :: "addr \<Rightarrow> u128" where
  "u128Of (IPv4 w) = \<lparr>u_hi = 0, u_lo = ucast w\<rparr>"
| "u128Of (IPv6 w z) = \<lparr>u_hi = ucast (drop_bit 64 w), u_lo = ucast w\<rparr>"
| "u128Of ZeroAddr = \<lparr>u_hi = 0, u_lo = 0\<rparr>"

definition u128_addr :: "u128 \<Rightarrow> bool \<Rightarrow> addr" where
  "u128_addr u v4 =
     (if v4 then IPv4 (ucast (u_lo u))
      else IPv6 (push_bit 64 (ucast (u_hi u)) OR ucast (u_lo u)) [])"

definition lowOnes :: "nat \<Rightarrow> u128" where
  "lowOnes n =
     (if n = 0 then \<lparr>u_hi = 0, u_lo = 0\<rparr>
      else if n < 64 then \<lparr>u_hi = 0, u_lo = push_bit n 1 - 1\<rparr>
      else if n = 64 then \<lparr>u_hi = 0, u_lo = NOT 0\<rparr>
      else \<lparr>u_hi = push_bit (n - 64) 1 - 1, u_lo = NOT 0\<rparr>)"

definition u128_or :: "u128 \<Rightarrow> u128 \<Rightarrow> u128" where
  "u128_or u v = \<lparr>u_hi = u_hi u OR u_hi v, u_lo = u_lo u OR u_lo v\<rparr>"

definition u128_sub :: "u128 \<Rightarrow> u128 \<Rightarrow> u128" where
  "u128_sub u v =
     (let lo = u_lo u - u_lo v; borrow = (if u_lo u < u_lo v then 1 else 0) in
      \<lparr>u_hi = u_hi u - u_hi v - borrow, u_lo = lo\<rparr>)"

definition u128_add1 :: "u128 \<Rightarrow> u128" where
  "u128_add1 u =
     (let lo = u_lo u + 1; carry = (if lo = 0 then 1 else 0) in
      \<lparr>u_hi = u_hi u + carry, u_lo = lo\<rparr>)"

definition u128_trailingZeros :: "u128 \<Rightarrow> nat" where
  "u128_trailingZeros u =
     (if u_lo u \<noteq> 0 then TrailingZeros64 (u_lo u) else 64 + TrailingZeros64 (u_hi u))"

definition u128_bitLen :: "u128 \<Rightarrow> nat" where
  "u128_bitLen u = (if u_hi u \<noteq> 0 then 64 + Len64 (u_hi u) else Len64 (u_lo u))"

subsection \<open>The operations\<close>

definition LastAddr :: "prefix \<Rightarrow> addr" where
  "LastAddr p =
     (if \<not> prefix_isValid p then ZeroAddr
      else let a = Addr p in
        u128_addr (u128_or (u128Of a) (lowOnes (nat (BitLen a - Bits p)))) (Is4 a))"

datatype addr_range_error = InvalidAddress | HasZone | MixesFamilies | StartsAfterEnd

text \<open>The size of the next block, as its number of low bits.\<close>

definition block_bits :: "u128 \<Rightarrow> u128 \<Rightarrow> nat" where
  "block_bits cur final =
     (let k = u128_trailingZeros cur; left = u128_sub final cur; fit = u128_bitLen left in
      if left = lowOnes fit then min k fit else min k (fit - 1))"

text \<open>The loop, with the prefixes found so far: it returns when a block ends at the last address.\<close>

partial_function (option) range_loop ::
  "bool \<Rightarrow> int \<Rightarrow> u128 \<Rightarrow> u128 \<Rightarrow> prefix list \<Rightarrow> prefix list option" where
  "range_loop v4 width cur final out =
     (let k = block_bits cur final;
          out' = out @ [PrefixFrom (u128_addr cur v4) (width - int k)];
          lastu = u128_or cur (lowOnes k) in
      if lastu = final then Some out'
      else range_loop v4 width (u128_add1 lastu) final out')"

definition AddrRangePrefixes :: "addr \<Rightarrow> addr \<Rightarrow> (addr_range_error + prefix list) option" where
  "AddrRangePrefixes lo hi =
     (if \<not> addr_isValid lo \<or> \<not> addr_isValid hi then Some (Inl InvalidAddress)
      else if zone lo \<noteq> [] \<or> zone hi \<noteq> [] then Some (Inl HasZone)
      else if BitLen lo \<noteq> BitLen hi then Some (Inl MixesFamilies)
      else if addr_less hi lo then Some (Inl StartsAfterEnd)
      else map_option Inr (range_loop (Is4 lo) (BitLen lo) (u128Of lo) (u128Of hi) []))"

subsection \<open>The number a pair of words stands for\<close>

definition uval :: "u128 \<Rightarrow> nat" where
  "uval u = unat (u_hi u) * 2 ^ 64 + unat (u_lo u)"

lemma unat64_less: "unat (w :: 64 word) < 2 ^ 64"
  using unsigned_less [of w] by simp

lemma uval_less: "uval u < 2 ^ 128"
proof -
  have "unat (u_hi u) * 2 ^ 64 + unat (u_lo u) < (unat (u_hi u) + 1) * 2 ^ 64"
    using unat64_less [of "u_lo u"] by simp
  also have "\<dots> \<le> 2 ^ 64 * 2 ^ 64" using unat64_less [of "u_hi u"] by (intro mult_right_mono) simp_all
  finally show ?thesis by (simp add: uval_def)
qed

lemma uval_div_mod: "uval u div 2 ^ 64 = unat (u_hi u)" "uval u mod 2 ^ 64 = unat (u_lo u)"
  using unat64_less [of "u_lo u"] by (simp_all add: uval_def)

lemma uval_inj: "uval u = uval v \<longleftrightarrow> u = v"
proof
  assume "uval u = uval v"
  then have "unat (u_hi u) = unat (u_hi v)" "unat (u_lo u) = unat (u_lo v)"
    by (simp_all add: uval_div_mod [symmetric])
  then show "u = v" by (cases u; cases v) (simp add: word_unat_eq_iff)
qed simp

lemma bit_uval: "bit (uval u) i \<longleftrightarrow> (if i < 64 then bit (u_lo u) i else bit (u_hi u) (i - 64))"
proof (cases "i < 64")
  case True
  have "bit (take_bit 64 (uval u)) i = bit (unat (u_lo u)) i"
    by (simp only: take_bit_eq_mod uval_div_mod)
  then show ?thesis using True by (simp add: bit_take_bit_iff bit_unsigned_iff possible_bit_def)
next
  case False
  have "bit (drop_bit 64 (uval u)) (i - 64) = bit (unat (u_hi u)) (i - 64)"
    by (simp only: drop_bit_eq_div uval_div_mod)
  then show ?thesis using False by (simp add: bit_drop_bit_eq bit_unsigned_iff possible_bit_def)
qed

lemma mask_word: "push_bit n 1 - 1 = (mask n :: 64 word)"
  by (simp add: mask_eq_exp_minus_1 push_bit_eq_mult)

lemma uval_lowOnes: "n \<le> 128 \<Longrightarrow> uval (lowOnes n) = mask n"
proof (rule bit_eqI)
  fix i
  assume n: "n \<le> 128"
  show "bit (uval (lowOnes n)) i = bit (mask n :: nat) i"
    unfolding bit_uval lowOnes_def mask_word using n
    by (auto simp: bit_mask_iff bit_not_iff)
qed

lemma uval_or: "uval (u128_or u v) = uval u OR uval v"
  by (rule bit_eqI) (simp add: bit_uval u128_or_def bit_or_iff)

lemma or_mask_nat: "(n::nat) OR mask k = n div 2 ^ k * 2 ^ k + (2 ^ k - 1)"
proof -
  have "n OR mask k = push_bit k (drop_bit k n) OR mask k"
    by (rule bit_eqI) (auto simp: bit_simps)
  also have "\<dots> = push_bit k (drop_bit k n) + mask k"
    by (rule disjunctive_add_eq_or [symmetric]) (rule bit_eqI, auto simp: bit_simps)
  finally show ?thesis by (simp add: push_bit_eq_mult drop_bit_eq_div mask_eq_exp_minus_1)
qed

lemma uval_last: "k \<le> 128 \<Longrightarrow> 2 ^ k dvd uval u \<Longrightarrow> uval (u128_or u (lowOnes k)) = uval u + 2 ^ k - 1"
  by (simp add: uval_or uval_lowOnes or_mask_nat)

lemma uval_add1: "uval u + 1 < 2 ^ 128 \<Longrightarrow> uval (u128_add1 u) = uval u + 1"
proof -
  assume lt: "uval u + 1 < 2 ^ 128"
  show ?thesis
  proof (cases "u_lo u + 1 = 0")
    case True
    then have "u_lo u = - 1" by (simp add: eq_neg_iff_add_eq_0)
    then have l: "unat (u_lo u) = 2 ^ 64 - 1" by (simp add: unsigned_minus_1_eq_mask mask_eq_exp_minus_1)
    have "unat (u_hi u) + 1 < 2 ^ 64"
    proof (rule ccontr)
      assume "\<not> unat (u_hi u) + 1 < 2 ^ 64"
      then have "unat (u_hi u) = 2 ^ 64 - 1" using unat64_less [of "u_hi u"] by simp
      then show False using lt l by (simp add: uval_def)
    qed
    then have "unat (u_hi u + 1) = unat (u_hi u) + 1" by (simp add: unat_plus_if')
    then show ?thesis using True l by (simp add: u128_add1_def uval_def)
  next
    case False
    then have "unat (u_lo u + 1) = unat (u_lo u) + 1" by (metis Suc_eq_plus1 add.commute unatSuc)
    then show ?thesis using False by (simp add: u128_add1_def uval_def)
  qed
qed

lemma uval_sub: "uval v \<le> uval u \<Longrightarrow> uval (u128_sub u v) = uval u - uval v"
proof -
  assume le: "uval v \<le> uval u"
  have b: "unat (u_lo u) < 2 ^ 64" "unat (u_lo v) < 2 ^ 64" by (rule unat64_less)+
  show ?thesis
  proof (cases "u_lo u < u_lo v")
    case True
    have lt: "unat (u_lo u) < unat (u_lo v)" using True by (simp add: word_less_nat_alt)
    have "unat (u_hi v) < unat (u_hi u)"
    proof (rule ccontr)
      assume "\<not> unat (u_hi v) < unat (u_hi u)"
      then have "unat (u_hi u) * 2 ^ 64 \<le> unat (u_hi v) * 2 ^ 64" by simp
      then show False using le lt unfolding uval_def by linarith
    qed
    then have h: "unat (u_hi u - u_hi v - 1) = unat (u_hi u) - unat (u_hi v) - 1"
      by (simp add: unat_sub_if')
    have l: "unat (u_lo u - u_lo v) = 2 ^ 64 + unat (u_lo u) - unat (u_lo v)"
      using lt by (simp add: unat_sub_if')
    obtain d where d: "unat (u_hi u) = unat (u_hi v) + 1 + d"
      using \<open>unat (u_hi v) < unat (u_hi u)\<close> by (metis add.assoc add.commute less_iff_Suc_add plus_1_eq_Suc)
    show ?thesis using True h l lt b d by (simp add: u128_sub_def uval_def algebra_simps)
  next
    case False
    then have l: "unat (u_lo v) \<le> unat (u_lo u)" by (simp add: word_less_nat_alt)
    have "unat (u_hi v) \<le> unat (u_hi u)"
    proof (rule ccontr)
      assume "\<not> unat (u_hi v) \<le> unat (u_hi u)"
      then have "(unat (u_hi u) + 1) * 2 ^ 64 \<le> unat (u_hi v) * 2 ^ 64" by (intro mult_right_mono) simp_all
      then show False using le b unfolding uval_def by simp
    qed
    then show ?thesis using False l
      by (simp add: u128_sub_def uval_def unat_sub word_le_nat_alt diff_mult_distrib)
  qed
qed

lemma dvd_bits: "2 ^ j dvd (n::nat) \<longleftrightarrow> (\<forall>i < j. \<not> bit n i)"
  by (simp add: take_bit_eq_0_iff [symmetric]) (auto simp: bit_eq_iff bit_take_bit_iff)

lemma less_bits: "(n::nat) < 2 ^ j \<longleftrightarrow> (\<forall>i \<ge> j. \<not> bit n i)"
  by (simp add: take_bit_nat_eq_self_iff [symmetric]) (auto simp: bit_eq_iff bit_take_bit_iff not_less [symmetric])

lemma TrailingZeros64_iff: "j \<le> 64 \<Longrightarrow> j \<le> TrailingZeros64 w \<longleftrightarrow> (\<forall>i < j. \<not> bit w i)"
proof -
  assume j: "j \<le> 64"
  have le: "TrailingZeros64 w \<le> 64"
    unfolding TrailingZeros64_def by (metis diff_zero length_takeWhile_le length_upt)
  have z: "\<not> bit w i" if "i < TrailingZeros64 w" for i
    using that le nth_mem [of i "takeWhile (\<lambda>i. \<not> bit w i) [0..<64]"]
    unfolding TrailingZeros64_def by (auto simp: takeWhile_nth dest!: set_takeWhileD)
  have b: "bit w (TrailingZeros64 w)" if "TrailingZeros64 w < 64"
    using nth_length_takeWhile [of "\<lambda>i. \<not> bit w i" "[0..<64]"] that unfolding TrailingZeros64_def by simp
  show ?thesis
  proof
    assume "j \<le> TrailingZeros64 w"
    then show "\<forall>i < j. \<not> bit w i" using z by simp
  next
    assume a: "\<forall>i < j. \<not> bit w i"
    show "j \<le> TrailingZeros64 w"
    proof (rule ccontr)
      assume "\<not> j \<le> TrailingZeros64 w"
      then show False using a b j by simp
    qed
  qed
qed

lemma Len64_iff: "Len64 w \<le> j \<longleftrightarrow> (\<forall>i \<ge> j. \<not> bit (w::64 word) i)"
proof -
  define lz where "lz = length (takeWhile (\<lambda>i. \<not> bit w i) (rev [0..<64]))"
  have L: "Len64 w = 64 - lz" by (simp add: Len64_def lz_def)
  have le: "lz \<le> 64" unfolding lz_def by (metis diff_zero length_rev length_takeWhile_le length_upt)
  have nth: "rev [0..<64] ! i = 63 - i" if "i < 64" for i :: nat using that by (simp add: rev_nth)
  have z: "\<not> bit w (63 - i)" if "i < lz" for i
    using that le nth_mem [of i "takeWhile (\<lambda>i. \<not> bit w i) (rev [0..<64])"] nth [of i]
    unfolding lz_def by (auto simp: takeWhile_nth dest!: set_takeWhileD)
  have b: "bit w (63 - lz)" if "lz < 64"
    using nth_length_takeWhile [of "\<lambda>i. \<not> bit w i" "rev [0..<64]"] that nth [of lz] unfolding lz_def by simp
  show ?thesis
  proof
    assume a: "Len64 w \<le> j"
    show "\<forall>i \<ge> j. \<not> bit w i"
    proof (intro allI impI)
      fix i
      assume "i \<ge> j"
      show "\<not> bit w i"
      proof (cases "i < 64")
        case True
        then show ?thesis using z [of "63 - i"] a L \<open>i \<ge> j\<close> by simp
      next
        case False
        then show ?thesis using bit_imp_le_length [of w i] by auto
      qed
    qed
  next
    assume a: "\<forall>i \<ge> j. \<not> bit w i"
    show "Len64 w \<le> j"
    proof (rule ccontr)
      assume "\<not> Len64 w \<le> j"
      then have "lz < 64" "j \<le> 63 - lz" using L by simp_all
      then show False using a b by blast
    qed
  qed
qed

lemma zero64_bits: "(w::64 word) = 0 \<longleftrightarrow> (\<forall>i < 64. \<not> bit w i)"
  by (auto simp: bit_eq_iff dest: bit_imp_le_length)

lemma trailingZeros_iff: "j \<le> 128 \<Longrightarrow> j \<le> u128_trailingZeros u \<longleftrightarrow> 2 ^ j dvd uval u"
proof -
  assume j: "j \<le> 128"
  show ?thesis
  proof (cases "u_lo u = 0")
    case False
    then have nz: "\<not> 64 \<le> TrailingZeros64 (u_lo u)" by (simp add: TrailingZeros64_iff zero64_bits)
    have "j \<le> TrailingZeros64 (u_lo u) \<longleftrightarrow> (\<forall>i < j. \<not> bit (uval u) i)"
    proof (cases "j \<le> 64")
      case True
      then show ?thesis by (auto simp: TrailingZeros64_iff bit_uval)
    next
      case False
      then have "\<exists>i < j. bit (uval u) i" using \<open>u_lo u \<noteq> 0\<close> by (auto simp: zero64_bits bit_uval)
      then show ?thesis using nz False by auto
    qed
    then show ?thesis using False by (simp add: u128_trailingZeros_def dvd_bits)
  next
    case True
    have "j \<le> 64 + TrailingZeros64 (u_hi u) \<longleftrightarrow> (\<forall>i < j. \<not> bit (uval u) i)"
    proof (cases "j \<le> 64")
      case False
      then have "j \<le> 64 + TrailingZeros64 (u_hi u) \<longleftrightarrow> (\<forall>i < j - 64. \<not> bit (u_hi u) i)"
        using j TrailingZeros64_iff [of "j - 64" "u_hi u"] by (simp add: le_diff_conv add.commute)
      also have "\<dots> \<longleftrightarrow> (\<forall>i < j. \<not> bit (uval u) i)"
        using True False by (auto simp: bit_uval) (metis add.commute add_diff_cancel_right' less_diff_conv not_add_less2)
      finally show ?thesis .
    qed (use True in \<open>auto simp: bit_uval\<close>)
    then show ?thesis using True by (simp add: u128_trailingZeros_def dvd_bits)
  qed
qed

lemma bitLen_iff: "u128_bitLen u \<le> j \<longleftrightarrow> uval u < 2 ^ j"
proof (cases "u_hi u = 0")
  case True
  then have "uval u = unat (u_lo u)" by (simp add: uval_def)
  then show ?thesis using True by (simp add: u128_bitLen_def Len64_iff less_bits bit_unsigned_iff possible_bit_def)
next
  case False
  show ?thesis
  proof (cases "64 \<le> j")
    case True
    have "64 + Len64 (u_hi u) \<le> j \<longleftrightarrow> (\<forall>i \<ge> j - 64. \<not> bit (u_hi u) i)" using True Len64_iff [of "u_hi u" "j - 64"] by auto
    also have "\<dots> \<longleftrightarrow> (\<forall>i \<ge> j. \<not> bit (uval u) i)"
      using True by (auto simp: bit_uval) (metis add.commute add_diff_cancel_right' le_diff_conv not_add_less2)
    finally show ?thesis using False by (simp add: u128_bitLen_def less_bits)
  next
    case small: False
    then have "uval u \<ge> 2 ^ j"
    proof -
      have "(2::nat) ^ j \<le> 2 ^ 64" using small by (intro power_increasing) auto
      also have "\<dots> \<le> unat (u_hi u) * 2 ^ 64" using False by (simp add: Suc_le_eq unat_gt_0)
      finally show ?thesis by (simp add: uval_def)
    qed
    then show ?thesis using small False by (simp add: u128_bitLen_def)
  qed
qed

subsection \<open>Blocks\<close>

text \<open>The biggest aligned block that starts at one number and ends at or before another.\<close>

definition biggest :: "nat \<Rightarrow> nat \<Rightarrow> nat \<Rightarrow> bool" where
  "biggest c e k \<longleftrightarrow> 2 ^ k dvd c \<and> c + 2 ^ k \<le> e + 1 \<and> (\<forall>j. 2 ^ j dvd c \<longrightarrow> c + 2 ^ j \<le> e + 1 \<longrightarrow> j \<le> k)"

lemma block_bits_biggest:
  assumes "uval cur \<le> uval final"
  shows "biggest (uval cur) (uval final) (block_bits cur final)"
proof -
  let ?c = "uval cur" and ?e = "uval final"
  define left where "left = ?e - ?c"
  define fit where "fit = u128_bitLen (u128_sub final cur)"
  define t where "t = (if left + 1 = 2 ^ fit then fit else fit - 1)"
  have ul: "uval (u128_sub final cur) = left" by (simp add: uval_sub [OF assms] left_def)
  have lt: "left < 2 ^ j \<longleftrightarrow> fit \<le> j" for j using bitLen_iff [of "u128_sub final cur" j] by (simp add: ul fit_def)
  have "left < 2 ^ 128" using uval_less [of final] by (simp add: left_def)
  then have f128: "fit \<le> 128" using lt by blast
  have eq: "u128_sub final cur = lowOnes fit \<longleftrightarrow> left + 1 = 2 ^ fit"
    unfolding uval_inj [symmetric] ul uval_lowOnes [OF f128] mask_eq_exp_minus_1
    by (metis Suc_eq_plus1 Suc_pred' diff_add_inverse2 zero_less_numeral zero_less_power)
  have bb: "block_bits cur final = min (u128_trailingZeros cur) t"
    unfolding block_bits_def Let_def fit_def [symmetric] eq t_def by simp
  have t: "2 ^ j \<le> left + 1 \<longleftrightarrow> j \<le> t" for j
  proof (cases "left + 1 = 2 ^ fit")
    case False
    have "left < 2 ^ fit" by (simp add: lt)
    then have "left + 1 < 2 ^ fit" "fit \<noteq> 0" using False by (auto intro: gr0I)
    moreover have "2 ^ (fit - 1) \<le> left" using lt [of "fit - 1"] \<open>fit \<noteq> 0\<close> by linarith
    moreover have "2 ^ j \<le> left + 1 \<Longrightarrow> j < fit"
      using calculation(1) by (metis le_less_trans nat_power_less_imp_less zero_less_numeral)
    moreover have "2 ^ j \<le> left + 1" if "j \<le> fit - 1"
    proof -
      have "(2::nat) ^ j \<le> 2 ^ (fit - 1)" using that by (intro power_increasing) auto
      then show ?thesis using \<open>2 ^ (fit - 1) \<le> left\<close> by linarith
    qed
    moreover have "t = fit - 1" using False by (simp add: t_def)
    ultimately show ?thesis by (metis Suc_diff_1 gr0I less_Suc_eq_le)
  qed (simp add: t_def)
  have t128: "t \<le> 128" using f128 by (auto simp: t_def)
  have fits: "?c + 2 ^ j \<le> ?e + 1 \<longleftrightarrow> j \<le> t" for j using assms t [of j] by (auto simp: left_def)
  have "2 ^ j dvd ?c \<and> j \<le> t \<longleftrightarrow> j \<le> min (u128_trailingZeros cur) t" for j
    using trailingZeros_iff [of j cur] t128 by auto
  then show ?thesis unfolding biggest_def fits bb by (metis order_refl)
qed

text \<open>The greedy tiling of an interval by biggest blocks.\<close>

inductive tiles :: "nat \<Rightarrow> nat \<Rightarrow> (nat \<times> nat) list \<Rightarrow> bool" where
  tiles_end: "biggest c e k \<Longrightarrow> c + 2 ^ k = e + 1 \<Longrightarrow> tiles c e [(c, k)]"
| tiles_more: "biggest c e k \<Longrightarrow> c + 2 ^ k \<le> e \<Longrightarrow> tiles (c + 2 ^ k) e bs \<Longrightarrow> tiles c e ((c, k) # bs)"

definition block :: "nat \<times> nat \<Rightarrow> nat set" where
  "block b = {fst b..<fst b + 2 ^ snd b}"

lemma tiles_start: "tiles c e bs \<Longrightarrow> c \<le> e"
proof (induction rule: tiles.induct)
  case (tiles_end c e k)
  moreover have "(1::nat) \<le> 2 ^ k" by simp
  ultimately show ?case by linarith
qed simp

lemma tiles_union: "tiles c e bs \<Longrightarrow> \<Union> (block ` set bs) = {c..e}"
proof (induction rule: tiles.induct)
  case (tiles_end c e k)
  then show ?case by (auto simp: block_def)
next
  case (tiles_more c e k bs)
  have "\<Union> (block ` set ((c, k) # bs)) = {c..<c + 2 ^ k} \<union> {c + 2 ^ k..e}" using tiles_more by (simp add: block_def)
  also have "\<dots> = {c..e}" using tiles_more.hyps(2) by auto
  finally show ?case .
qed

lemma tiles_sorted: "tiles c e bs \<Longrightarrow> sorted_wrt (\<lambda>a b. fst a + 2 ^ snd a \<le> fst b) bs \<and> (\<forall>b \<in> set bs. c \<le> fst b)"
  by (induction rule: tiles.induct) (auto intro: order_trans [OF le_add1])

lemma tiles_aligned: "tiles c e bs \<Longrightarrow> b \<in> set bs \<Longrightarrow> 2 ^ snd b dvd fst b \<and> fst b + 2 ^ snd b \<le> e + 1"
  by (induction rule: tiles.induct) (auto simp: biggest_def)

text \<open>Two aligned blocks that meet are nested.\<close>

lemma blocks_nested:
  assumes "2 ^ j dvd s" "2 ^ k dvd c" "x \<in> block (s, j)" "x \<in> block (c, k)" "j \<le> k"
  shows "block (s, j) \<subseteq> block (c, k)"
proof -
  obtain a where a: "s = 2 ^ j * a" using assms(1) by (rule dvdE)
  obtain b where b: "c = 2 ^ k * b" using assms(2) by (rule dvdE)
  define m :: nat where "m = 2 ^ (k - j)"
  have k: "(2::nat) ^ k = 2 ^ j * m" using assms(5) by (simp add: m_def flip: power_add)
  have x: "2 ^ j * a \<le> x" "x < 2 ^ j * (a + 1)" "2 ^ j * (m * b) \<le> x" "x < 2 ^ j * (m * b + m)"
    using assms(3,4) by (auto simp: block_def a b k algebra_simps)
  have "2 ^ j * (m * b) < 2 ^ j * (a + 1)" "2 ^ j * a < 2 ^ j * (m * b + m)" using x by linarith+
  then have "m * b < a + 1" "a < m * b + m" by (simp_all only: mult_less_cancel1)
  then have "m * b \<le> a" "a + 1 \<le> m * b + m" by simp_all
  then have "2 ^ j * (m * b) \<le> 2 ^ j * a" "2 ^ j * (a + 1) \<le> 2 ^ j * (m * b + m)" by (simp_all only: mult_le_mono2)
  then have "c \<le> s" "s + 2 ^ j \<le> c + 2 ^ k" by (simp_all add: a b k algebra_simps)
  then show ?thesis by (auto simp: block_def)
qed

text \<open>Every aligned block inside the interval is inside one of the tiles.\<close>

lemma tiles_maximal:
  "tiles c e bs \<Longrightarrow> 2 ^ j dvd s \<Longrightarrow> c \<le> s \<Longrightarrow> s + 2 ^ j \<le> e + 1 \<Longrightarrow> \<exists>b \<in> set bs. block (s, j) \<subseteq> block b"
proof (induction rule: tiles.induct)
  case (tiles_end c e k)
  then show ?case by (auto simp: block_def)
next
  case (tiles_more c e k bs)
  show ?case
  proof (cases "c + 2 ^ k \<le> s")
    case True
    then show ?thesis using tiles_more by auto
  next
    case False
    then have s: "s \<in> block (s, j)" "s \<in> block (c, k)" using tiles_more.prems by (auto simp: block_def)
    have al: "2 ^ k dvd c" using tiles_more.hyps(1) by (simp add: biggest_def)
    show ?thesis
    proof (cases "j \<le> k")
      case True
      then show ?thesis using blocks_nested [OF tiles_more.prems(1) al s] by auto
    next
      case jk: False
      then have "block (c, k) \<subseteq> block (s, j)" using blocks_nested [OF al tiles_more.prems(1) s(2,1)] by simp
      moreover have "c \<in> block (c, k)" by (simp add: block_def)
      ultimately have "c \<in> block (s, j)" by blast
      then have "s = c" using tiles_more.prems(2) by (auto simp: block_def)
      then have "j \<le> k" using tiles_more.hyps(1) tiles_more.prems by (auto simp: biggest_def)
      then show ?thesis using jk by simp
    qed
  qed
qed

text \<open>So no set of aligned blocks with the same union is smaller.\<close>

lemma tiles_fewest:
  assumes "tiles c e bs" "finite Q" "\<forall>q \<in> Q. 2 ^ snd q dvd fst q" "\<Union> (block ` Q) = {c..e}"
  shows "length bs \<le> card Q"
proof -
  have ex: "\<exists>q \<in> Q. fst b \<in> block q \<and> block q \<subseteq> block b" if b: "b \<in> set bs" for b
  proof -
    have fb: "fst b \<in> block b" by (simp add: block_def)
    then have "fst b \<in> {c..e}" using tiles_union [OF assms(1)] b by blast
    then obtain q where q: "q \<in> Q" "fst b \<in> block q" using assms(4) by blast
    have sub: "block q \<subseteq> {c..e}" using q(1) assms(4) by blast
    have pos: "(1::nat) \<le> 2 ^ snd q" by simp
    have "fst q \<in> block q" "fst q + 2 ^ snd q - 1 \<in> block q"
      unfolding block_def atLeastLessThan_iff using pos by linarith+
    then have "c \<le> fst q" "fst q + 2 ^ snd q - 1 \<le> e" using sub by (auto simp del: atLeastAtMost_iff) auto
    then have in_range: "c \<le> fst q" "fst q + 2 ^ snd q \<le> e + 1" using pos by linarith+
    have "2 ^ snd q dvd fst q" using assms(3) q(1) by blast
    from tiles_maximal [OF assms(1) this in_range] obtain b' where b': "b' \<in> set bs" "block q \<subseteq> block b'" by auto
    have "b' = b"
    proof (rule ccontr)
      assume ne: "b' \<noteq> b"
      have sw: "sorted_wrt (\<lambda>a b. fst a + 2 ^ snd a \<le> fst b) bs" using tiles_sorted [OF assms(1)] by blast
      then have "fst b + 2 ^ snd b \<le> fst b' \<or> fst b' + 2 ^ snd b' \<le> fst b"
        using b b'(1) ne by (auto simp: sorted_wrt_iff_nth_less in_set_conv_nth) (metis linorder_neqE_nat)
      moreover have "fst b \<in> block b'" using b'(2) q(2) by blast
      moreover have "(1::nat) \<le> 2 ^ snd b" by simp
      ultimately show False unfolding block_def atLeastLessThan_iff by linarith
    qed
    then show ?thesis using q b' by blast
  qed
  define f where "f b = (SOME q. q \<in> Q \<and> fst b \<in> block q \<and> block q \<subseteq> block b)" for b
  have f: "f b \<in> Q \<and> fst b \<in> block (f b) \<and> block (f b) \<subseteq> block b" if "b \<in> set bs" for b
    using someI_ex [of "\<lambda>q. q \<in> Q \<and> fst b \<in> block q \<and> block q \<subseteq> block b"] ex [OF that] unfolding f_def by blast
  have sw: "sorted_wrt (\<lambda>a b. fst a + 2 ^ snd a \<le> fst b) bs" using tiles_sorted [OF assms(1)] by blast
  have apart: "\<not> fst a + 2 ^ snd a \<le> fst a" for a :: "nat \<times> nat" by simp
  have "distinct bs" by (rule sorted_wrt_irrefl_distinct [OF sw apart])
  moreover have "inj_on f (set bs)"
  proof (rule inj_onI, rule ccontr)
    fix a b
    assume ab: "a \<in> set bs" "b \<in> set bs" "f a = f b" "a \<noteq> b"
    have "fst a + 2 ^ snd a \<le> fst b \<or> fst b + 2 ^ snd b \<le> fst a"
      using sw ab by (auto simp: sorted_wrt_iff_nth_less in_set_conv_nth) (metis linorder_neqE_nat)
    moreover have "fst a \<in> block b" using f [OF ab(1)] f [OF ab(2)] ab(3) by auto
    moreover have "(1::nat) \<le> 2 ^ snd a" by simp
    ultimately show False unfolding block_def atLeastLessThan_iff by linarith
  qed
  ultimately have "length bs = card (f ` set bs)" by (simp add: card_image distinct_card)
  also have "\<dots> \<le> card Q" using f by (intro card_mono [OF assms(2)]) blast
  finally show ?thesis .
qed

subsection \<open>The loop computes the tiles\<close>

definition addr_of :: "bool \<Rightarrow> nat \<Rightarrow> addr" where
  "addr_of v4 n = (if v4 then IPv4 (of_nat n) else IPv6 (of_nat n) [])"

lemma u128_addr_of: "u128_addr u v4 = addr_of v4 (uval u)"
proof -
  have "ucast (u_lo u) = (of_nat (uval u) :: 32 word)"
    by (rule bit_eqI) (auto simp: bit_simps bit_uval)
  moreover have "push_bit 64 (ucast (u_hi u)) OR ucast (u_lo u) = (of_nat (uval u) :: 128 word)"
    by (rule bit_eqI) (auto simp: bit_simps bit_uval dest: bit_imp_le_length)
  ultimately show ?thesis by (simp add: u128_addr_def addr_of_def)
qed

definition block_prefix :: "bool \<Rightarrow> int \<Rightarrow> nat \<times> nat \<Rightarrow> prefix" where
  "block_prefix v4 width b = PrefixFrom (addr_of v4 (fst b)) (width - int (snd b))"

lemma range_loop_tiles:
  "uval cur \<le> uval final \<Longrightarrow>
   \<exists>bs. tiles (uval cur) (uval final) bs \<and>
     range_loop v4 width cur final out = Some (out @ map (block_prefix v4 width) bs)"
proof (induction "uval final - uval cur" arbitrary: cur out rule: less_induct)
  case less
  define k where "k = block_bits cur final"
  let ?last = "u128_or cur (lowOnes k)"
  let ?out = "out @ [block_prefix v4 width (uval cur, k)]"
  have big: "biggest (uval cur) (uval final) k" unfolding k_def by (rule block_bits_biggest [OF less.prems])
  have pos: "(1::nat) \<le> 2 ^ k" by simp
  have "(2::nat) ^ k \<le> 2 ^ 128" using big uval_less [of final] unfolding biggest_def by linarith
  then have k128: "k \<le> 128" by (simp only: power_increasing_iff one_less_numeral_iff semiring_norm)
  have l: "uval ?last = uval cur + 2 ^ k - 1" using big k128 by (intro uval_last) (auto simp: biggest_def)
  have step: "range_loop v4 width cur final out =
      (if ?last = final then Some ?out else range_loop v4 width (u128_add1 ?last) final ?out)"
    by (subst range_loop.simps) (simp add: Let_def k_def block_prefix_def u128_addr_of)
  show ?case
  proof (cases "?last = final")
    case True
    then have "uval cur + 2 ^ k = uval final + 1" using l pos by simp
    then have "tiles (uval cur) (uval final) [(uval cur, k)]" using big by (rule tiles_end [rotated])
    then show ?thesis using step True by (intro exI [of _ "[(uval cur, k)]"]) simp
  next
    case False
    then have "uval ?last \<noteq> uval final" by (simp add: uval_inj)
    then have lt: "uval cur + 2 ^ k \<le> uval final" using big l pos unfolding biggest_def by linarith
    have "uval (u128_add1 ?last) = uval ?last + 1" using lt l pos uval_less [of final] by (intro uval_add1) linarith
    then have n: "uval (u128_add1 ?last) = uval cur + 2 ^ k" using l pos by simp
    have "uval final - uval (u128_add1 ?last) < uval final - uval cur" using n lt pos by linarith
    from less.hyps [OF this, of ?out] obtain bs where bs: "tiles (uval cur + 2 ^ k) (uval final) bs"
      "range_loop v4 width (u128_add1 ?last) final ?out = Some (?out @ map (block_prefix v4 width) bs)"
      using n lt by auto
    have "tiles (uval cur) (uval final) ((uval cur, k) # bs)" using big lt bs(1) by (rule tiles_more)
    then show ?thesis using step False bs(2) by (intro exI [of _ "(uval cur, k) # bs"]) simp
  qed
qed

subsection \<open>Prefixes as blocks\<close>

fun num :: "addr \<Rightarrow> nat" where
  "num ZeroAddr = 0"
| "num (IPv4 w) = unat w"
| "num (IPv6 w z) = unat w"

lemma uval_u128Of: "uval (u128Of a) = num a"
proof (cases a)
  case (IPv4 w)
  have "uval (u128Of (IPv4 w)) = unat w"
    by (rule bit_eqI) (auto simp: bit_simps bit_uval dest: bit_imp_le_length)
  then show ?thesis using IPv4 by simp
next
  case (IPv6 w z)
  have "uval (u128Of (IPv6 w z)) = unat w"
    by (rule bit_eqI) (auto simp: bit_simps bit_uval dest: bit_imp_le_length)
  then show ?thesis using IPv6 by simp
qed (simp add: uval_def)

lemma num_less: "num a < 2 ^ nat (BitLen a)"
proof (cases a)
  case (IPv4 w)
  have "unat w < 2 ^ LENGTH(32)" by (rule unsigned_less)
  then show ?thesis using IPv4 by simp
next
  case (IPv6 w z)
  have "unat w < 2 ^ LENGTH(128)" by (rule unsigned_less)
  then show ?thesis using IPv6 by simp
qed simp

lemma num_inj: "a \<noteq> ZeroAddr \<Longrightarrow> BitLen a = BitLen b \<Longrightarrow> zone a = zone b \<Longrightarrow> num a = num b \<Longrightarrow> a = b"
  by (cases a; cases b) (auto intro: word_unat_eq_iff [THEN iffD2])

lemma addr_less_num: "a \<noteq> ZeroAddr \<Longrightarrow> BitLen a = BitLen b \<Longrightarrow> addr_less a b \<longleftrightarrow> num a < num b"
  by (cases a; cases b) (auto simp: word_less_nat_alt)

text \<open>The block of a valid prefix: its network's number, and its count of host bits.\<close>

definition prefix_block :: "prefix \<Rightarrow> nat \<times> nat" where
  "prefix_block p =
     (let k = nat (BitLen (Addr p) - Bits p) in (num (Addr p) div 2 ^ k * 2 ^ k, k))"

lemma in_aligned_block: "x \<in> block (m div 2 ^ k * 2 ^ k, k) \<longleftrightarrow> x div 2 ^ k = m div 2 ^ k"
proof -
  have "x \<in> block (q * 2 ^ k, k) \<longleftrightarrow> x div 2 ^ k = q" for q
  proof
    assume "x \<in> block (q * 2 ^ k, k)"
    then have "q * 2 ^ k \<le> x" "x < (q + 1) * 2 ^ k" by (auto simp: block_def)
    then show "x div 2 ^ k = q"
      by (metis Suc_eq_plus1 div_nat_eqI mult.commute)
  next
    assume q: "x div 2 ^ k = q"
    have "x = q * 2 ^ k + x mod 2 ^ k" "x mod 2 ^ k < 2 ^ k" using div_mult_mod_eq [of x "2 ^ k"] q by auto
    then show "x \<in> block (q * 2 ^ k, k)"
      unfolding block_def atLeastLessThan_iff fst_conv snd_conv by linarith
  qed
  then show ?thesis by blast
qed

lemma drop_xor: "drop_bit k w XOR drop_bit k v = 0 \<longleftrightarrow> unat w div 2 ^ k = unat (v :: 'a::len word) div 2 ^ k"
proof -
  have "drop_bit k w XOR drop_bit k v = 0 \<longleftrightarrow> drop_bit k w = drop_bit k v"
    by (auto simp: bit_eq_iff bit_xor_iff)
  also have "\<dots> \<longleftrightarrow> unat (drop_bit k w) = unat (drop_bit k v)" by (simp add: word_unat_eq_iff)
  also have "\<dots> \<longleftrightarrow> unat w div 2 ^ k = unat v div 2 ^ k"
    by (simp only: unat_drop_bit_eq drop_bit_eq_div [where 'a = nat])
  finally show ?thesis .
qed

lemma mask_xor: "(x AND NOT (mask k) :: 'a::len word) = 0 \<longleftrightarrow> drop_bit k x = 0"
proof -
  have "drop_bit k (x AND NOT (mask k)) = drop_bit k x"
    by (rule bit_eqI) (auto simp: bit_simps dest: bit_imp_le_length)
  moreover have "x AND NOT (mask k) = push_bit k (drop_bit k x)" by (rule bit_eqI) (auto simp: bit_simps)
  ultimately show ?thesis by (metis drop_bit_of_0 push_bit_of_0)
qed

lemma prefix_Contains_block:
  assumes "prefix_isValid p" "Addr p \<noteq> ZeroAddr" "zone a = []" "BitLen a = BitLen (Addr p)"
  shows "prefix_Contains p a \<longleftrightarrow> num a \<in> block (prefix_block p)"
  using assms
  by (cases "Addr p"; cases a)
    (auto simp: prefix_Contains_def prefix_block_def Let_def in_aligned_block drop_xor mask_xor)

lemma prefix_block_aligned: "2 ^ snd (prefix_block p) dvd fst (prefix_block p)"
  by (simp add: prefix_block_def Let_def)

lemma block_prefix_block:
  assumes "2 ^ k dvd c" "c + 2 ^ k \<le> 2 ^ nat width" "width = (if v4 then 32 else 128)"
  shows "prefix_block (block_prefix v4 width (c, k)) = (c, k)" "prefix_isValid (block_prefix v4 width (c, k))"
    "Addr (block_prefix v4 width (c, k)) = addr_of v4 c" "wf_prefix (block_prefix v4 width (c, k))"
proof -
  have pos: "(1::nat) \<le> 2 ^ k" by simp
  have "(2::nat) ^ k \<le> 2 ^ nat width" using assms(2) by linarith
  then have k: "k \<le> nat width" by (simp only: power_increasing_iff one_less_numeral_iff semiring_norm)
  then have ik: "int k \<le> width" using assms(3) by (auto split: if_splits)
  have c: "c < 2 ^ nat width" using assms(2) pos by linarith
  have a: "num (addr_of v4 c) = c" "BitLen (addr_of v4 c) = width" "addr_of v4 c \<noteq> ZeroAddr"
    "withoutZone (addr_of v4 c) = addr_of v4 c"
    using c assms(3) by (auto simp: addr_of_def unat_of_nat take_bit_nat_eq_self split: if_splits)
  have b: "block_prefix v4 width (c, k) = \<lparr>Addr = addr_of v4 c, Bits = width - int k\<rparr>"
    using a ik by (simp add: block_prefix_def PrefixFrom_def)
  show "prefix_block (block_prefix v4 width (c, k)) = (c, k)"
    unfolding b using a assms(1) by (simp add: prefix_block_def)
  show "prefix_isValid (block_prefix v4 width (c, k))" unfolding b using ik by (simp add: prefix_isValid_def)
  show "Addr (block_prefix v4 width (c, k)) = addr_of v4 c" unfolding b by simp
  show "wf_prefix (block_prefix v4 width (c, k))" by (simp add: block_prefix_def)
qed

lemma AddrRangePrefixes_tiles:
  assumes "lo \<noteq> ZeroAddr" "zone lo = []" "zone hi = []" "BitLen lo = BitLen hi" "\<not> addr_less hi lo"
  shows "\<exists>bs. tiles (num lo) (num hi) bs \<and>
    AddrRangePrefixes lo hi = Some (Inr (map (block_prefix (Is4 lo) (BitLen lo)) bs))"
proof -
  have hi: "hi \<noteq> ZeroAddr" using assms(1,4) by (cases lo; cases hi) auto
  have "num lo \<le> num hi" using addr_less_num [OF hi assms(4) [symmetric]] assms(5) by simp
  then obtain bs where "tiles (num lo) (num hi) bs"
    "range_loop (Is4 lo) (BitLen lo) (u128Of lo) (u128Of hi) [] = Some (map (block_prefix (Is4 lo) (BitLen lo)) bs)"
    using range_loop_tiles [of "u128Of lo" "u128Of hi" "Is4 lo" "BitLen lo" "[]"] by (auto simp: uval_u128Of)
  then show ?thesis using assms hi by (auto simp: AddrRangePrefixes_def addr_isValid_def)
qed

lemma tiles_prefixes:
  assumes "tiles (num lo) (num hi) bs" "lo \<noteq> ZeroAddr" "BitLen lo = BitLen hi" "b \<in> set bs"
  shows "prefix_block (block_prefix (Is4 lo) (BitLen lo) b) = b" "prefix_isValid (block_prefix (Is4 lo) (BitLen lo) b)"
    "Addr (block_prefix (Is4 lo) (BitLen lo) b) \<noteq> ZeroAddr" "BitLen (Addr (block_prefix (Is4 lo) (BitLen lo) b)) = BitLen lo"
    "wf_prefix (block_prefix (Is4 lo) (BitLen lo) b)"
proof -
  have w: "BitLen lo = (if Is4 lo then 32 else 128)" using assms(2) by (rule BitLen_cases)
  have "fst b + 2 ^ snd b \<le> num hi + 1" "2 ^ snd b dvd fst b" using tiles_aligned [OF assms(1,4)] by auto
  moreover have "num hi < 2 ^ nat (BitLen lo)" using num_less [of hi] assms(3) by simp
  ultimately have *: "2 ^ snd b dvd fst b" "fst b + 2 ^ snd b \<le> 2 ^ nat (BitLen lo)" by linarith+
  note bp = block_prefix_block [OF * w, unfolded prod.collapse]
  show "prefix_block (block_prefix (Is4 lo) (BitLen lo) b) = b" "prefix_isValid (block_prefix (Is4 lo) (BitLen lo) b)"
    "wf_prefix (block_prefix (Is4 lo) (BitLen lo) b)" by (rule bp)+
  show "Addr (block_prefix (Is4 lo) (BitLen lo) b) \<noteq> ZeroAddr" "BitLen (Addr (block_prefix (Is4 lo) (BitLen lo) b)) = BitLen lo"
    unfolding bp(3) using w by (auto simp: addr_of_def)
qed

text \<open>The addresses a list of prefixes holds, as the union of their blocks.\<close>

lemma cover_blocks:
  assumes "\<forall>p \<in> set ps. prefix_isValid p \<and> Addr p \<noteq> ZeroAddr \<and> BitLen (Addr p) = BitLen lo" "lo \<noteq> ZeroAddr"
    "\<forall>a. BitLen a = BitLen lo \<and> zone a = [] \<longrightarrow>
      ((\<exists>p \<in> set ps. prefix_Contains p a) \<longleftrightarrow> num lo \<le> num a \<and> num a \<le> num hi)" "num hi < 2 ^ nat (BitLen lo)"
  shows "\<Union> (block ` prefix_block ` set ps) = {num lo..num hi}"
proof -
  have w: "BitLen lo = (if Is4 lo then 32 else 128)" using assms(2) by (rule BitLen_cases)
  have in_w: "n < 2 ^ nat (BitLen lo)" if "p \<in> set ps" "n \<in> block (prefix_block p)" for p n
  proof -
    let ?k = "nat (BitLen (Addr p) - Bits p)"
    have p: "prefix_isValid p" "BitLen (Addr p) = BitLen lo" using assms(1) that(1) by auto
    have le: "?k \<le> nat (BitLen lo)" using p by (simp add: prefix_isValid_def)
    have "n div 2 ^ ?k = num (Addr p) div 2 ^ ?k"
      using that(2) unfolding prefix_block_def Let_def in_aligned_block .
    also have "\<dots> < 2 ^ (nat (BitLen lo) - ?k)"
      using num_less [of "Addr p"] p le by (intro less_mult_imp_div_less) (simp flip: power_add)
    finally have "n < 2 ^ (nat (BitLen lo) - ?k) * 2 ^ ?k" by (simp add: div_less_iff_less_mult)
    then show ?thesis using le by (simp flip: power_add)
  qed
  have num_of: "num (addr_of (Is4 lo) n) = n \<and> BitLen (addr_of (Is4 lo) n) = BitLen lo \<and> zone (addr_of (Is4 lo) n) = []"
    if "n < 2 ^ nat (BitLen lo)" for n
    using that w by (auto simp: addr_of_def unat_of_nat take_bit_nat_eq_self)
  have "(\<exists>p \<in> set ps. n \<in> block (prefix_block p)) \<longleftrightarrow> n \<in> {num lo..num hi}" for n
  proof (cases "n < 2 ^ nat (BitLen lo)")
    case True
    note a = num_of [OF True]
    have "prefix_Contains p (addr_of (Is4 lo) n) \<longleftrightarrow> n \<in> block (prefix_block p)" if "p \<in> set ps" for p
      using prefix_Contains_block [of p "addr_of (Is4 lo) n"] a assms(1) that by auto
    moreover have "(\<exists>p \<in> set ps. prefix_Contains p (addr_of (Is4 lo) n)) \<longleftrightarrow> num lo \<le> n \<and> n \<le> num hi"
      using assms(3) [rule_format, of "addr_of (Is4 lo) n"] a by simp
    ultimately show ?thesis by simp
  next
    case False
    then show ?thesis using in_w assms(4) by auto
  qed
  then show ?thesis by (auto simp: set_eq_iff)
qed

lemma LastAddr_num:
  assumes "wf_prefix p" "prefix_isValid p"
  shows "num (LastAddr p) = fst (prefix_block p) + 2 ^ snd (prefix_block p) - 1"
    "BitLen (LastAddr p) = BitLen (Addr p)" "zone (LastAddr p) = []" "LastAddr p \<noteq> ZeroAddr"
proof -
  let ?k = "nat (BitLen (Addr p) - Bits p)" and ?n = "num (Addr p)"
  have a: "Addr p \<noteq> ZeroAddr" "0 \<le> Bits p" "Bits p \<le> BitLen (Addr p)" using assms by (auto simp: wf_prefix_def prefix_isValid_def)
  have w: "BitLen (Addr p) = (if Is4 (Addr p) then 32 else 128)" using a(1) by (rule BitLen_cases)
  have k: "?k \<le> nat (BitLen (Addr p))" "?k \<le> 128" using a w by auto
  define m where "m = ?n div 2 ^ ?k * 2 ^ ?k + (2 ^ ?k - 1)"
  have "uval (u128_or (u128Of (Addr p)) (lowOnes ?k)) = m"
    by (simp add: uval_or uval_lowOnes [OF k(2)] uval_u128Of or_mask_nat m_def)
  then have L: "LastAddr p = addr_of (Is4 (Addr p)) m" using assms(2) by (simp add: LastAddr_def Let_def u128_addr_of)
  have "?n div 2 ^ ?k < 2 ^ (nat (BitLen (Addr p)) - ?k)"
    using num_less [of "Addr p"] k(1) by (intro less_mult_imp_div_less) (simp flip: power_add)
  then have "(?n div 2 ^ ?k + 1) * 2 ^ ?k \<le> 2 ^ (nat (BitLen (Addr p)) - ?k) * 2 ^ ?k" by (intro mult_right_mono) auto
  also have "\<dots> = 2 ^ nat (BitLen (Addr p))" using k(1) by (simp flip: power_add)
  finally have "?n div 2 ^ ?k * 2 ^ ?k + 2 ^ ?k \<le> 2 ^ nat (BitLen (Addr p))" by (simp add: add.commute)
  moreover have "(1::nat) \<le> 2 ^ ?k" by simp
  ultimately have "m < 2 ^ nat (BitLen (Addr p))" unfolding m_def by linarith
  then have "num (addr_of (Is4 (Addr p)) m) = m" using w by (auto simp: addr_of_def unat_of_nat take_bit_nat_eq_self)
  moreover have "(1::nat) \<le> 2 ^ ?k" by simp
  ultimately show "num (LastAddr p) = fst (prefix_block p) + 2 ^ snd (prefix_block p) - 1"
    by (simp add: L m_def prefix_block_def Let_def)
  show "BitLen (LastAddr p) = BitLen (Addr p)" "zone (LastAddr p) = []" "LastAddr p \<noteq> ZeroAddr"
    unfolding L w by (simp_all add: addr_of_def)
qed

subsection \<open>Properties\<close>

text \<open>(C12) For two zoneless addresses of one family in order, \<^verbatim>\<open>AddrRangePrefixes\<close> returns, and the
  prefixes it returns hold exactly the addresses from the first to the last, are in address order
  without overlap, and are the fewest that do: no list of valid prefixes of the family holding
  exactly those addresses is shorter.\<close>

theorem AddrRangePrefixes_fewest:
  assumes "lo \<noteq> ZeroAddr" "zone lo = []" "zone hi = []" "BitLen lo = BitLen hi" "\<not> addr_less hi lo"
  shows "\<exists>ps. AddrRangePrefixes lo hi = Some (Inr ps) \<and>
    (\<forall>a. BitLen a = BitLen lo \<and> zone a = [] \<longrightarrow>
      ((\<exists>p \<in> set ps. prefix_Contains p a) \<longleftrightarrow> \<not> addr_less a lo \<and> \<not> addr_less hi a)) \<and>
    sorted_wrt (\<lambda>p q. num (LastAddr p) < num (Addr q)) ps \<and>
    (\<forall>qs. (\<forall>q \<in> set qs. prefix_isValid q \<and> Addr q \<noteq> ZeroAddr \<and> BitLen (Addr q) = BitLen lo) \<longrightarrow>
      (\<forall>a. BitLen a = BitLen lo \<and> zone a = [] \<longrightarrow>
        ((\<exists>q \<in> set qs. prefix_Contains q a) \<longleftrightarrow> \<not> addr_less a lo \<and> \<not> addr_less hi a)) \<longrightarrow>
      length ps \<le> length qs)"
proof -
  let ?f = "block_prefix (Is4 lo) (BitLen lo)"
  have hi: "hi \<noteq> ZeroAddr" using assms(1,4) by (cases lo; cases hi) auto
  obtain bs where bs: "tiles (num lo) (num hi) bs" "AddrRangePrefixes lo hi = Some (Inr (map ?f bs))"
    using AddrRangePrefixes_tiles [OF assms] by blast
  note f = tiles_prefixes [OF bs(1) assms(1,4)]
  have between: "\<not> addr_less a lo \<and> \<not> addr_less hi a \<longleftrightarrow> num lo \<le> num a \<and> num a \<le> num hi"
    if "BitLen a = BitLen lo" for a
  proof -
    have "a \<noteq> ZeroAddr" using that assms(1) by (cases a; cases lo) auto
    then show ?thesis using addr_less_num [of a lo] addr_less_num [OF hi, of a] that assms(4) by auto
  qed
  have "(\<exists>p \<in> set (map ?f bs). prefix_Contains p a) \<longleftrightarrow> \<not> addr_less a lo \<and> \<not> addr_less hi a"
    if a: "BitLen a = BitLen lo" "zone a = []" for a
  proof -
    have "prefix_Contains (?f b) a \<longleftrightarrow> num a \<in> block b" if "b \<in> set bs" for b
      using prefix_Contains_block [OF f(2,3) [OF that] a(2)] f(1,4) [OF that] a(1) by simp
    then have "(\<exists>p \<in> set (map ?f bs). prefix_Contains p a) \<longleftrightarrow> num a \<in> \<Union> (block ` set bs)" by auto
    then show ?thesis unfolding tiles_union [OF bs(1)] between [OF a(1)] by simp
  qed
  moreover have "sorted_wrt (\<lambda>p q. num (LastAddr p) < num (Addr q)) (map ?f bs)"
  proof -
    have "num (LastAddr (?f b)) < num (Addr (?f c))" if "b \<in> set bs" "c \<in> set bs" "fst b + 2 ^ snd b \<le> fst c" for b c
    proof -
      have "fst (prefix_block (?f c)) \<le> num (Addr (?f c))" by (simp add: prefix_block_def Let_def)
      moreover have "(1::nat) \<le> 2 ^ snd b" by simp
      ultimately show ?thesis
        using LastAddr_num(1) [OF f(5,2) [OF that(1)]] that(3) unfolding f(1) [OF that(1)] f(1) [OF that(2)] by linarith
    qed
    then show ?thesis unfolding sorted_wrt_map
      using tiles_sorted [OF bs(1)] by (auto intro: sorted_wrt_mono_rel [rotated])
  qed
  moreover have "length (map ?f bs) \<le> length qs"
    if "\<forall>q \<in> set qs. prefix_isValid q \<and> Addr q \<noteq> ZeroAddr \<and> BitLen (Addr q) = BitLen lo"
      "\<forall>a. BitLen a = BitLen lo \<and> zone a = [] \<longrightarrow>
        ((\<exists>q \<in> set qs. prefix_Contains q a) \<longleftrightarrow> \<not> addr_less a lo \<and> \<not> addr_less hi a)" for qs
  proof -
    have "\<Union> (block ` prefix_block ` set qs) = {num lo..num hi}"
      using that between num_less [of hi] assms(4) by (intro cover_blocks [OF _ assms(1)]) auto
    then have "length bs \<le> card (prefix_block ` set qs)"
      by (intro tiles_fewest [OF bs(1)]) (auto simp: prefix_block_aligned)
    also have "\<dots> \<le> length qs" using card_image_le [of "set qs"] card_length [of qs] by (meson List.finite_set le_trans)
    finally show ?thesis by simp
  qed
  ultimately show ?thesis using bs(2) by blast
qed

theorem AddrRangePrefixes_fewest_witness:
  "\<exists>ps. AddrRangePrefixes (IPv4 0xC0000000) (IPv4 0xC00004FF) = Some (Inr ps) \<and>
    (\<exists>p \<in> set ps. prefix_Contains p (IPv4 0xC0000401)) \<and>
    \<not> (\<exists>p \<in> set ps. prefix_Contains p (IPv4 0xC0000501))"
proof -
  let ?lo = "IPv4 0xC0000000" and ?hi = "IPv4 0xC00004FF"
  obtain ps where ps: "AddrRangePrefixes ?lo ?hi = Some (Inr ps)"
    "\<forall>a. BitLen a = BitLen ?lo \<and> zone a = [] \<longrightarrow>
      ((\<exists>p \<in> set ps. prefix_Contains p a) \<longleftrightarrow> \<not> addr_less a ?lo \<and> \<not> addr_less ?hi a)"
    using AddrRangePrefixes_fewest [of ?lo ?hi] by auto
  show ?thesis using ps(1) ps(2) [rule_format, of "IPv4 0xC0000401"] ps(2) [rule_format, of "IPv4 0xC0000501"]
    by simp
qed

text \<open>The last address of a valid prefix is in it and no address of it is greater; it is the
  zero address for an invalid prefix.\<close>

theorem LastAddr_greatest:
  assumes "wf_prefix p"
  shows "if prefix_isValid p
    then prefix_Contains p (LastAddr p) \<and> (\<forall>a. prefix_Contains p a \<longrightarrow> \<not> addr_less (LastAddr p) a)
    else LastAddr p = ZeroAddr"
proof (cases "prefix_isValid p")
  case True
  have z: "Addr p \<noteq> ZeroAddr" using assms True by (auto simp: wf_prefix_def prefix_isValid_def)
  note l = LastAddr_num [OF assms True]
  have pos: "(1::nat) \<le> 2 ^ snd (prefix_block p)" by simp
  have "num (LastAddr p) \<in> block (prefix_block p)"
    unfolding l(1) block_def atLeastLessThan_iff using pos by linarith
  then have "prefix_Contains p (LastAddr p)" using prefix_Contains_block [OF True z l(3,2)] by blast
  moreover have "\<not> addr_less (LastAddr p) a" if "prefix_Contains p a" for a
  proof -
    have a: "zone a = []" "BitLen a = BitLen (Addr p)"
      using that by (auto simp: prefix_Contains_def split: if_splits addr.splits)
    have "num a \<in> block (prefix_block p)" using that prefix_Contains_block [OF True z a] by blast
    then have "num a \<le> num (LastAddr p)" unfolding l(1) block_def atLeastLessThan_iff by linarith
    then show ?thesis using addr_less_num [OF l(4), of a] l(2) a(2) by simp
  qed
  ultimately show ?thesis using True by simp
qed (simp add: LastAddr_def)

theorem LastAddr_greatest_witness:
  "wf_prefix (PrefixFrom (IPv4 0x0A000001) 8) \<and> LastAddr (PrefixFrom (IPv4 0x0A000001) 8) = IPv4 0x0AFFFFFF \<and>
   prefix_Contains (PrefixFrom (IPv4 0x0A000001) 8) (IPv4 0x0AFFFFFF)"
proof -
  have l: "LastAddr (PrefixFrom (IPv4 0x0A000001) 8) = IPv4 0x0AFFFFFF" by code_simp
  have v: "prefix_isValid (PrefixFrom (IPv4 0x0A000001) 8)" by code_simp
  show ?thesis using LastAddr_greatest [OF wf_prefix_PrefixFrom, of "IPv4 0x0A000001" 8] l v by simp
qed

end
