(* ===== verification/Lexer.thy ===== *)
theory Lexer
  imports Go_Text
begin

text \<open>
  The line-oriented scanner (\<^verbatim>\<open>src/lexer/lexer.go\<close>): physical lines with their terminators, the
  classification of a line, the folding loop of \<^verbatim>\<open>TokenizeAt\<close> with its shared segment array and the
  compaction at its end, and the map from a folded value back to the source.

  The loop is related to \<open>units\<close>, the list of lines cut into attributes with their continuation
  lines and single other lines; that a token stream is a partition of the source, that the source map
  is exact, and (in the theories of objects) that edited text parses back are proved through it.
\<close>

subsection \<open>Data\<close>

datatype Kind = KindAttribute | KindBlank | KindComment | KindMalformed

record Span =
  StartLine :: int
  StartCol :: int
  EndLine :: int
  EndCol :: int
  StartByte :: int
  EndByte :: int

record Segment =
  ValStart :: int
  ValEnd :: int
  SrcLine :: int
  SrcCol :: int
  SrcByte :: int

record Token =
  tKind :: Kind
  tName :: string
  tValue :: string
  tRaw :: string
  tSpan :: Span
  tSegments :: "Segment list"

record physLine =
  ptext :: string
  pterm :: string
  pstart :: nat
  pline :: nat

definition zeroSpan :: Span where
  "zeroSpan = \<lparr>StartLine = 0, StartCol = 0, EndLine = 0, EndCol = 0, StartByte = 0, EndByte = 0\<rparr>"

definition zeroToken :: Token where
  "zeroToken = \<lparr>tKind = KindAttribute, tName = [], tValue = [], tRaw = [], tSpan = zeroSpan, tSegments = []\<rparr>"

subsection \<open>Positions\<close>

text \<open>The loop of \<^verbatim>\<open>SourceAt\<close> over the segments.\<close>

fun source_loop :: "Segment list \<Rightarrow> int \<Rightarrow> (int \<times> int \<times> int) option" where
  "source_loop [] valOffset = None"
| "source_loop (s # ss) valOffset =
     (if valOffset \<le> ValEnd s
      then let d = max 0 (valOffset - ValStart s) in Some (SrcLine s, SrcCol s + d, SrcByte s + d)
      else source_loop ss valOffset)"

definition SourceAt :: "Token \<Rightarrow> int \<Rightarrow> int \<times> int \<times> int" where
  "SourceAt t valOffset =
     (if tSegments t = [] then (StartLine (tSpan t), StartCol (tSpan t), StartByte (tSpan t))
      else case source_loop (tSegments t) (max 0 valOffset) of
             Some p \<Rightarrow> p
           | None \<Rightarrow>
               let l = List.last (tSegments t); d = ValEnd l - ValStart l in
               (SrcLine l, SrcCol l + d, SrcByte l + d))"

subsection \<open>Lines\<close>

definition LF :: char where "LF = CHR 0x0A"
definition CR :: char where "CR = CHR 0x0D"

function scanLinesFrom :: "string \<Rightarrow> nat \<Rightarrow> nat \<Rightarrow> physLine list" where
  "scanLinesFrom src start lineNo =
     (if src = [] then []
      else let body = takeWhile (\<lambda>c. c \<noteq> LF) src; rest = dropWhile (\<lambda>c. c \<noteq> LF) src in
        if rest \<noteq> []
        then (if body \<noteq> [] \<and> List.last body = CR
              then \<lparr>ptext = butlast body, pterm = [CR, LF], pstart = start, pline = lineNo\<rparr>
              else \<lparr>ptext = body, pterm = [LF], pstart = start, pline = lineNo\<rparr>)
             # scanLinesFrom (tl rest) (start + length body + 1) (lineNo + 1)
        else if body \<noteq> [] \<and> List.last body = CR
        then [\<lparr>ptext = butlast body, pterm = [CR], pstart = start, pline = lineNo\<rparr>]
        else [\<lparr>ptext = body, pterm = [], pstart = start, pline = lineNo\<rparr>])"
  by pat_completeness auto
termination
proof (relation "measure (\<lambda>(s, _, _). length s)")
  fix src :: string and start lineNo :: nat and x xa
  assume a: "xa = dropWhile (\<lambda>c. c \<noteq> LF) src" "xa \<noteq> []"
  have "length xa \<le> length src" unfolding a(1) by (rule length_dropWhile_le)
  then have "length (tl xa) < length src" using a(2) by (cases xa) simp_all
  then show "((tl xa, start + length x + 1, lineNo + 1), src, start, lineNo) \<in> measure (\<lambda>(s, _, _). length s)" by simp
qed simp

declare scanLinesFrom.simps [simp del]

definition scanLines :: "string \<Rightarrow> physLine list" where
  "scanLines src = scanLinesFrom src 0 1"

definition IsBlankLine :: "string \<Rightarrow> bool" where
  "IsBlankLine line \<longleftrightarrow> list_all (\<lambda>c. c = CHR '' '' \<or> c = CHR 0x09) line"

fun colon_before_hash :: "string \<Rightarrow> bool" where
  "colon_before_hash [] = False"
| "colon_before_hash (c # s) = (if c = CHR '':'' then True else if c = CHR ''#'' then False else colon_before_hash s)"

definition StartsAttribute :: "string \<Rightarrow> bool" where
  "StartsAttribute line =
     (if line = [] then False
      else if hd line \<in> {CHR '' '', CHR 0x09, CHR ''+'', CHR ''#''} then False
      else colon_before_hash line)"

definition classify :: "string \<Rightarrow> bool \<Rightarrow> Kind \<times> bool" where
  "classify text haveCur =
     (if IsBlankLine text then (KindBlank, False)
      else if hd text = CHR '' '' \<or> hd text = CHR 0x09 \<or> hd text = CHR ''+''
      then (if haveCur then (KindAttribute, True) else (KindMalformed, False))
      else if hd text = CHR ''#'' then (KindComment, False)
      else if StartsAttribute text then (KindAttribute, False)
      else (KindMalformed, False))"

subsection \<open>Values\<close>

definition trimPos :: "string \<Rightarrow> nat \<Rightarrow> string \<times> nat" where
  "trimPos content from =
     (let s = drop from content in
      (Trim s blanks, from + length (takeWhile (\<lambda>c. c \<in> set blanks) s)))"

definition CanonicalName :: "string \<Rightarrow> string" where
  "CanonicalName name = map lower (fst (trimPos name 0))"

definition cut_comment :: "string \<Rightarrow> string" where
  "cut_comment text = takeWhile (\<lambda>c. c \<noteq> CHR ''#'') text"

definition splitAttr :: "string \<Rightarrow> string \<times> string \<times> nat" where
  "splitAttr text =
     (let content = cut_comment text; idx = length (takeWhile (\<lambda>c. c \<noteq> CHR '':'') content) in
      if idx = length content
      then (let (v, off) = trimPos content 0 in ([], v, off))
      else (let (v, off) = trimPos content (idx + 1) in (CanonicalName (take idx content), v, off)))"

definition contValue :: "string \<Rightarrow> bool \<Rightarrow> string \<times> nat" where
  "contValue text keepComment =
     (let content = (if keepComment then text else cut_comment text) in
      if content = [] then ([], 0)
      else if hd content = CHR ''+'' then trimPos content 1
      else trimPos content 0)"

definition ValueWithComments :: "string \<Rightarrow> string" where
  "ValueWithComments raw =
     (case scanLines raw of
        [] \<Rightarrow> []
      | pl # pls \<Rightarrow>
          if \<not> StartsAttribute (ptext pl) then []
          else Join (fst (trimPos (ptext pl) (length (takeWhile (\<lambda>c. c \<noteq> CHR '':'') (ptext pl)) + 1))
                     # map (\<lambda>pl. fst (contValue (ptext pl) True)) pls) [LF])"

subsection \<open>The folding loop\<close>

record lexState =
  ltoks :: "Token list"
  lall :: "Segment list"
  lcur :: Token
  lhave :: bool
  lstart :: nat
  lseg :: nat
  lsegs :: "string list"
  lvalOff :: int

definition lex_init :: lexState where
  "lex_init = \<lparr>ltoks = [], lall = [], lcur = zeroToken, lhave = False, lstart = 0, lseg = 0, lsegs = [], lvalOff = 0\<rparr>"

text \<open>\<^verbatim>\<open>flush\<close>: close the attribute being folded; its raw text is a slice of the source.\<close>

definition lex_flush :: "string \<Rightarrow> int \<Rightarrow> lexState \<Rightarrow> lexState" where
  "lex_flush src byteOffset st =
     (if lhave st
      then let e = nat (EndByte (tSpan (lcur st)) - byteOffset);
               t = (lcur st)\<lparr>tRaw := drop (lstart st) (take e src),
                             tValue := Join (lsegs st) [LF],
                             tSegments := drop (lseg st) (lall st)\<rparr> in
           st\<lparr>ltoks := ltoks st @ [t], lhave := False, lsegs := [], lvalOff := 0\<rparr>
      else st)"

definition lex_line :: "string \<Rightarrow> int \<Rightarrow> int \<Rightarrow> physLine \<Rightarrow> lexState \<Rightarrow> lexState" where
  "lex_line src lineBase byteOffset pl st =
     (let endByte = pstart pl + length (ptext pl) + length (pterm pl);
          (kind, isCont) = classify (ptext pl) (lhave st) in
      if isCont
      then let (val, off) = contValue (ptext pl) False;
               sp = (tSpan (lcur st))\<lparr>EndLine := lineBase + int (pline pl), EndCol := int (length (ptext pl)) + 1,
                                      EndByte := byteOffset + int endByte\<rparr> in
        st\<lparr>lcur := (lcur st)\<lparr>tSpan := sp\<rparr>,
           lsegs := lsegs st @ [val],
           lall := lall st @ [\<lparr>ValStart = lvalOff st, ValEnd = lvalOff st + int (length val),
             SrcLine = lineBase + int (pline pl), SrcCol = int off + 1,
             SrcByte = byteOffset + int (pstart pl) + int off\<rparr>],
           lvalOff := lvalOff st + int (length val) + 1\<rparr>
      else
        let st = lex_flush src byteOffset st;
            sp = \<lparr>StartLine = lineBase + int (pline pl), StartCol = 1,
                  EndLine = lineBase + int (pline pl), EndCol = int (length (ptext pl)) + 1,
                  StartByte = byteOffset + int (pstart pl), EndByte = byteOffset + int endByte\<rparr> in
        if kind = KindAttribute
        then let (name, val, off) = splitAttr (ptext pl) in
          st\<lparr>lcur := zeroToken\<lparr>tKind := KindAttribute, tName := name, tSpan := sp\<rparr>, lhave := True,
             lstart := pstart pl, lseg := length (lall st),
             lsegs := [val],
             lall := lall st @ [\<lparr>ValStart = 0, ValEnd = int (length val),
               SrcLine = lineBase + int (pline pl), SrcCol = int off + 1,
               SrcByte = byteOffset + int (pstart pl) + int off\<rparr>],
             lvalOff := int (length val) + 1\<rparr>
        else st\<lparr>ltoks := ltoks st @
               [zeroToken\<lparr>tKind := kind, tRaw := drop (pstart pl) (take endByte src), tSpan := sp\<rparr>]\<rparr>)"

text \<open>The segments moved to an array of their own size, token by token.\<close>

fun compact_segments :: "Segment list \<Rightarrow> Token list \<Rightarrow> nat \<Rightarrow> Token list" where
  "compact_segments exact [] k = []"
| "compact_segments exact (t # ts) k =
     (let n = length (tSegments t) in
      if n > 0 then t\<lparr>tSegments := take n (drop k exact)\<rparr> # compact_segments exact ts (k + n)
      else t # compact_segments exact ts k)"

definition TokenizeAt :: "string \<Rightarrow> int \<Rightarrow> int \<Rightarrow> Token list" where
  "TokenizeAt src line byteOffset =
     (let lines = count_list src LF + 1;
          st = lex_flush src byteOffset
                 (fold (lex_line src (line - 1) byteOffset) (scanLines src) lex_init) in
      if lall st \<noteq> [] \<and> lines > 2 * length (lall st)
      then compact_segments (lall st) (ltoks st) 0
      else ltoks st)"

definition Tokenize :: "string \<Rightarrow> Token list" where
  "Tokenize src = TokenizeAt src 1 0"

subsection \<open>Lines: their texts join to the source\<close>

definition pl_raw :: "physLine \<Rightarrow> string" where
  "pl_raw pl = ptext pl @ pterm pl"

lemma scan_rest: "rest = dropWhile (\<lambda>c. c \<noteq> LF) src \<Longrightarrow> rest \<noteq> [] \<Longrightarrow> rest = LF # tl rest"
  using hd_dropWhile [of "\<lambda>c. c \<noteq> LF" src] by (metis list.collapse)

lemma LF_CR [simp]: "LF \<noteq> CR" "CR \<noteq> LF"
  by (simp_all add: LF_def CR_def)

text \<open>One step of the scan.\<close>

lemma scan_step:
  assumes "src \<noteq> []"
  obtains pl rest where "scanLinesFrom src start n = pl # scanLinesFrom rest (start + length (pl_raw pl)) (n + 1)"
    "src = pl_raw pl @ rest" "pl_raw pl \<noteq> []" "pstart pl = start" "pline pl = n" "LF \<notin> set (ptext pl)"
    "pterm pl \<in> {[LF], [CR, LF], [CR], []}" "pterm pl \<in> {[CR], []} \<Longrightarrow> rest = []"
proof -
  define body where "body = takeWhile (\<lambda>c. c \<noteq> LF) src"
  define rest where "rest = dropWhile (\<lambda>c. c \<noteq> LF) src"
  have sp: "src = body @ rest" by (simp add: body_def rest_def)
  have nl: "LF \<notin> set body" by (auto simp: body_def dest: set_takeWhileD)
  have empty: "scanLinesFrom [] a b = []" for a b by (subst scanLinesFrom.simps) simp
  have step: "scanLinesFrom src start n =
     (if rest \<noteq> []
      then (if body \<noteq> [] \<and> List.last body = CR
            then \<lparr>ptext = butlast body, pterm = [CR, LF], pstart = start, pline = n\<rparr>
            else \<lparr>ptext = body, pterm = [LF], pstart = start, pline = n\<rparr>)
           # scanLinesFrom (tl rest) (start + length body + 1) (n + 1)
      else if body \<noteq> [] \<and> List.last body = CR
      then [\<lparr>ptext = butlast body, pterm = [CR], pstart = start, pline = n\<rparr>]
      else [\<lparr>ptext = body, pterm = [], pstart = start, pline = n\<rparr>])"
    using assms by (subst scanLinesFrom.simps) (simp add: body_def rest_def Let_def)
  have bl: "LF \<notin> set (butlast body)" using nl by (meson in_set_butlastD)
  show thesis
  proof (cases "rest = []")
    case True
    then have "body \<noteq> []" using sp assms by simp
    show ?thesis
    proof (cases "List.last body = CR")
      case cr: True
      then have "body = butlast body @ [CR]" using \<open>body \<noteq> []\<close> by (metis append_butlast_last_id)
      then show ?thesis using True cr \<open>body \<noteq> []\<close> sp step bl
        by (intro that [of "\<lparr>ptext = butlast body, pterm = [CR], pstart = start, pline = n\<rparr>" "[]"])
          (simp_all add: pl_raw_def empty)
    next
      case False
      then show ?thesis using True \<open>body \<noteq> []\<close> sp step nl
        by (intro that [of "\<lparr>ptext = body, pterm = [], pstart = start, pline = n\<rparr>" "[]"])
          (simp_all add: pl_raw_def empty)
    qed
  next
    case False
    then have r: "rest = LF # tl rest" by (rule scan_rest [OF rest_def])
    show ?thesis
    proof (cases "body \<noteq> [] \<and> List.last body = CR")
      case True
      then have b: "body = butlast body @ [CR]" by (metis append_butlast_last_id)
      then have "length body = Suc (length (butlast body))" by (metis length_append_singleton)
      moreover have "src = (butlast body @ [CR, LF]) @ tl rest" using sp r b by (metis append.assoc append_Cons append_Nil)
      ultimately show ?thesis using True False step bl
        by (intro that [of "\<lparr>ptext = butlast body, pterm = [CR, LF], pstart = start, pline = n\<rparr>" "tl rest"])
          (simp_all add: pl_raw_def)
    next
      case no: False
      have "src = (body @ [LF]) @ tl rest" using sp r by (metis append.assoc append_Cons append_Nil)
      then show ?thesis using no False step nl
        by (intro that [of "\<lparr>ptext = body, pterm = [LF], pstart = start, pline = n\<rparr>" "tl rest"])
          (auto simp: pl_raw_def)
    qed
  qed
qed

lemma scan_Nil [simp]: "scanLinesFrom [] a b = []"
  by (subst scanLinesFrom.simps) simp

text \<open>The lines tile the source: each starts where the one before it ends.\<close>

fun lines_at :: "physLine list \<Rightarrow> nat \<Rightarrow> nat \<Rightarrow> bool" where
  "lines_at [] start n = True"
| "lines_at (pl # pls) start n \<longleftrightarrow>
     pstart pl = start \<and> pline pl = n \<and> lines_at pls (start + length (pl_raw pl)) (n + 1)"

lemma scan_tiles:
  "concat (map pl_raw (scanLinesFrom src start n)) = src \<and> lines_at (scanLinesFrom src start n) start n"
proof (induction src arbitrary: start n rule: length_induct)
  case (1 src)
  show ?case
  proof (cases "src = []")
    case False
    then obtain pl rest where s: "scanLinesFrom src start n = pl # scanLinesFrom rest (start + length (pl_raw pl)) (n + 1)"
      "src = pl_raw pl @ rest" "pl_raw pl \<noteq> []" "pstart pl = start" "pline pl = n"
      by (rule scan_step [of src start n])
    have "length rest < length src" using s(2,3) by simp
    then show ?thesis using 1 s by simp
  qed simp
qed

definition line_pair :: "physLine \<Rightarrow> string \<times> string" where
  "line_pair pl = (ptext pl, pterm pl)"

definition lines_of :: "string \<Rightarrow> (string \<times> string) list" where
  "lines_of src = map line_pair (scanLines src)"

lemma scan_shift: "map line_pair (scanLinesFrom src a b) = map line_pair (scanLinesFrom src c d)"
proof (induction src arbitrary: a b c d rule: length_induct)
  case (1 src)
  show ?case
  proof (cases "src = []")
    case False
    have l: "length (tl (dropWhile (\<lambda>c. c \<noteq> LF) src)) < length src"
    proof -
      have "length (tl (dropWhile (\<lambda>c. c \<noteq> LF) src)) = length (dropWhile (\<lambda>c. c \<noteq> LF) src) - 1" by simp
      moreover have "length (dropWhile (\<lambda>c. c \<noteq> LF) src) \<le> length src" by (rule length_dropWhile_le)
      moreover have "length src > 0" using False by simp
      ultimately show ?thesis by arith
    qed
    then have "map line_pair (scanLinesFrom (tl (dropWhile (\<lambda>c. c \<noteq> LF) src)) x y) =
        map line_pair (scanLinesFrom (tl (dropWhile (\<lambda>c. c \<noteq> LF) src)) u v)" for x y u v
      using 1 by blast
    from this [of "a + length (takeWhile (\<lambda>c. c \<noteq> LF) src) + 1" "b + 1" "c + length (takeWhile (\<lambda>c. c \<noteq> LF) src) + 1" "d + 1"]
    show ?thesis
      by (subst (1 2) scanLinesFrom.simps) (simp add: Let_def line_pair_def)
  qed simp
qed

subsection \<open>Lines cut into attributes and other lines\<close>

definition is_cont :: "string \<Rightarrow> bool" where
  "is_cont text \<longleftrightarrow> \<not> IsBlankLine text \<and> (hd text = CHR '' '' \<or> hd text = CHR 0x09 \<or> hd text = CHR ''+'')"

definition other_kind :: "string \<Rightarrow> Kind" where
  "other_kind text = fst (classify text False)"

lemma colon_not_blank: "colon_before_hash s \<Longrightarrow> \<not> IsBlankLine s"
  by (induction s) (auto simp: IsBlankLine_def split: if_splits)

lemma StartsAttribute_facts:
  "StartsAttribute s \<Longrightarrow> \<not> IsBlankLine s \<and> \<not> is_cont s \<and> hd s \<noteq> CHR ''#'' \<and> s \<noteq> []"
  by (auto simp: StartsAttribute_def is_cont_def colon_not_blank split: if_splits)

lemma classify_cases:
  "is_cont t \<Longrightarrow> classify t h = (if h then (KindAttribute, True) else (other_kind t, False))"
  "StartsAttribute t \<Longrightarrow> classify t h = (KindAttribute, False)"
  "\<not> is_cont t \<Longrightarrow> \<not> StartsAttribute t \<Longrightarrow> classify t h = (other_kind t, False)"
  "\<not> StartsAttribute t \<Longrightarrow> other_kind t \<noteq> KindAttribute"
  using StartsAttribute_facts [of t] by (auto simp: classify_def is_cont_def other_kind_def)

datatype 'l lexunit = AttrUnit 'l "'l list" | OtherUnit 'l

function units :: "('l \<Rightarrow> string) \<Rightarrow> 'l list \<Rightarrow> 'l lexunit list" where
  "units tx [] = []"
| "units tx (l # ls) =
     (if StartsAttribute (tx l)
      then AttrUnit l (takeWhile (\<lambda>c. is_cont (tx c)) ls) # units tx (dropWhile (\<lambda>c. is_cont (tx c)) ls)
      else OtherUnit l # units tx ls)"
  by pat_completeness auto
termination
  by (relation "measure (\<lambda>(_, ls). length ls)") (auto simp: le_imp_less_Suc length_dropWhile_le)

fun unit_lines :: "'l lexunit \<Rightarrow> 'l list" where
  "unit_lines (AttrUnit l cs) = l # cs"
| "unit_lines (OtherUnit l) = [l]"

lemma units_lines: "concat (map unit_lines (units tx ls)) = ls"
  by (induction tx ls rule: units.induct) auto

lemma units_map: "units tx (map f ls) = map (map_lexunit f) (units (\<lambda>l. tx (f l)) ls)"
  by (induction "\<lambda>l. tx (f l)" ls rule: units.induct) (auto simp: takeWhile_map dropWhile_map comp_def)

lemma units_append:
  "ys = [] \<or> \<not> is_cont (tx (hd ys)) \<Longrightarrow> units tx (xs @ ys) = units tx xs @ units tx ys"
proof (induction tx xs rule: units.induct)
  case (2 tx l ls)
  show ?case
  proof (cases "StartsAttribute (tx l)")
    case True
    let ?p = "\<lambda>c. is_cont (tx c)"
    have "takeWhile ?p (ls @ ys) = takeWhile ?p ls \<and> dropWhile ?p (ls @ ys) = dropWhile ?p ls @ ys"
    proof (cases "dropWhile ?p ls = []")
      case True
      then have "\<forall>x \<in> set ls. ?p x" by simp
      then show ?thesis using 2(3) True by (cases ys) (auto simp: takeWhile_append2 dropWhile_append2 takeWhile_eq_all_conv [THEN iffD2])
    next
      case False
      then show ?thesis by (auto simp: takeWhile_append1 dropWhile_append1)
    qed
    then show ?thesis using True 2 by simp
  next
    case False
    then show ?thesis using 2 by simp
  qed
qed simp

subsection \<open>The token of a unit\<close>

definition line_segment :: "int \<Rightarrow> int \<Rightarrow> int \<Rightarrow> physLine \<Rightarrow> string \<times> nat \<Rightarrow> Segment" where
  "line_segment lb bo v pl vo =
     \<lparr>ValStart = v, ValEnd = v + int (length (fst vo)), SrcLine = lb + int (pline pl),
      SrcCol = int (snd vo) + 1, SrcByte = bo + int (pstart pl) + int (snd vo)\<rparr>"

definition cont_val :: "physLine \<Rightarrow> string" where
  "cont_val pl = fst (contValue (ptext pl) False)"

fun cont_segments :: "int \<Rightarrow> int \<Rightarrow> int \<Rightarrow> physLine list \<Rightarrow> Segment list" where
  "cont_segments lb bo v [] = []"
| "cont_segments lb bo v (c # cs) =
     line_segment lb bo v c (contValue (ptext c) False) # cont_segments lb bo (v + int (length (cont_val c)) + 1) cs"

definition line_end :: "physLine \<Rightarrow> nat" where
  "line_end pl = pstart pl + length (ptext pl) + length (pterm pl)"

definition unit_span :: "int \<Rightarrow> int \<Rightarrow> physLine \<Rightarrow> physLine \<Rightarrow> Span" where
  "unit_span lb bo pl e =
     \<lparr>StartLine = lb + int (pline pl), StartCol = 1, EndLine = lb + int (pline e),
      EndCol = int (length (ptext e)) + 1, StartByte = bo + int (pstart pl), EndByte = bo + int (line_end e)\<rparr>"

fun tok_of :: "int \<Rightarrow> int \<Rightarrow> physLine lexunit \<Rightarrow> Token" where
  "tok_of lb bo (AttrUnit pl cs) =
     (let (name, val, off) = splitAttr (ptext pl) in
      \<lparr>tKind = KindAttribute, tName = name, tValue = Join (val # map cont_val cs) [LF],
       tRaw = concat (map pl_raw (pl # cs)), tSpan = unit_span lb bo pl (List.last (pl # cs)),
       tSegments = line_segment lb bo 0 pl (val, off) # cont_segments lb bo (int (length val) + 1) cs\<rparr>)"
| "tok_of lb bo (OtherUnit pl) =
     \<lparr>tKind = other_kind (ptext pl), tName = [], tValue = [], tRaw = pl_raw pl,
      tSpan = unit_span lb bo pl pl, tSegments = []\<rparr>"

subsection \<open>The loop computes the tokens of the units\<close>

text \<open>The state while the attribute of a name line and some continuation lines is being folded.\<close>

definition pending :: "int \<Rightarrow> int \<Rightarrow> lexState \<Rightarrow> physLine \<Rightarrow> physLine list \<Rightarrow> bool" where
  "pending lb bo st pl cs \<longleftrightarrow>
     (let (name, val, off) = splitAttr (ptext pl) in
      lhave st \<and> lstart st = pstart pl \<and> lseg st \<le> length (lall st) \<and>
      lcur st = zeroToken\<lparr>tKind := KindAttribute, tName := name, tSpan := unit_span lb bo pl (List.last (pl # cs))\<rparr> \<and>
      lsegs st = val # map cont_val cs \<and>
      drop (lseg st) (lall st) = line_segment lb bo 0 pl (val, off) # cont_segments lb bo (int (length val) + 1) cs \<and>
      lvalOff st = int (length val) + 1 + sum_list (map (\<lambda>c. int (length (cont_val c)) + 1) cs))"

lemma cont_segments_append:
  "cont_segments lb bo v (cs @ ds) =
   cont_segments lb bo v cs @ cont_segments lb bo (v + sum_list (map (\<lambda>c. int (length (cont_val c)) + 1) cs)) ds"
  by (induction cs arbitrary: v) (simp_all add: algebra_simps)

lemma lex_line_cont:
  assumes "pending lb bo st pl cs" "is_cont (ptext c)"
  shows "pending lb bo (lex_line src lb bo c st) pl (cs @ [c])" "ltoks (lex_line src lb bo c st) = ltoks st"
    "lseg (lex_line src lb bo c st) = lseg st" "take (lseg st) (lall (lex_line src lb bo c st)) = take (lseg st) (lall st)"
proof -
  obtain name val off where s: "splitAttr (ptext pl) = (name, val, off)" by (cases "splitAttr (ptext pl)")
  obtain v o' where c: "contValue (ptext c) False = (v, o')" by fastforce
  have h: "lhave st" "lseg st \<le> length (lall st)" using assms(1) by (simp_all add: pending_def s)
  have k: "classify (ptext c) True = (KindAttribute, True)" using assms(2) by (simp add: classify_cases(1))
  note p = assms(1) [unfolded pending_def s, simplified]
  show "pending lb bo (lex_line src lb bo c st) pl (cs @ [c])"
    using p h k c unfolding pending_def s
    by (simp add: lex_line_def Let_def cont_segments_append line_segment_def cont_val_def unit_span_def line_end_def
        zeroToken_def add.assoc)
  show "ltoks (lex_line src lb bo c st) = ltoks st" "lseg (lex_line src lb bo c st) = lseg st"
    "take (lseg st) (lall (lex_line src lb bo c st)) = take (lseg st) (lall st)"
    using h k c by (simp_all add: lex_line_def Let_def)
qed

lemma lines_at_last: "lines_at (pl # cs) p n \<Longrightarrow> line_end (List.last (pl # cs)) = p + length (concat (map pl_raw (pl # cs)))"
  by (induction cs arbitrary: pl p n) (auto simp: line_end_def pl_raw_def algebra_simps)

lemma slice: "drop p src = x @ y \<Longrightarrow> drop p (take (p + length x) src) = x"
  by (simp add: drop_take)

lemma lex_flush_pending:
  assumes "pending lb bo st pl cs" "lines_at (pl # cs) p n" "drop p src = concat (map pl_raw (pl # cs)) @ post"
  shows "ltoks (lex_flush src bo st) = ltoks st @ [tok_of lb bo (AttrUnit pl cs)]" "\<not> lhave (lex_flush src bo st)"
    "lall (lex_flush src bo st) = take (lseg st) (lall st) @ tSegments (tok_of lb bo (AttrUnit pl cs))"
proof -
  obtain name val off where s: "splitAttr (ptext pl) = (name, val, off)" by (cases "splitAttr (ptext pl)")
  note q = assms(1) [unfolded pending_def s, simplified]
  have p: "pstart pl = p" using assms(2) by simp
  have e: "nat (EndByte (tSpan (lcur st)) - bo) = p + length (concat (map pl_raw (pl # cs)))"
    using q lines_at_last [OF assms(2)] by (simp add: unit_span_def)
  have r: "drop (lstart st) (take (nat (EndByte (tSpan (lcur st)) - bo)) src) = concat (map pl_raw (pl # cs))"
    unfolding e using q p slice [OF assms(3)] by simp
  show "ltoks (lex_flush src bo st) = ltoks st @ [tok_of lb bo (AttrUnit pl cs)]"
    unfolding lex_flush_def Let_def r using q s by (simp add: zeroToken_def)
  show "\<not> lhave (lex_flush src bo st)" using q by (simp add: lex_flush_def Let_def)
  have "lall st = take (lseg st) (lall st) @ drop (lseg st) (lall st)" by simp
  then show "lall (lex_flush src bo st) = take (lseg st) (lall st) @ tSegments (tok_of lb bo (AttrUnit pl cs))"
    using q s by (simp add: lex_flush_def Let_def)
qed

lemma lex_flush_idle: "\<not> lhave st \<Longrightarrow> lex_flush src bo st = st"
  by (simp add: lex_flush_def)

lemma lex_line_flush: "\<not> is_cont (ptext pl) \<Longrightarrow> lex_line src lb bo pl st = lex_line src lb bo pl (lex_flush src bo st)"
proof -
  assume n: "\<not> is_cont (ptext pl)"
  have "lex_flush src bo (lex_flush src bo st) = lex_flush src bo st"
    by (rule lex_flush_idle) (simp add: lex_flush_def Let_def)
  moreover have "classify (ptext pl) h = (if StartsAttribute (ptext pl) then KindAttribute else other_kind (ptext pl), False)" for h
    using n by (simp add: classify_cases)
  ultimately show ?thesis by (simp add: lex_line_def Let_def)
qed

lemma lex_line_attr:
  assumes "\<not> lhave st" "StartsAttribute (ptext pl)"
  shows "pending lb bo (lex_line src lb bo pl st) pl []" "ltoks (lex_line src lb bo pl st) = ltoks st"
    "take (lseg (lex_line src lb bo pl st)) (lall (lex_line src lb bo pl st)) = lall st"
proof -
  obtain name val off where s: "splitAttr (ptext pl) = (name, val, off)" by (cases "splitAttr (ptext pl)")
  show "pending lb bo (lex_line src lb bo pl st) pl []" "ltoks (lex_line src lb bo pl st) = ltoks st"
    "take (lseg (lex_line src lb bo pl st)) (lall (lex_line src lb bo pl st)) = lall st"
    using assms s by (simp_all add: lex_line_def Let_def classify_cases(2) lex_flush_idle pending_def zeroToken_def
        unit_span_def line_end_def line_segment_def)
qed

lemma lex_line_other:
  assumes "\<not> lhave st" "\<not> StartsAttribute (ptext pl)" "drop (pstart pl) src = pl_raw pl @ post"
  shows "ltoks (lex_line src lb bo pl st) = ltoks st @ [tok_of lb bo (OtherUnit pl)]" "\<not> lhave (lex_line src lb bo pl st)"
    "lall (lex_line src lb bo pl st) = lall st"
proof -
  have k: "classify (ptext pl) False = (other_kind (ptext pl), False)" "other_kind (ptext pl) \<noteq> KindAttribute"
    using assms(2) classify_cases(1,3,4) [of "ptext pl"] by (cases "is_cont (ptext pl)"; auto)+
  have "drop (pstart pl) (take (pstart pl + (length (ptext pl) + length (pterm pl))) src) = pl_raw pl"
    using slice [OF assms(3)] by (simp add: pl_raw_def)
  then show "ltoks (lex_line src lb bo pl st) = ltoks st @ [tok_of lb bo (OtherUnit pl)]"
    using assms(1) k by (simp add: lex_line_def Let_def lex_flush_idle zeroToken_def unit_span_def line_end_def add.assoc)
  show "\<not> lhave (lex_line src lb bo pl st)" "lall (lex_line src lb bo pl st) = lall st"
    using assms(1) k by (simp_all add: lex_line_def Let_def lex_flush_idle)
qed

lemma lines_at_append:
  "lines_at (xs @ ys) p n \<longleftrightarrow>
   lines_at xs p n \<and> lines_at ys (p + length (concat (map pl_raw xs))) (n + length xs)"
  by (induction xs arbitrary: p n) (auto simp: algebra_simps)

text \<open>What folding the lines and flushing gives, from an idle state and from a pending attribute.\<close>

definition folds_idle :: "string \<Rightarrow> int \<Rightarrow> int \<Rightarrow> physLine list \<Rightarrow> bool" where
  "folds_idle src lb bo pls \<longleftrightarrow> (\<forall>st p n.
     \<not> lhave st \<longrightarrow> lines_at pls p n \<longrightarrow> drop p src = concat (map pl_raw pls) \<longrightarrow>
     (let st' = lex_flush src bo (fold (lex_line src lb bo) pls st); ts = map (tok_of lb bo) (units ptext pls) in
      ltoks st' = ltoks st @ ts \<and> lall st' = lall st @ concat (map tSegments ts)))"

definition folds_pending :: "string \<Rightarrow> int \<Rightarrow> int \<Rightarrow> physLine list \<Rightarrow> bool" where
  "folds_pending src lb bo pls \<longleftrightarrow> (\<forall>st pl cs p n.
     pending lb bo st pl cs \<longrightarrow> lines_at (pl # cs @ pls) p n \<longrightarrow> drop p src = concat (map pl_raw (pl # cs @ pls)) \<longrightarrow>
     (let st' = lex_flush src bo (fold (lex_line src lb bo) pls st);
          ts = map (tok_of lb bo) (AttrUnit pl (cs @ takeWhile (\<lambda>c. is_cont (ptext c)) pls)
                 # units ptext (dropWhile (\<lambda>c. is_cont (ptext c)) pls)) in
      ltoks st' = ltoks st @ ts \<and> lall st' = take (lseg st) (lall st) @ concat (map tSegments ts)))"

lemma drop_past: "drop p src = x @ y \<Longrightarrow> drop (p + length x) src = y"
proof -
  assume "drop p src = x @ y"
  then have "drop (length x) (drop p src) = y" by simp
  then show ?thesis by (simp add: add.commute)
qed

lemma folds_idle_Cons:
  assumes "folds_idle src lb bo pls" "folds_pending src lb bo pls"
  shows "folds_idle src lb bo (x # pls)"
  unfolding folds_idle_def
proof (intro allI impI)
  fix st :: lexState and p n
  assume a: "\<not> lhave st" "lines_at (x # pls) p n" "drop p src = concat (map pl_raw (x # pls))"
  let ?s = "lex_line src lb bo x st"
  have d: "drop (p + length (pl_raw x)) src = concat (map pl_raw pls)"
    by (rule drop_past) (use a(3) in simp)
  show "let st' = lex_flush src bo (fold (lex_line src lb bo) (x # pls) st); ts = map (tok_of lb bo) (units ptext (x # pls)) in
      ltoks st' = ltoks st @ ts \<and> lall st' = lall st @ concat (map tSegments ts)"
  proof (cases "StartsAttribute (ptext x)")
    case True
    note l = lex_line_attr [OF a(1) True, where lb = lb and bo = bo and src = src]
    from assms(2) [unfolded folds_pending_def, rule_format, of ?s x "[]" p n] l(1) a(2,3)
    show ?thesis using True l(2,3) by (simp add: Let_def)
  next
    case False
    have "drop (pstart x) src = pl_raw x @ concat (map pl_raw pls)" using a(2,3) by simp
    note l = lex_line_other [OF a(1) False this, where lb = lb and bo = bo]
    from assms(1) [unfolded folds_idle_def, rule_format, of ?s "p + length (pl_raw x)" "n + 1"] l(2) a(2) d
    show ?thesis using False l(1,3) by (simp add: Let_def)
  qed
qed

lemma folds_pending_Cons:
  assumes "folds_idle src lb bo (x # pls)" "folds_pending src lb bo pls"
  shows "folds_pending src lb bo (x # pls)"
  unfolding folds_pending_def
proof (intro allI impI)
  fix st :: lexState and pl cs p n
  assume a: "pending lb bo st pl cs" "lines_at (pl # cs @ x # pls) p n" "drop p src = concat (map pl_raw (pl # cs @ x # pls))"
  show "let st' = lex_flush src bo (fold (lex_line src lb bo) (x # pls) st);
          ts = map (tok_of lb bo) (AttrUnit pl (cs @ takeWhile (\<lambda>c. is_cont (ptext c)) (x # pls))
                 # units ptext (dropWhile (\<lambda>c. is_cont (ptext c)) (x # pls))) in
      ltoks st' = ltoks st @ ts \<and> lall st' = take (lseg st) (lall st) @ concat (map tSegments ts)"
  proof (cases "is_cont (ptext x)")
    case True
    note l = lex_line_cont [OF a(1) True, where src = src]
    from assms(2) [unfolded folds_pending_def, rule_format, OF l(1), of p n] a(2,3)
    show ?thesis using True l(2-4) by (simp add: Let_def)
  next
    case False
    let ?f = "lex_flush src bo st" and ?len = "length (concat (map pl_raw (pl # cs)))"
    have at: "lines_at (pl # cs) p n" "lines_at (x # pls) (p + ?len) (n + length (pl # cs))"
      using a(2) lines_at_append [of "pl # cs" "x # pls" p n] by simp_all
    have dp: "drop p src = concat (map pl_raw (pl # cs)) @ concat (map pl_raw (x # pls))" using a(3) by simp
    then have d: "drop (p + ?len) src = concat (map pl_raw (x # pls))"
      by (rule drop_past)
    note f = lex_flush_pending [OF a(1) at(1) dp]
    from assms(1) [unfolded folds_idle_def, rule_format, OF f(2) at(2) d]
    show ?thesis using False f(1,3) by (simp add: Let_def lex_line_flush [OF False, of src lb bo st] del: tok_of.simps units.simps)
  qed
qed

lemma folds_all: "folds_idle src lb bo pls \<and> folds_pending src lb bo pls"
proof (induction pls)
  case Nil
  have "folds_idle src lb bo []" by (simp add: folds_idle_def lex_flush_idle)
  moreover have "folds_pending src lb bo []"
    unfolding folds_pending_def
    by (intro allI impI) (use lex_flush_pending [where post = "[]"] in \<open>simp add: Let_def del: tok_of.simps\<close>)
  ultimately show ?case ..
next
  case (Cons x pls)
  then have "folds_idle src lb bo (x # pls)" by (intro folds_idle_Cons) auto
  then show ?case using Cons folds_pending_Cons by blast
qed

lemma compact_segments_id:
  "exact = pre @ concat (map tSegments ts) \<Longrightarrow> compact_segments exact ts (length pre) = ts"
proof (induction ts arbitrary: pre)
  case (Cons t ts)
  have "compact_segments exact ts (length (pre @ tSegments t)) = ts"
    using Cons.prems by (intro Cons.IH) simp
  then show ?case using Cons.prems by (cases "tSegments t = []") (simp_all add: Let_def)
qed simp

text \<open>The tokens of a source are the tokens of the units of its lines.\<close>

theorem TokenizeAt_units:
  "TokenizeAt src line bo = map (tok_of (line - 1) bo) (units ptext (scanLines src))"
proof -
  let ?st = "lex_flush src bo (fold (lex_line src (line - 1) bo) (scanLines src) lex_init)"
  have t: "concat (map pl_raw (scanLines src)) = src" "lines_at (scanLines src) 0 1"
    using scan_tiles [of src 0 1] by (simp_all add: scanLines_def)
  have i: "\<not> lhave lex_init" "ltoks lex_init = []" "lall lex_init = []" by (simp_all add: lex_init_def)
  have "folds_idle src (line - 1) bo (scanLines src)" using folds_all by blast
  then have r: "ltoks ?st = map (tok_of (line - 1) bo) (units ptext (scanLines src))"
    "lall ?st = concat (map tSegments (map (tok_of (line - 1) bo) (units ptext (scanLines src))))"
    unfolding folds_idle_def Let_def using i t by (metis append_Nil drop0)+
  have "compact_segments (lall ?st) (ltoks ?st) 0 = ltoks ?st"
    using compact_segments_id [of "lall ?st" "[]" "ltoks ?st"] r by simp
  then show ?thesis using r(1) by (simp add: TokenizeAt_def Let_def)
qed

end
