(* ===== verification/Source_Lines.thy ===== *)
theory Source_Lines
  imports Lexer
begin

text \<open>
  A source and its physical lines determine each other: \<open>lines_of\<close> and \<open>raw_of\<close> are inverse between
  strings and proper lists of lines.  So text that ends its last line can be extended without changing
  how its lines are read, and the attributes of a text are those of its parts.
\<close>

definition raw_of :: "(string \<times> string) list \<Rightarrow> string" where
  "raw_of ls = concat (map (\<lambda>l. fst l @ snd l) ls)"

definition ok_line :: "string \<times> string \<Rightarrow> bool" where
  "ok_line l \<longleftrightarrow> LF \<notin> set (fst l) \<and>
     (snd l = [CR, LF] \<or> snd l = [CR] \<or>
      (snd l = [LF] \<and> (fst l = [] \<or> List.last (fst l) \<noteq> CR)) \<or>
      (snd l = [] \<and> fst l \<noteq> [] \<and> List.last (fst l) \<noteq> CR))"

fun proper :: "(string \<times> string) list \<Rightarrow> bool" where
  "proper [] = True"
| "proper (l # ls) \<longleftrightarrow> ok_line l \<and> (ls = [] \<or> snd l = [LF] \<or> snd l = [CR, LF]) \<and> proper ls"

definition closed :: "string \<Rightarrow> bool" where
  "closed s \<longleftrightarrow> s = [] \<or> List.last s = LF"

lemma raw_of_simps [simp]: "raw_of [] = []" "raw_of (l # ls) = fst l @ snd l @ raw_of ls" "raw_of (xs @ ys) = raw_of xs @ raw_of ys"
  by (simp_all add: raw_of_def)

lemma raw_of_lines_of: "raw_of (lines_of s) = s"
  using scan_tiles [of s 0 1] by (simp add: raw_of_def lines_of_def line_pair_def pl_raw_def [abs_def] comp_def scanLines_def)

lemma lines_of_Nil [simp]: "lines_of [] = []"
  by (simp add: lines_of_def scanLines_def)

lemma lines_of_from: "map line_pair (scanLinesFrom s a b) = lines_of s"
  unfolding lines_of_def scanLines_def by (rule scan_shift)

lemma span_LF:
  "LF \<notin> set t \<Longrightarrow> takeWhile (\<lambda>c. c \<noteq> LF) (t @ r) = t @ takeWhile (\<lambda>c. c \<noteq> LF) r"
  "LF \<notin> set t \<Longrightarrow> dropWhile (\<lambda>c. c \<noteq> LF) (t @ r) = dropWhile (\<lambda>c. c \<noteq> LF) r"
  by (induction t) auto

text \<open>How the first line is cut off.\<close>

lemma lines_of_LF:
  assumes "LF \<notin> set t" "t = [] \<or> List.last t \<noteq> CR"
  shows "lines_of (t @ LF # s) = (t, [LF]) # lines_of s"
proof -
  have tw: "takeWhile (\<lambda>c. c \<noteq> LF) (t @ LF # s) = t" "dropWhile (\<lambda>c. c \<noteq> LF) (t @ LF # s) = LF # s"
    using span_LF [of t] assms(1) by simp_all
  have "lines_of (t @ LF # s) = (t, [LF]) # map line_pair (scanLinesFrom s (0 + length t + 1) (1 + 1))"
    unfolding lines_of_def scanLines_def
    by (subst scanLinesFrom.simps) (use assms(2) in \<open>auto simp: tw line_pair_def Let_def\<close>)
  then show ?thesis by (simp add: lines_of_from)
qed

lemma lines_of_CRLF:
  assumes "LF \<notin> set t"
  shows "lines_of (t @ CR # LF # s) = (t, [CR, LF]) # lines_of s"
proof -
  have tw: "takeWhile (\<lambda>c. c \<noteq> LF) (t @ CR # LF # s) = t @ [CR]" "dropWhile (\<lambda>c. c \<noteq> LF) (t @ CR # LF # s) = LF # s"
    using span_LF [of t] assms(1) by simp_all
  have "lines_of (t @ CR # LF # s) = (t, [CR, LF]) # map line_pair (scanLinesFrom s (0 + length (t @ [CR]) + 1) (1 + 1))"
    unfolding lines_of_def scanLines_def by (subst scanLinesFrom.simps) (simp add: tw line_pair_def Let_def)
  then show ?thesis by (simp add: lines_of_from)
qed

lemma lines_of_end:
  assumes "LF \<notin> set t"
  shows "lines_of (t @ [CR]) = [(t, [CR])]" "t \<noteq> [] \<Longrightarrow> List.last t \<noteq> CR \<Longrightarrow> lines_of t = [(t, [])]"
proof -
  have tw: "takeWhile (\<lambda>c. c \<noteq> LF) (t @ [CR]) = t @ [CR]" "dropWhile (\<lambda>c. c \<noteq> LF) (t @ [CR]) = []"
    "takeWhile (\<lambda>c. c \<noteq> LF) t = t" "dropWhile (\<lambda>c. c \<noteq> LF) t = []"
    using span_LF [of t "[CR]"] span_LF [of t "[]"] assms by simp_all
  show "lines_of (t @ [CR]) = [(t, [CR])]"
    unfolding lines_of_def scanLines_def by (subst scanLinesFrom.simps) (simp add: tw line_pair_def Let_def)
  show "t \<noteq> [] \<Longrightarrow> List.last t \<noteq> CR \<Longrightarrow> lines_of t = [(t, [])]"
    unfolding lines_of_def scanLines_def by (subst scanLinesFrom.simps) (simp add: tw(3,4) line_pair_def Let_def)
qed

lemma lines_of_raw_of: "proper ls \<Longrightarrow> lines_of (raw_of ls) = ls"
proof (induction ls)
  case (Cons l ls)
  obtain t e where l: "l = (t, e)" by (cases l)
  have IH: "lines_of (raw_of ls) = ls" using Cons by simp
  have nl: "LF \<notin> set t" using Cons.prems by (simp add: l ok_line_def)
  consider "e = [CR, LF]" | "e = [LF]" "t = [] \<or> List.last t \<noteq> CR" | "e = [CR]" "ls = []"
    | "e = []" "ls = []" "t \<noteq> []" "List.last t \<noteq> CR"
    using Cons.prems by (auto simp: l ok_line_def)
  then show ?case
  proof cases
    case 1
    then show ?thesis using lines_of_CRLF [OF nl, of "raw_of ls"] IH l by simp
  next
    case 2
    then show ?thesis using lines_of_LF [OF nl 2(2), of "raw_of ls"] IH l by simp
  next
    case 3
    then show ?thesis using lines_of_end(1) [OF nl] l by simp
  next
    case 4
    then show ?thesis using lines_of_end(2) [OF nl] l by simp
  qed
qed simp

lemma proper_lines_of: "proper (lines_of s)"
proof (induction s rule: length_induct)
  case (1 s)
  show ?case
  proof (cases "s = []")
    case False
    define t where "t = takeWhile (\<lambda>c. c \<noteq> LF) s"
    define r where "r = dropWhile (\<lambda>c. c \<noteq> LF) s"
    have sp: "s = t @ r" by (simp add: t_def r_def)
    have nl: "LF \<notin> set t" by (auto simp: t_def dest: set_takeWhileD)
    have nlb: "LF \<notin> set (butlast t)" using nl by (meson in_set_butlastD)
    show ?thesis
    proof (cases "r = []")
      case True
      then have t: "s = t" "t \<noteq> []" using sp False by simp_all
      show ?thesis
      proof (cases "List.last t = CR")
        case True
        then have "s = butlast t @ [CR]" using t by (metis append_butlast_last_id)
        then have "lines_of s = [(butlast t, [CR])]" by (metis lines_of_end(1) [OF nlb])
        then show ?thesis using nlb by (simp add: ok_line_def)
      next
        case False
        have "lines_of s = [(t, [])]" unfolding t(1) by (rule lines_of_end(2) [OF nl t(2) False])
        then show ?thesis using nl t False by (simp add: ok_line_def)
      qed
    next
      case False
      then have r: "r = LF # tl r" by (rule scan_rest [OF r_def])
      have IH: "proper (lines_of (tl r))"
      proof -
        have "length (tl r) < length s" using sp r by (metis add_Suc_right le_add2 le_imp_less_Suc length_Cons length_append)
        then show ?thesis using 1 by blast
      qed
      show ?thesis
      proof (cases "t \<noteq> [] \<and> List.last t = CR")
        case True
        then have "t = butlast t @ [CR]" by (metis append_butlast_last_id)
        then have "s = butlast t @ CR # LF # tl r" using sp r by (metis append.assoc append_Cons append_Nil)
        then have "lines_of s = (butlast t, [CR, LF]) # lines_of (tl r)" by (metis lines_of_CRLF [OF nlb])
        then show ?thesis using IH nlb by (simp add: ok_line_def)
      next
        case False
        then have t: "t = [] \<or> List.last t \<noteq> CR" by blast
        have "s = t @ LF # tl r" using sp r by simp
        then have "lines_of s = (t, [LF]) # lines_of (tl r)" by (metis lines_of_LF [OF nl t])
        then show ?thesis using IH nl t by (simp add: ok_line_def)
      qed
    qed
  qed simp
qed

lemma proper_append:
  "proper (xs @ ys) \<longleftrightarrow> proper xs \<and> proper ys \<and> (xs = [] \<or> ys = [] \<or> snd (List.last xs) = [LF] \<or> snd (List.last xs) = [CR, LF])"
  by (induction xs) auto

lemma closed_lines:
  "proper ls \<Longrightarrow> closed (raw_of ls) \<longleftrightarrow> ls = [] \<or> snd (List.last ls) = [LF] \<or> snd (List.last ls) = [CR, LF]"
proof (induction ls)
  case (Cons l ls)
  show ?case
  proof (cases "ls = []")
    case True
    have "LF \<notin> set (fst l)" using Cons.prems by (simp add: ok_line_def)
    then have "fst l \<noteq> [] \<Longrightarrow> List.last (fst l) \<noteq> LF" by (metis last_in_set)
    then show ?thesis using True Cons.prems by (auto simp: closed_def ok_line_def)
  next
    case False
    have p: "proper ls" using Cons.prems by simp
    then have "raw_of ls \<noteq> []" using False by (cases ls) (auto simp: ok_line_def)
    then show ?thesis using Cons.IH [OF p] False by (simp add: closed_def)
  qed
qed (simp add: closed_def)

lemma lines_of_append:
  assumes "closed s"
  shows "lines_of (s @ t) = lines_of s @ lines_of t"
proof -
  have "proper (lines_of s @ lines_of t)"
    unfolding proper_append using closed_lines [OF proper_lines_of [of s]] assms proper_lines_of
    by (auto simp: raw_of_lines_of)
  from lines_of_raw_of [OF this] show ?thesis by (simp add: raw_of_lines_of)
qed

end
