(* ===== verification/Lexer_Properties.thy ===== *)
theory Lexer_Properties
  imports Source_Lines
begin

text \<open>
  What the scanner promises: its tokens partition the source into attributes with their continuation lines and
  single other lines, and the position it reports for a byte of a folded value is where that byte is.  Both are
  stated on the bytes of the source, apart from the functions of the scanner.
\<close>

subsection \<open>What a line is\<close>

definition attribute_line :: "string \<Rightarrow> bool" where
  "attribute_line line \<longleftrightarrow>
     line \<noteq> [] \<and> hd line \<notin> {CHR '' '', CHR 0x09, CHR ''+'', CHR ''#''} \<and>
     (\<exists>i<length line. line ! i = CHR '':'' \<and> CHR ''#'' \<notin> set (take i line))"

definition continuation_line :: "string \<Rightarrow> bool" where
  "continuation_line line \<longleftrightarrow>
     line \<noteq> [] \<and> hd line \<in> {CHR '' '', CHR 0x09, CHR ''+''} \<and> \<not> set line \<subseteq> {CHR '' '', CHR 0x09}"

text \<open>The kind of a line that is neither.\<close>

definition single_kind :: "string \<Rightarrow> Kind" where
  "single_kind line =
     (if set line \<subseteq> {CHR '' '', CHR 0x09} then KindBlank else if hd line = CHR ''#'' then KindComment else KindMalformed)"

lemma colon_before_hash_iff:
  "colon_before_hash s \<longleftrightarrow> (\<exists>i<length s. s ! i = CHR '':'' \<and> CHR ''#'' \<notin> set (take i s))"
proof (induction s)
  case (Cons c s)
  have "(\<exists>i<length (c # s). (c # s) ! i = CHR '':'' \<and> CHR ''#'' \<notin> set (take i (c # s))) \<longleftrightarrow>
      c = CHR '':'' \<or> (c \<noteq> CHR ''#'' \<and> (\<exists>i<length s. s ! i = CHR '':'' \<and> CHR ''#'' \<notin> set (take i s)))"
    unfolding length_Cons Ex_less_Suc2 by auto
  then show ?case using Cons by simp
qed simp

lemma StartsAttribute_iff: "StartsAttribute = attribute_line"
  by (rule ext) (simp add: StartsAttribute_def attribute_line_def colon_before_hash_iff)

lemma IsBlankLine_iff: "IsBlankLine s \<longleftrightarrow> set s \<subseteq> {CHR '' '', CHR 0x09}"
  by (auto simp: IsBlankLine_def list_all_iff)

lemma is_cont_iff: "is_cont = continuation_line"
  by (rule ext) (auto simp: is_cont_def continuation_line_def IsBlankLine_iff)

lemma other_kind_iff: "\<not> attribute_line s \<Longrightarrow> other_kind s = single_kind s"
  by (auto simp: other_kind_def classify_def single_kind_def IsBlankLine_iff StartsAttribute_iff)

text \<open>The part of a line that belongs to the value, and the offset where it begins.\<close>

definition first_piece :: "string \<Rightarrow> string" where
  "first_piece line = Trim (takeWhile (\<lambda>c. c \<noteq> CHR ''#'') (tl (dropWhile (\<lambda>c. c \<noteq> CHR '':'') line))) blanks"

definition first_col :: "string \<Rightarrow> nat" where
  "first_col line =
     length (takeWhile (\<lambda>c. c \<noteq> CHR '':'') line) + 1 +
     length (takeWhile (\<lambda>c. c \<in> set blanks) (tl (dropWhile (\<lambda>c. c \<noteq> CHR '':'') line)))"

definition cont_piece :: "string \<Rightarrow> string" where
  "cont_piece line = Trim (takeWhile (\<lambda>c. c \<noteq> CHR ''#'') (if hd line = CHR ''+'' then tl line else line)) blanks"

definition cont_col :: "string \<Rightarrow> nat" where
  "cont_col line =
     (if hd line = CHR ''+'' then 1 + length (takeWhile (\<lambda>c. c \<in> set blanks) (tl line))
      else length (takeWhile (\<lambda>c. c \<in> set blanks) line))"

lemma attribute_split:
  assumes "attribute_line line"
  obtains a r where "line = a @ CHR '':'' # r" "CHR '':'' \<notin> set a" "CHR ''#'' \<notin> set a"
proof -
  have "colon_before_hash line" using assms by (simp add: attribute_line_def colon_before_hash_iff)
  then have "\<exists>a r. line = a @ CHR '':'' # r \<and> CHR '':'' \<notin> set a \<and> CHR ''#'' \<notin> set a"
  proof (induction line)
    case (Cons c s)
    show ?case
    proof (cases "c = CHR '':''")
      case True
      then have "c # s = [] @ CHR '':'' # s" by simp
      then show ?thesis by fastforce
    next
      case False
      then obtain a r where "s = a @ CHR '':'' # r" "CHR '':'' \<notin> set a" "CHR ''#'' \<notin> set a" "c \<noteq> CHR ''#''"
        using Cons by (auto split: if_splits)
      then have "c # s = (c # a) @ CHR '':'' # r" "CHR '':'' \<notin> set (c # a)" "CHR ''#'' \<notin> set (c # a)" using False by auto
      then show ?thesis by blast
    qed
  qed simp
  then show thesis using that by blast
qed

lemma takeWhile_absent: "x \<notin> set a \<Longrightarrow> takeWhile (\<lambda>c. c \<noteq> x) (a @ b) = a @ takeWhile (\<lambda>c. c \<noteq> x) b"
  "x \<notin> set a \<Longrightarrow> dropWhile (\<lambda>c. c \<noteq> x) (a @ b) = dropWhile (\<lambda>c. c \<noteq> x) b"
  by (induction a) auto

lemma blanks_before_hash:
  "takeWhile (\<lambda>c. c \<in> set blanks) (takeWhile (\<lambda>c. c \<noteq> CHR ''#'') r) = takeWhile (\<lambda>c. c \<in> set blanks) r"
  by (induction r) (auto simp: blanks_def)

lemma splitAttr_pieces:
  assumes "attribute_line line"
  shows "splitAttr line = (map lower (Trim (takeWhile (\<lambda>c. c \<noteq> CHR '':'') line) blanks), first_piece line, first_col line)"
proof -
  obtain a r where l: "line = a @ CHR '':'' # r" "CHR '':'' \<notin> set a" "CHR ''#'' \<notin> set a" using attribute_split [OF assms] .
  have "cut_comment line = a @ CHR '':'' # takeWhile (\<lambda>c. c \<noteq> CHR ''#'') r"
    using l by (simp add: cut_comment_def takeWhile_absent)
  then show ?thesis using l
    by (simp add: splitAttr_def takeWhile_absent trimPos_def CanonicalName_def first_piece_def first_col_def Let_def blanks_before_hash)
qed

lemma contValue_pieces:
  assumes "continuation_line line"
  shows "contValue line False = (cont_piece line, cont_col line)"
proof -
  obtain c r where l: "line = c # r" "c \<in> {CHR '' '', CHR 0x09, CHR ''+''}"
    using assms by (cases line) (auto simp: continuation_line_def)
  then have "cut_comment line = c # takeWhile (\<lambda>c. c \<noteq> CHR ''#'') r" by (auto simp: cut_comment_def)
  then show ?thesis using l
    by (auto simp: contValue_def trimPos_def cont_piece_def cont_col_def Let_def blanks_before_hash)
qed

subsection \<open>What a token is\<close>

fun pieces :: "physLine list \<Rightarrow> string list" where
  "pieces [] = []"
| "pieces (pl # cs) = first_piece (ptext pl) # map (\<lambda>c. cont_piece (ptext c)) cs"

fun piece_cols :: "physLine list \<Rightarrow> nat list" where
  "piece_cols [] = []"
| "piece_cols (pl # cs) = first_col (ptext pl) # map (\<lambda>c. cont_col (ptext c)) cs"

text \<open>A token that is an attribute with continuation lines, or one other line.\<close>

fun token_lines :: "int \<Rightarrow> int \<Rightarrow> physLine list \<Rightarrow> Token \<Rightarrow> bool" where
  "token_lines lb bo [] t = False"
| "token_lines lb bo (pl # cs) t \<longleftrightarrow>
     tRaw t = concat (map pl_raw (pl # cs)) \<and>
     tSpan t = \<lparr>StartLine = lb + int (pline pl), StartCol = 1,
                EndLine = lb + int (pline (List.last (pl # cs))), EndCol = int (length (ptext (List.last (pl # cs)))) + 1,
                StartByte = bo + int (pstart pl), EndByte = bo + int (pstart pl) + int (length (tRaw t))\<rparr> \<and>
     (if attribute_line (ptext pl)
      then list_all (\<lambda>c. continuation_line (ptext c)) cs \<and> tKind t = KindAttribute \<and>
        tName t = map lower (Trim (takeWhile (\<lambda>c. c \<noteq> CHR '':'') (ptext pl)) blanks) \<and>
        tValue t = Join (pieces (pl # cs)) [LF]
      else cs = [] \<and> tKind t = single_kind (ptext pl) \<and> tName t = [] \<and> tValue t = [])"

text \<open>No continuation line is left out of the attribute before it.\<close>

fun maximal :: "physLine list list \<Rightarrow> bool" where
  "maximal (g # h # gs) \<longleftrightarrow> (attribute_line (ptext (hd g)) \<longrightarrow> \<not> continuation_line (ptext (hd h))) \<and> maximal (h # gs)"
| "maximal _ = True"

fun unit_shape :: "physLine lexunit \<Rightarrow> bool" where
  "unit_shape (AttrUnit pl cs) \<longleftrightarrow> attribute_line (ptext pl) \<and> list_all (\<lambda>c. continuation_line (ptext c)) cs"
| "unit_shape (OtherUnit pl) \<longleftrightarrow> \<not> attribute_line (ptext pl)"

lemma units_shape: "u \<in> set (units ptext pls) \<Longrightarrow> unit_shape u"
proof (induction "ptext :: physLine \<Rightarrow> string" pls rule: units.induct)
  case (2 l ls)
  have "list_all (\<lambda>c. continuation_line (ptext c)) (takeWhile (\<lambda>c. continuation_line (ptext c)) ls)"
    by (auto simp: list_all_iff dest: set_takeWhileD)
  then show ?case using 2 by (cases "attribute_line (ptext l)") (auto simp: StartsAttribute_iff is_cont_iff)
qed simp

lemma units_hd: "pls \<noteq> [] \<Longrightarrow> units ptext pls \<noteq> [] \<and> hd (unit_lines (hd (units ptext pls))) = hd pls"
  by (cases pls) auto

lemma units_maximal: "maximal (map unit_lines (units ptext pls))"
proof (induction "ptext :: physLine \<Rightarrow> string" pls rule: units.induct)
  case (2 l ls)
  have step: "maximal (g # map unit_lines (units ptext rest))"
    if "maximal (map unit_lines (units ptext rest))" "rest \<noteq> [] \<Longrightarrow> attribute_line (ptext (hd g)) \<Longrightarrow> \<not> continuation_line (ptext (hd rest))"
    for g rest
  proof (cases "units ptext rest")
    case (Cons u us)
    then have "rest \<noteq> []" by auto
    then show ?thesis using that units_hd [of rest] Cons by simp
  qed simp
  show ?case
  proof (cases "attribute_line (ptext l)")
    case True
    let ?rest = "dropWhile (\<lambda>c. continuation_line (ptext c)) ls"
    have "?rest \<noteq> [] \<Longrightarrow> \<not> continuation_line (ptext (hd ?rest))" by (rule hd_dropWhile)
    then show ?thesis using True 2(1) step [of ?rest] by (simp add: StartsAttribute_iff is_cont_iff)
  next
    case False
    then show ?thesis using 2(2) step [of ls "[l]"] by (simp add: StartsAttribute_iff)
  qed
qed simp

lemma unit_token:
  assumes "u \<in> set (units ptext pls)" "lines_at (unit_lines u) p n"
  shows "token_lines lb bo (unit_lines u) (tok_of lb bo u)"
proof (cases u)
  case (AttrUnit pl cs)
  have a: "attribute_line (ptext pl)" "list_all (\<lambda>c. continuation_line (ptext c)) cs" using units_shape [OF assms(1)] AttrUnit by simp_all
  then have "map cont_val cs = map (\<lambda>c. cont_piece (ptext c)) cs"
    by (auto simp: cont_val_def contValue_pieces list_all_iff)
  then have c: "Join (v # map cont_val cs) [LF] = Join (v # map (\<lambda>c. cont_piece (ptext c)) cs) [LF]" for v
    by (simp only:)
  have "line_end (List.last (pl # cs)) = pstart pl + length (concat (map pl_raw (pl # cs)))"
    using lines_at_last [of pl cs p n] assms(2) AttrUnit by simp
  then show ?thesis using a c by (simp add: AttrUnit splitAttr_pieces [OF a(1)] unit_span_def)
next
  case (OtherUnit pl)
  then have a: "\<not> attribute_line (ptext pl)" using units_shape [OF assms(1)] by simp
  then show ?thesis by (simp add: OtherUnit unit_span_def line_end_def pl_raw_def other_kind_iff)
qed

subsection \<open>Lines in the source\<close>

lemma line_in_source:
  "lines_at pls p n \<Longrightarrow> drop p src = concat (map pl_raw pls) \<Longrightarrow> pl \<in> set pls \<Longrightarrow>
   \<exists>post. drop (pstart pl) src = pl_raw pl @ post"
proof (induction pls arbitrary: p n)
  case (Cons x pls)
  have "drop (p + length (pl_raw x)) src = concat (map pl_raw pls)" by (rule drop_past) (use Cons.prems in simp)
  then show ?case using Cons by auto
qed simp

lemma scan_line_in_source: "pl \<in> set (scanLines src) \<Longrightarrow> \<exists>post. drop (pstart pl) src = pl_raw pl @ post"
  using line_in_source [of "scanLines src" 0 1 src pl] scan_tiles [of src 0 1] by (simp add: scanLines_def)

text \<open>A text occurs in the source at an offset of a line.\<close>

definition text_at :: "string \<Rightarrow> physLine \<Rightarrow> string \<times> nat \<Rightarrow> bool" where
  "text_at src pl vo \<longleftrightarrow> (\<exists>w. drop (pstart pl + snd vo) src = fst vo @ w)"

lemma text_atD:
  assumes "text_at src pl vo" "j < length (fst vo)"
  shows "pstart pl + snd vo + j < length src" "src ! (pstart pl + snd vo + j) = fst vo ! j"
proof -
  obtain w where w: "drop (pstart pl + snd vo) src = fst vo @ w" using assms(1) by (auto simp: text_at_def)
  have "length (drop (pstart pl + snd vo) src) > j" using w assms(2) by simp
  then show l: "pstart pl + snd vo + j < length src" by simp
  have "src ! (pstart pl + snd vo + j) = drop (pstart pl + snd vo) src ! j" using l by (simp add: add.assoc)
  then show "src ! (pstart pl + snd vo + j) = fst vo ! j" using w assms(2) by (simp add: nth_append)
qed

lemma trimPos_at: "k0 \<le> length content \<Longrightarrow> \<exists>w. drop (snd (trimPos content k0)) content = fst (trimPos content k0) @ w"
proof -
  let ?s = "drop k0 content" and ?p = "\<lambda>c. c \<in> set blanks"
  have "drop (snd (trimPos content k0)) content = drop (length (takeWhile ?p ?s)) ?s"
    by (simp add: trimPos_def Let_def add.commute)
  also have "\<dots> = dropWhile ?p ?s" by (rule dropWhile_eq_drop [symmetric])
  also have "\<dots> = rev (dropWhile ?p (rev (dropWhile ?p ?s))) @ rev (takeWhile ?p (rev (dropWhile ?p ?s)))"
    by (metis rev_append rev_rev_ident takeWhile_dropWhile_id)
  finally show ?thesis by (auto simp: trimPos_def Let_def Trim_def)
qed

lemma cut_comment_prefix: "\<exists>r. cut_comment text @ r = text"
  by (metis cut_comment_def takeWhile_dropWhile_id)

lemma drop_prefix: "content @ r = text \<Longrightarrow> off \<le> length content \<Longrightarrow> drop off content = v @ w \<Longrightarrow> \<exists>w. drop off text = v @ w"
  by auto

lemma trimPos_off: "k0 \<le> length content \<Longrightarrow> snd (trimPos content k0) \<le> length content"
proof -
  assume a: "k0 \<le> length content"
  have "length (takeWhile (\<lambda>c. c \<in> set blanks) (drop k0 content)) \<le> length (drop k0 content)"
    by (rule length_takeWhile_le)
  then show ?thesis using a by (simp add: trimPos_def Let_def)
qed

lemma splitAttr_at:
  assumes "splitAttr text = (name, v, off)"
  shows "\<exists>w. drop off text = v @ w"
proof -
  let ?c = "cut_comment text"
  obtain r where r: "?c @ r = text" using cut_comment_prefix [of "text"] by auto
  obtain k0 where f: "k0 \<le> length ?c" "trimPos ?c k0 = (v, off)"
  proof (cases "length (takeWhile (\<lambda>c. c \<noteq> CHR '':'') ?c) = length ?c")
    case True
    then show ?thesis using that [of 0] assms by (auto simp: splitAttr_def Let_def split: prod.splits)
  next
    case False
    then have "length (takeWhile (\<lambda>c. c \<noteq> CHR '':'') ?c) + 1 \<le> length ?c"
      using length_takeWhile_le [of "\<lambda>c. c \<noteq> CHR '':''" ?c] by linarith
    then show ?thesis
      using that [of "length (takeWhile (\<lambda>c. c \<noteq> CHR '':'') ?c) + 1"] assms False
      by (auto simp: splitAttr_def Let_def split: prod.splits)
  qed
  obtain w where "drop off ?c = v @ w" using trimPos_at [OF f(1)] f(2) by auto
  then show ?thesis using drop_prefix [OF r] trimPos_off [OF f(1)] f(2) by auto
qed

lemma contValue_at: "\<exists>w. drop (snd (contValue text keep)) text = fst (contValue text keep) @ w"
proof -
  let ?c = "if keep then text else cut_comment text"
  obtain r where r: "?c @ r = text" using cut_comment_prefix [of "text"] by (cases keep) auto
  show ?thesis
  proof (cases "?c = []")
    case True
    then show ?thesis by (simp add: contValue_def Let_def)
  next
    case False
    define k0 where "k0 = (if hd ?c = CHR ''+'' then 1 else (0::nat))"
    have f: "k0 \<le> length ?c" "contValue text keep = trimPos ?c k0"
      using False by (auto simp: k0_def contValue_def Let_def Suc_le_eq)
    obtain w where "drop (snd (trimPos ?c k0)) ?c = fst (trimPos ?c k0) @ w" using trimPos_at [OF f(1)] by blast
    then show ?thesis unfolding f(2) using drop_prefix [OF r trimPos_off [OF f(1)]] by blast
  qed
qed

lemma text_at_line:
  assumes "pl \<in> set (scanLines src)" "drop off (ptext pl) = v @ w" "off \<le> length (ptext pl) \<or> v = []"
  shows "text_at src pl (v, off)"
proof (cases "off \<le> length (ptext pl)")
  case True
  obtain post where "drop (pstart pl) src = pl_raw pl @ post" using scan_line_in_source [OF assms(1)] by blast
  then have "drop (off + pstart pl) src = drop off (ptext pl @ pterm pl @ post)"
    by (metis append.assoc drop_drop pl_raw_def)
  also have "\<dots> = v @ w @ pterm pl @ post" using True assms(2) by simp
  finally show ?thesis by (auto simp: text_at_def add.commute)
qed (use assms in \<open>auto simp: text_at_def\<close>)

subsection \<open>The source map\<close>

text \<open>The position of a byte offset: the line and column it is on, counted from one, and the offset itself.\<close>

definition position :: "string \<Rightarrow> int \<Rightarrow> int \<Rightarrow> nat \<Rightarrow> int \<times> int \<times> int" where
  "position src line bo b =
     (line + int (count_list (take b src) LF), int (length (takeWhile (\<lambda>c. c \<noteq> LF) (rev (take b src)))) + 1, bo + int b)"

lemma count_LF_free: "LF \<notin> set s \<Longrightarrow> count_list s LF = 0"
  by (induction s) auto

lemma lines_before:
  "proper (map line_pair (pre @ [pl])) \<Longrightarrow>
     count_list (concat (map pl_raw pre)) LF = length pre \<and> (pre = [] \<or> List.last (concat (map pl_raw pre)) = LF) \<and> LF \<notin> set (ptext pl)"
proof (induction pre)
  case Nil
  then show ?case by (simp add: line_pair_def ok_line_def)
next
  case (Cons x pre)
  have x: "LF \<notin> set (ptext x)" "pterm x = [LF] \<or> pterm x = [CR, LF]"
    using Cons.prems by (auto simp: line_pair_def ok_line_def)
  have p: "proper (map line_pair (pre @ [pl]))" using Cons.prems by simp
  have "count_list (pl_raw x) LF = 1" "List.last (pl_raw x) = LF" "pl_raw x \<noteq> []"
    using x by (auto simp: pl_raw_def count_LF_free)
  then show ?case using Cons.IH [OF p] by (cases pre) (auto simp: last_append)
qed

lemma line_position:
  assumes l: "scanLines src = pre @ pl # post" and c: "c \<le> length (ptext pl)"
  shows "position src line bo (pstart pl + c) = (line - 1 + int (pline pl), int c + 1, bo + int (pstart pl + c))"
proof -
  have t: "concat (map pl_raw (scanLines src)) = src" "lines_at (scanLines src) 0 1"
    using scan_tiles [of src 0 1] by (simp_all add: scanLines_def)
  let ?p = "concat (map pl_raw pre)"
  have at: "pstart pl = length ?p" "pline pl = 1 + length pre" using t(2) by (simp_all add: l lines_at_append)
  have src: "src = ?p @ ptext pl @ pterm pl @ concat (map pl_raw post)" using t(1) by (simp add: l pl_raw_def)
  have tk: "take (pstart pl + c) src = ?p @ take c (ptext pl)" by (subst src) (use at(1) c in simp)
  have "proper (map line_pair ((pre @ [pl]) @ post))" using proper_lines_of [of src] by (simp add: lines_of_def l)
  then have "proper (map line_pair (pre @ [pl]))" by (simp only: map_append proper_append)
  note b = lines_before [OF this]
  have n: "LF \<notin> set (take c (ptext pl))" using b by (meson in_set_takeD)
  have "takeWhile (\<lambda>c. c \<noteq> LF) (rev (take (pstart pl + c) src)) = rev (take c (ptext pl))"
  proof (cases "pre = []")
    case False
    then have "?p \<noteq> []" using b by (metis count_list.simps(1) length_0_conv)
    then obtain q where "?p = q @ [LF]" using b False append_butlast_last_id [of ?p] by metis
    then show ?thesis using n by (simp add: tk takeWhile_absent)
  qed (use n takeWhile_absent(1) [of LF "rev (take c (ptext pl))" "[]"] in \<open>simp add: tk\<close>)
  moreover have "count_list (take (pstart pl + c) src) LF = length pre" unfolding tk using b n by (simp add: count_LF_free)
  ultimately show ?thesis using at(2) c by (simp add: position_def)
qed

fun seg_list :: "int \<Rightarrow> int \<Rightarrow> int \<Rightarrow> (physLine \<times> string \<times> nat) list \<Rightarrow> Segment list" where
  "seg_list lb bo v [] = []"
| "seg_list lb bo v (x # xs) =
     line_segment lb bo v (fst x) (snd x) # seg_list lb bo (v + int (length (fst (snd x))) + 1) xs"

lemma cont_segments_seg_list:
  "cont_segments lb bo v cs = seg_list lb bo v (map (\<lambda>c. (c, contValue (ptext c) False)) cs)"
  by (induction cs arbitrary: v) (simp_all add: cont_val_def)

text \<open>Where the pieces begin in their join.\<close>

definition piece_start :: "string list \<Rightarrow> nat \<Rightarrow> nat" where
  "piece_start ps i = sum_list (map (\<lambda>p. length p + 1) (take i ps))"

lemma piece_start_simps [simp]: "piece_start ps 0 = 0" "piece_start (p # ps) (Suc i) = length p + 1 + piece_start ps i"
  by (simp_all add: piece_start_def)

definition seg_position :: "int \<Rightarrow> int \<Rightarrow> physLine \<times> string \<times> nat \<Rightarrow> nat \<Rightarrow> int \<times> int \<times> int" where
  "seg_position lb bo x j = (lb + int (pline (fst x)), int (snd (snd x) + j) + 1, bo + int (pstart (fst x) + (snd (snd x) + j)))"

lemma source_loop_at:
  "i < length xs \<Longrightarrow> j \<le> length (fst (snd (xs ! i))) \<Longrightarrow>
   source_loop (seg_list lb bo v xs) (v + int (piece_start (map (\<lambda>x. fst (snd x)) xs) i + j)) = Some (seg_position lb bo (xs ! i) j)"
proof (induction xs arbitrary: i v)
  case (Cons x xs)
  show ?case
  proof (cases i)
    case 0
    then show ?thesis using Cons.prems by (simp add: line_segment_def seg_position_def Let_def)
  next
    case (Suc i')
    then show ?thesis
      using Cons.prems Cons.IH [of i' "v + int (length (fst (snd x))) + 1"] by (simp add: line_segment_def algebra_simps)
  qed
qed simp

lemma length_Join: "ps \<noteq> [] \<Longrightarrow> length (Join ps [LF]) = piece_start ps (length ps - 1) + length (List.last ps)"
proof (induction ps)
  case (Cons p ps)
  then show ?case by (cases ps) simp_all
qed simp

lemma Join_Cons: "Join (x # xs) sep = (if xs = [] then x else x @ sep @ Join xs sep)"
  by (cases xs) simp_all

lemma source_loop_past:
  "xs \<noteq> [] \<Longrightarrow> k > v + int (length (Join (map (\<lambda>x. fst (snd x)) xs) [LF])) \<Longrightarrow> source_loop (seg_list lb bo v xs) k = None"
proof (induction xs arbitrary: v)
  case (Cons x xs)
  show ?case
  proof (cases "xs = []")
    case False
    then have "k > v + int (length (fst (snd x))) + 1 + int (length (Join (map (\<lambda>x. fst (snd x)) xs) [LF]))"
      using Cons.prems(2) by (simp add: Join_Cons)
    then show ?thesis using Cons.IH [OF False] by (simp add: line_segment_def)
  qed (use Cons.prems in \<open>simp add: line_segment_def\<close>)
qed simp

lemma seg_list_last:
  "xs \<noteq> [] \<Longrightarrow> (let l = List.last (seg_list lb bo v xs); d = ValEnd l - ValStart l in (SrcLine l, SrcCol l + d, SrcByte l + d)) =
     seg_position lb bo (List.last xs) (length (fst (snd (List.last xs))))"
proof (induction xs arbitrary: v)
  case (Cons x xs)
  show ?case
  proof (cases "xs = []")
    case True
    then show ?thesis by (simp add: line_segment_def seg_position_def Let_def)
  next
    case False
    then have "seg_list lb bo w xs \<noteq> []" for w by (cases xs) simp_all
    then show ?thesis using Cons.IH [OF False] False by simp
  qed
qed simp

text \<open>The segments of an attribute are the pieces of its lines.\<close>

definition line_pieces :: "physLine list \<Rightarrow> (physLine \<times> string \<times> nat) list" where
  "line_pieces g = zip g (zip (pieces g) (piece_cols g))"

lemma pieces_length [simp]: "length (pieces g) = length g" "length (piece_cols g) = length g"
  by (cases g; simp)+

lemma line_pieces_simps [simp]:
  "length (line_pieces g) = length g" "map (\<lambda>x. fst (snd x)) (line_pieces g) = pieces g"
  "i < length g \<Longrightarrow> line_pieces g ! i = (g ! i, pieces g ! i, piece_cols g ! i)"
  by (auto simp: line_pieces_def intro: nth_equalityI)

lemma unit_segments:
  assumes "AttrUnit pl cs \<in> set (units ptext pls)"
  shows "tSegments (tok_of lb bo (AttrUnit pl cs)) = seg_list lb bo 0 (line_pieces (pl # cs))"
    "tValue (tok_of lb bo (AttrUnit pl cs)) = Join (pieces (pl # cs)) [LF]"
proof -
  have a: "attribute_line (ptext pl)" "list_all (\<lambda>c. continuation_line (ptext c)) cs" using units_shape [OF assms] by simp_all
  have c: "map (\<lambda>c. (c, contValue (ptext c) False)) cs = zip cs (zip (map (\<lambda>c. cont_piece (ptext c)) cs) (map (\<lambda>c. cont_col (ptext c)) cs))"
    "map cont_val cs = map (\<lambda>c. cont_piece (ptext c)) cs"
    using a(2) by (induction cs) (auto simp: contValue_pieces cont_val_def)
  show "tSegments (tok_of lb bo (AttrUnit pl cs)) = seg_list lb bo 0 (line_pieces (pl # cs))"
    using c(1) by (simp add: splitAttr_pieces [OF a(1)] line_pieces_def cont_segments_seg_list)
  show "tValue (tok_of lb bo (AttrUnit pl cs)) = Join (pieces (pl # cs)) [LF]"
    by (simp only: tok_of.simps splitAttr_pieces [OF a(1)] Let_def prod.case Token.simps pieces.simps c(2))
qed

text \<open>A piece lies where its column says, inside its line.\<close>

lemma piece_at:
  assumes "attribute_line (ptext pl)" "list_all (\<lambda>c. continuation_line (ptext c)) cs" "i < length (pl # cs)"
  shows "\<exists>w. drop (piece_cols (pl # cs) ! i) (ptext ((pl # cs) ! i)) = pieces (pl # cs) ! i @ w"
    "piece_cols (pl # cs) ! i + length (pieces (pl # cs) ! i) \<le> length (ptext ((pl # cs) ! i))"
proof -
  show d: "\<exists>w. drop (piece_cols (pl # cs) ! i) (ptext ((pl # cs) ! i)) = pieces (pl # cs) ! i @ w"
  proof (cases i)
    case 0
    then show ?thesis using splitAttr_at [OF splitAttr_pieces [OF assms(1)]] by simp
  next
    case (Suc k)
    then have "continuation_line (ptext (cs ! k))" using assms(2,3) by (simp add: list_all_length)
    then show ?thesis using Suc assms(3) contValue_at [of "ptext (cs ! k)" False] by (simp add: contValue_pieces)
  qed
  have "piece_cols (pl # cs) ! i \<le> length (ptext ((pl # cs) ! i))"
  proof (cases i)
    case 0
    obtain a r where "ptext pl = a @ CHR '':'' # r" "CHR '':'' \<notin> set a" using attribute_split [OF assms(1)] by metis
    then show ?thesis using 0 length_takeWhile_le [of "\<lambda>c. c \<in> set blanks" r] by (simp add: first_col_def takeWhile_absent)
  next
    case (Suc k)
    then have "ptext (cs ! k) \<noteq> []" using assms(2,3) by (simp add: list_all_length continuation_line_def)
    then show ?thesis
      using Suc assms(3) length_takeWhile_le [of "\<lambda>c. c \<in> set blanks" "ptext (cs ! k)"] length_takeWhile_le [of "\<lambda>c. c \<in> set blanks" "tl (ptext (cs ! k))"]
      by (cases "ptext (cs ! k)") (auto simp: cont_col_def)
  qed
  moreover obtain w where "drop (piece_cols (pl # cs) ! i) (ptext ((pl # cs) ! i)) = pieces (pl # cs) ! i @ w" using d by blast
  then have "length (ptext ((pl # cs) ! i)) - piece_cols (pl # cs) ! i = length (pieces (pl # cs) ! i) + length w"
    by (metis length_append length_drop)
  ultimately show "piece_cols (pl # cs) ! i + length (pieces (pl # cs) ! i) \<le> length (ptext ((pl # cs) ! i))" by linarith
qed

lemma unit_source_map:
  assumes u: "AttrUnit pl cs \<in> set (units ptext (scanLines src))" and i: "i < length (pl # cs)" and j: "j \<le> length (pieces (pl # cs) ! i)"
    and l: "scanLines src = pre @ (pl # cs) @ post"
  shows "SourceAt (tok_of (line - 1) bo (AttrUnit pl cs)) (int (piece_start (pieces (pl # cs)) i + j)) =
    position src line bo (pstart ((pl # cs) ! i) + (piece_cols (pl # cs) ! i + j))"
proof -
  let ?g = "pl # cs"
  have s: "unit_shape (AttrUnit pl cs)" using units_shape [OF u] .
  have "scanLines src = (pre @ take i ?g) @ ?g ! i # drop (Suc i) ?g @ post" using l id_take_nth_drop [OF i] by (metis append.assoc append_Cons)
  moreover have "piece_cols ?g ! i + j \<le> length (ptext (?g ! i))" using piece_at(2) [of pl cs i] s i j by simp
  ultimately have p: "position src line bo (pstart (?g ! i) + (piece_cols ?g ! i + j)) =
      (line - 1 + int (pline (?g ! i)), int (piece_cols ?g ! i + j) + 1, bo + int (pstart (?g ! i) + (piece_cols ?g ! i + j)))"
    by (rule line_position)
  have "source_loop (seg_list (line - 1) bo 0 (line_pieces ?g)) (int (piece_start (pieces ?g) i + j)) =
      Some (seg_position (line - 1) bo (?g ! i, pieces ?g ! i, piece_cols ?g ! i) j)"
    using source_loop_at [of i "line_pieces ?g" j "line - 1" bo 0] i j by simp
  moreover have "seg_list (line - 1) bo 0 (line_pieces ?g) \<noteq> []" by (simp add: line_pieces_def)
  ultimately show ?thesis unfolding p by (simp add: SourceAt_def unit_segments(1) [OF u] seg_position_def del: tok_of.simps)
qed

lemma unit_source_ends:
  assumes u: "AttrUnit pl cs \<in> set (units ptext pls)"
  shows "k < 0 \<Longrightarrow> SourceAt (tok_of lb bo (AttrUnit pl cs)) k = SourceAt (tok_of lb bo (AttrUnit pl cs)) 0"
    "k > int (length (tValue (tok_of lb bo (AttrUnit pl cs)))) \<Longrightarrow>
     SourceAt (tok_of lb bo (AttrUnit pl cs)) k = SourceAt (tok_of lb bo (AttrUnit pl cs)) (int (length (tValue (tok_of lb bo (AttrUnit pl cs)))))"
proof -
  let ?g = "pl # cs" and ?t = "tok_of lb bo (AttrUnit pl cs)"
  show "k < 0 \<Longrightarrow> SourceAt ?t k = SourceAt ?t 0" by (simp add: SourceAt_def del: tok_of.simps)
  assume k: "k > int (length (tValue ?t))"
  have x: "line_pieces ?g \<noteq> []" "pieces ?g \<noteq> []" "seg_list lb bo 0 (line_pieces ?g) \<noteq> []" by (simp_all add: line_pieces_def)
  have len: "length (tValue ?t) = piece_start (pieces ?g) (length cs) + length (pieces ?g ! length cs)"
    using length_Join [OF x(2)] last_conv_nth [OF x(2)] by (simp only: unit_segments(2) [OF u] pieces_length list.size) simp
  have last: "List.last (line_pieces ?g) = (?g ! length cs, pieces ?g ! length cs, piece_cols ?g ! length cs)"
    using last_conv_nth [OF x(1)] by simp
  have "source_loop (seg_list lb bo 0 (line_pieces ?g)) k = None"
    using source_loop_past [OF x(1), of 0 k lb bo] k by (simp add: unit_segments(2) [OF u] del: tok_of.simps pieces.simps)
  then have "SourceAt ?t k = seg_position lb bo (List.last (line_pieces ?g)) (length (pieces ?g ! length cs))"
    using seg_list_last [OF x(1), of lb bo 0] x(3) k last by (simp add: SourceAt_def unit_segments(1) [OF u] del: tok_of.simps pieces.simps piece_cols.simps)
  moreover have "SourceAt ?t (int (length (tValue ?t))) = seg_position lb bo (List.last (line_pieces ?g)) (length (pieces ?g ! length cs))"
    using source_loop_at [of "length cs" "line_pieces ?g" "length (pieces ?g ! length cs)" lb bo 0] x(3) last
    by (simp add: SourceAt_def unit_segments(1) [OF u] len del: tok_of.simps pieces.simps piece_cols.simps)
  ultimately show "SourceAt ?t k = SourceAt ?t (int (length (tValue ?t)))" by simp
qed

lemma Join_nth: "i < length ps \<Longrightarrow> j < length (ps ! i) \<Longrightarrow> Join ps [LF] ! (piece_start ps i + j) = ps ! i ! j"
proof (induction ps arbitrary: i)
  case (Cons p ps)
  show ?case
  proof (cases i)
    case 0
    then show ?thesis using Cons.prems by (simp add: Join_Cons nth_append)
  next
    case (Suc i')
    then have "ps \<noteq> []" using Cons.prems by auto
    then show ?thesis using Suc Cons by (simp add: Join_Cons nth_append)
  qed
qed simp

lemma unit_bytes:
  assumes u: "AttrUnit pl cs \<in> set (units ptext (scanLines src))" and i: "i < length (pl # cs)" and j: "j < length (pieces (pl # cs) ! i)"
    and l: "set (pl # cs) \<subseteq> set (scanLines src)"
  shows "src ! (pstart ((pl # cs) ! i) + (piece_cols (pl # cs) ! i + j)) = Join (pieces (pl # cs)) [LF] ! (piece_start (pieces (pl # cs)) i + j)"
proof -
  let ?g = "pl # cs"
  have s: "unit_shape (AttrUnit pl cs)" using units_shape [OF u] .
  obtain w where w: "drop (piece_cols ?g ! i) (ptext (?g ! i)) = pieces ?g ! i @ w" using piece_at(1) [of pl cs i] s i by auto
  have "?g ! i \<in> set (scanLines src)" using l i nth_mem by blast
  then have "text_at src (?g ! i) (pieces ?g ! i, piece_cols ?g ! i)"
    using text_at_line [OF _ w] piece_at(2) [of pl cs i] s i by simp
  from text_atD(2) [OF this, of j] j
  have "src ! (pstart (?g ! i) + (piece_cols ?g ! i + j)) = pieces ?g ! i ! j" by (simp add: add.assoc)
  then show ?thesis using Join_nth [of i "pieces ?g" j] i j by simp
qed

subsection \<open>The partition\<close>

fun spans_chain :: "int \<Rightarrow> Token list \<Rightarrow> bool" where
  "spans_chain b [] = True"
| "spans_chain b (t # ts) \<longleftrightarrow>
     StartByte (tSpan t) = b \<and> EndByte (tSpan t) = b + int (length (tRaw t)) \<and> spans_chain (EndByte (tSpan t)) ts"

lemma tok_of_raw: "tRaw (tok_of lb bo u) = concat (map pl_raw (unit_lines u))"
  by (cases u) (auto split: prod.split)

lemma units_chain:
  "lines_at (concat (map unit_lines us)) p n \<Longrightarrow> spans_chain (bo + int p) (map (tok_of lb bo) us)"
proof (induction us arbitrary: p n)
  case (Cons u us)
  let ?ls = "unit_lines u"
  have at: "lines_at ?ls p n" "lines_at (concat (map unit_lines us)) (p + length (concat (map pl_raw ?ls))) (n + length ?ls)"
    using Cons.prems lines_at_append [of ?ls "concat (map unit_lines us)" p n] by simp_all
  have e: "StartByte (tSpan (tok_of lb bo u)) = bo + int p"
    "EndByte (tSpan (tok_of lb bo u)) = bo + int (p + length (concat (map pl_raw ?ls)))"
    using at(1) lines_at_last [of _ _ p n]
    by (cases u; auto simp: unit_span_def line_end_def pl_raw_def split: prod.split)+
  show ?case using e Cons.IH [OF at(2)] by (simp add: tok_of_raw add.assoc)
qed simp

subsection \<open>Properties\<close>

lemma concat_map_concat: "concat (map f (concat (map g xs))) = concat (map (\<lambda>x. concat (map f (g x))) xs)"
  by (induction xs) simp_all

lemma lines_at_unit:
  "u \<in> set us \<Longrightarrow> lines_at (concat (map unit_lines us)) p n \<Longrightarrow>
   \<exists>pre post q m. concat (map unit_lines us) = pre @ unit_lines u @ post \<and> lines_at (unit_lines u) q m"
proof -
  assume "u \<in> set us" and at: "lines_at (concat (map unit_lines us)) p n"
  then obtain vs ws where "us = vs @ u # ws" by (meson split_list)
  then have "concat (map unit_lines us) = concat (map unit_lines vs) @ unit_lines u @ concat (map unit_lines ws)" by simp
  then show ?thesis using at lines_at_append by metis
qed

text \<open>Each token of a source comes from the lines of one unit.\<close>

lemma token_unit:
  assumes "t \<in> set (TokenizeAt src line bo)"
  obtains u pre post where "u \<in> set (units ptext (scanLines src))" "t = tok_of (line - 1) bo u"
    "scanLines src = pre @ unit_lines u @ post" "token_lines (line - 1) bo (unit_lines u) t"
proof -
  obtain u where u: "u \<in> set (units ptext (scanLines src))" "t = tok_of (line - 1) bo u" using assms by (auto simp: TokenizeAt_units)
  have "lines_at (concat (map unit_lines (units ptext (scanLines src)))) 0 1"
    using scan_tiles [of src 0 1] by (simp add: units_lines scanLines_def)
  from lines_at_unit [OF u(1) this] obtain pre post q m where
    "scanLines src = pre @ unit_lines u @ post" "lines_at (unit_lines u) q m" unfolding units_lines by blast
  then show thesis using that u unit_token by blast
qed

text \<open>(C16) \<^verbatim>\<open>TokenizeAt\<close> is a total partition of its input.  The tokens' raw texts, in order, are the source byte for
  byte, and the byte spans chain from the given offset without gap or overlap.  The lines are those that newlines
  and carriage returns end, numbered from one.  Each token is the lines of one group: an attribute line with all
  the continuation lines that follow it, its name and its folded value, or one other line of the kind its bytes
  say; and its span covers exactly those lines.\<close>

theorem Tokenize_partition:
  "concat (map tRaw (TokenizeAt src line bo)) = src \<and> spans_chain bo (TokenizeAt src line bo) \<and>
   proper (lines_of src) \<and> lines_at (scanLines src) 0 1 \<and>
   (\<exists>groups. concat groups = scanLines src \<and> list_all2 (token_lines (line - 1) bo) groups (TokenizeAt src line bo) \<and> maximal groups)"
proof (intro conjI exI [of _ "map unit_lines (units ptext (scanLines src))"])
  show t: "lines_at (scanLines src) 0 1" using scan_tiles [of src 0 1] by (simp add: scanLines_def)
  have "concat (map pl_raw (scanLines src)) = src" using scan_tiles [of src 0 1] by (simp add: scanLines_def)
  moreover have "concat (map tRaw (TokenizeAt src line bo)) = concat (map pl_raw (concat (map unit_lines (units ptext (scanLines src)))))"
    by (simp add: TokenizeAt_units tok_of_raw comp_def concat_map_concat)
  ultimately show "concat (map tRaw (TokenizeAt src line bo)) = src" by (simp add: units_lines)
  show "spans_chain bo (TokenizeAt src line bo)"
    using units_chain [of "units ptext (scanLines src)" 0 1 bo "line - 1"] t by (simp add: TokenizeAt_units units_lines)
  show "list_all2 (token_lines (line - 1) bo) (map unit_lines (units ptext (scanLines src))) (TokenizeAt src line bo)"
    unfolding TokenizeAt_units list_all2_map1 list_all2_map2 list_all2_same
    using unit_token lines_at_unit [of _ "units ptext (scanLines src)" 0 1] t by (metis units_lines)
qed (rule proper_lines_of units_lines units_maximal)+

lemma attribute_source_map:
  assumes a: "AttrUnit pl cs \<in> set (units ptext (scanLines src))" and l: "scanLines src = pre @ (pl # cs) @ post"
    and t: "t = tok_of (line - 1) bo (AttrUnit pl cs)" and g: "g = pl # cs"
  shows "(\<forall>i<length g. \<forall>j\<le>length (pieces g ! i).
       SourceAt t (int (piece_start (pieces g) i + j)) = position src line bo (pstart (g ! i) + (piece_cols g ! i + j))) \<and>
    (\<forall>i<length g. \<forall>j<length (pieces g ! i).
       src ! (pstart (g ! i) + (piece_cols g ! i + j)) = tValue t ! (piece_start (pieces g) i + j)) \<and>
    (\<forall>k<0. SourceAt t k = SourceAt t 0) \<and>
    (\<forall>k>int (length (tValue t)). SourceAt t k = SourceAt t (int (length (tValue t))))"
proof (intro conjI)
  have v: "tValue t = Join (pieces g) [LF]" unfolding t g by (rule unit_segments(2) [OF a])
  have s: "set (pl # cs) \<subseteq> set (scanLines src)" using l by auto
  show "\<forall>i<length g. \<forall>j\<le>length (pieces g ! i).
      SourceAt t (int (piece_start (pieces g) i + j)) = position src line bo (pstart (g ! i) + (piece_cols g ! i + j))"
    unfolding t g using unit_source_map [OF a _ _ l] by blast
  show "\<forall>i<length g. \<forall>j<length (pieces g ! i).
      src ! (pstart (g ! i) + (piece_cols g ! i + j)) = tValue t ! (piece_start (pieces g) i + j)"
    unfolding v unfolding g using unit_bytes [OF a _ _ s] by blast
  show "\<forall>k<0. SourceAt t k = SourceAt t 0" "\<forall>k>int (length (tValue t)). SourceAt t k = SourceAt t (int (length (tValue t)))"
    unfolding t using unit_source_ends [OF a] by blast+
qed

text \<open>(C17) The source map of a token is exact.  Offset \<open>j\<close> of the piece that line \<open>i\<close> of an attribute adds to the value
  is reported at the line, the column and the byte where that piece begins in the source, plus \<open>j\<close>, and that byte
  is the byte of the value.  The newline that joins two pieces is reported at the end of the first, an offset
  before the value at its start and one past it at its end.  Any other token reports its start.\<close>

theorem SourceAt_exact:
  assumes "t \<in> set (TokenizeAt src line bo)"
  shows "\<exists>pre g post. scanLines src = pre @ g @ post \<and> token_lines (line - 1) bo g t \<and>
    (if tKind t = KindAttribute
     then (\<forall>i<length g. \<forall>j\<le>length (pieces g ! i).
             SourceAt t (int (piece_start (pieces g) i + j)) = position src line bo (pstart (g ! i) + (piece_cols g ! i + j))) \<and>
          (\<forall>i<length g. \<forall>j<length (pieces g ! i).
             src ! (pstart (g ! i) + (piece_cols g ! i + j)) = tValue t ! (piece_start (pieces g) i + j)) \<and>
          (\<forall>k<0. SourceAt t k = SourceAt t 0) \<and>
          (\<forall>k>int (length (tValue t)). SourceAt t k = SourceAt t (int (length (tValue t))))
     else (\<forall>k. SourceAt t k = (StartLine (tSpan t), 1, StartByte (tSpan t))))"
proof -
  obtain u pre post where u: "u \<in> set (units ptext (scanLines src))" "t = tok_of (line - 1) bo u"
    "scanLines src = pre @ unit_lines u @ post" "token_lines (line - 1) bo (unit_lines u) t" using token_unit [OF assms] .
  show ?thesis
  proof (cases u)
    case (AttrUnit pl cs)
    then have k: "tKind t = KindAttribute" using u(2) by (simp add: Let_def split: prod.split)
    have l: "scanLines src = pre @ (pl # cs) @ post" using u(3) AttrUnit by simp
    show ?thesis
      unfolding if_P [OF k] using l u(4) attribute_source_map [OF u(1) [unfolded AttrUnit] l u(2) [unfolded AttrUnit] refl]
      unfolding AttrUnit unit_lines.simps by blast
  next
    case (OtherUnit pl)
    then have "tKind t \<noteq> KindAttribute" using units_shape [OF u(1)] classify_cases(4) u(2) by (simp add: StartsAttribute_iff)
    moreover have "SourceAt t k = (StartLine (tSpan t), 1, StartByte (tSpan t))" for k using OtherUnit u(2) by (simp add: SourceAt_def unit_span_def)
    ultimately show ?thesis using u(3,4) by auto
  qed
qed

definition folded_source :: string where
  "folded_source = ''a: x'' @ [LF] @ ''+ y'' @ [LF]"

theorem SourceAt_exact_witness:
  "\<exists>g. token_lines 0 0 g (hd (TokenizeAt folded_source 1 0)) \<and> length g = 2 \<and>
     SourceAt (hd (TokenizeAt folded_source 1 0)) (int (piece_start (pieces g) 1)) =
     position folded_source 1 0 (pstart (g ! 1) + piece_cols g ! 1) \<and>
     position folded_source 1 0 7 = (2, 3, 7) \<and> SourceAt (hd (TokenizeAt folded_source 1 0)) 2 = (2, 3, 7)"
proof -
  let ?t = "hd (TokenizeAt folded_source 1 0)"
  have v: "tKind ?t = KindAttribute" "TokenizeAt folded_source 1 0 \<noteq> []" "tRaw ?t = folded_source" "length (scanLines folded_source) = 2"
    "position folded_source 1 0 7 = (2, 3, 7)" "SourceAt ?t 2 = (2, 3, 7)" by code_simp+
  have "?t \<in> set (TokenizeAt folded_source 1 0)" using v(2) by simp
  from SourceAt_exact [OF this] v(1) obtain pre g post where g: "scanLines folded_source = pre @ g @ post" "token_lines 0 0 g ?t"
    "\<And>i j. i < length g \<Longrightarrow> j \<le> length (pieces g ! i) \<Longrightarrow>
       SourceAt ?t (int (piece_start (pieces g) i + j)) = position folded_source 1 0 (pstart (g ! i) + (piece_cols g ! i + j))"
    by auto
  have "concat (map pl_raw (scanLines folded_source)) = folded_source" using scan_tiles [of folded_source 0 1] by (simp add: scanLines_def)
  moreover have "tRaw ?t = concat (map pl_raw g)" using g(2) by (cases g) auto
  ultimately have "length (concat (map pl_raw pre @ map pl_raw g @ map pl_raw post)) = length (concat (map pl_raw g))"
    using g(1) v(3) by (metis map_append)
  then have "concat (map pl_raw pre) = [] \<and> concat (map pl_raw post) = []"
    by (simp only: concat_append length_append) simp
  moreover have "\<forall>pl\<in>set (scanLines folded_source). pl_raw pl \<noteq> []" by code_simp
  ultimately have "pre = [] \<and> post = []" using g(1) by (cases pre; cases post) auto
  then have "length g = 2" using g(1) v(4) by simp
  then show ?thesis using g(2) g(3) [of 1 0] v(5,6) by auto
qed

end
