(* ===== verification/Ast_Object.thy ===== *)
theory Ast_Object
  imports Source_Lines
begin

text \<open>
  The lossless object model (\<^verbatim>\<open>src/ast/object.go\<close>, \<^verbatim>\<open>build.go\<close>, \<^verbatim>\<open>list.go\<close>): an object is an ordered list of
  attributes, each with the trivia before it, and the trivia after the last one.  Reading, editing
  (\<^verbatim>\<open>Append\<close>, \<^verbatim>\<open>Set\<close>), building and re-formatting are here; what they promise of the text they produce
  is proved in the theories after this one.  A nil \<^verbatim>\<open>*Object\<close> is \<^term>\<open>None\<close>.
\<close>

subsection \<open>Data\<close>

record Attribute =
  aName :: string
  aValue :: string
  aRaw :: string
  aComment :: string
  aSpan :: Span
  aSegments :: "Segment list"
  alead :: string

record Object =
  oattrs :: "Attribute list"
  otrail :: string

subsection \<open>White space of Unicode text\<close>

text \<open>
  \<^verbatim>\<open>unicode.IsSpace\<close> on UTF-8: the encodings of the white-space characters.  \<^verbatim>\<open>strings.TrimSpace\<close> and the
  \<^verbatim>\<open>TrimFunc\<close> family remove them from the ends.
\<close>

definition space_seqs :: "string list" where
  "space_seqs =
     [[CHR 0x20], [CHR 0x09], [CHR 0x0A], [CHR 0x0B], [CHR 0x0C], [CHR 0x0D],
      [CHR 0xC2, CHR 0x85], [CHR 0xC2, CHR 0xA0], [CHR 0xE1, CHR 0x9A, CHR 0x80],
      [CHR 0xE2, CHR 0x80, CHR 0x80], [CHR 0xE2, CHR 0x80, CHR 0x81], [CHR 0xE2, CHR 0x80, CHR 0x82],
      [CHR 0xE2, CHR 0x80, CHR 0x83], [CHR 0xE2, CHR 0x80, CHR 0x84], [CHR 0xE2, CHR 0x80, CHR 0x85],
      [CHR 0xE2, CHR 0x80, CHR 0x86], [CHR 0xE2, CHR 0x80, CHR 0x87], [CHR 0xE2, CHR 0x80, CHR 0x88],
      [CHR 0xE2, CHR 0x80, CHR 0x89], [CHR 0xE2, CHR 0x80, CHR 0x8A], [CHR 0xE2, CHR 0x80, CHR 0xA8],
      [CHR 0xE2, CHR 0x80, CHR 0xA9], [CHR 0xE2, CHR 0x80, CHR 0xAF], [CHR 0xE2, CHR 0x81, CHR 0x9F],
      [CHR 0xE3, CHR 0x80, CHR 0x80]]"

function trim_seqs :: "string list \<Rightarrow> string \<Rightarrow> string" where
  "trim_seqs seqs s =
     (case List.find (\<lambda>p. p \<noteq> [] \<and> HasPrefix s p) seqs of
        None \<Rightarrow> s
      | Some p \<Rightarrow> trim_seqs seqs (drop (length p) s))"
  by pat_completeness auto
termination
proof (relation "measure (\<lambda>(_, s). length s)")
  fix seqs :: "string list" and s p
  assume "List.find (\<lambda>p. p \<noteq> [] \<and> HasPrefix s p) seqs = Some p"
  then have "p \<noteq> [] \<and> HasPrefix s p" by (auto simp: find_Some_iff)
  then have "length p > 0" "s \<noteq> []" by (auto simp: HasPrefix_def)
  then show "((seqs, drop (length p) s), seqs, s) \<in> measure (\<lambda>(_, s). length s)" by simp
qed simp

declare trim_seqs.simps [simp del]

definition TrimLeftSpace :: "string \<Rightarrow> string" where
  "TrimLeftSpace s = trim_seqs space_seqs s"

definition TrimRightSpace :: "string \<Rightarrow> string" where
  "TrimRightSpace s = rev (trim_seqs (map rev space_seqs) (rev s))"

definition TrimSpace :: "string \<Rightarrow> string" where
  "TrimSpace s = TrimRightSpace (TrimLeftSpace s)"

subsection \<open>Reading\<close>

definition first_line :: "string \<Rightarrow> string" where
  "first_line raw = TrimSuffix (takeWhile (\<lambda>c. c \<noteq> LF) raw) [CR]"

definition inlineComment :: "string \<Rightarrow> string" where
  "inlineComment raw =
     (let first = first_line raw in
      if CHR ''#'' \<in> set first
      then TrimSpace (tl (dropWhile (\<lambda>c. c \<noteq> CHR ''#'') first)) else [])"

definition joinRaw :: "Token list \<Rightarrow> string" where
  "joinRaw toks = concat (map tRaw toks)"

definition token_attr :: "Token \<Rightarrow> string \<Rightarrow> Attribute" where
  "token_attr t lead =
     \<lparr>aName = tName t, aValue = tValue t, aRaw = tRaw t, aComment = inlineComment (tRaw t),
      aSpan = tSpan t, aSegments = tSegments t, alead = lead\<rparr>"

text \<open>The loop of \<^verbatim>\<open>New\<close>, with the trivia tokens since the last attribute.\<close>

fun new_loop :: "Token list \<Rightarrow> Token list \<Rightarrow> Attribute list \<times> string" where
  "new_loop run [] = ([], joinRaw run)"
| "new_loop run (t # ts) =
     (if tKind t \<noteq> KindAttribute then new_loop (run @ [t]) ts
      else let (attrs, trail) = new_loop [] ts in (token_attr t (joinRaw run) # attrs, trail))"

definition New :: "Token list \<Rightarrow> Object" where
  "New toks = (let (attrs, trail) = new_loop [] toks in \<lparr>oattrs = attrs, otrail = trail\<rparr>)"

definition attr_ValueWithComments :: "Attribute \<Rightarrow> string" where
  "attr_ValueWithComments a = (if CHR ''#'' \<notin> set (aRaw a) then aValue a else ValueWithComments (aRaw a))"

definition SpanAt :: "Attribute \<Rightarrow> int \<Rightarrow> int \<Rightarrow> Span" where
  "SpanAt a valStart valEnd =
     (if aSegments a = [] then aSpan a
      else let t = zeroToken\<lparr>tSpan := aSpan a, tSegments := aSegments a\<rparr>;
               (sl, sc, sb) = SourceAt t valStart; (el, ec, eb) = SourceAt t valEnd in
        \<lparr>StartLine = sl, StartCol = sc, EndLine = el, EndCol = ec, StartByte = sb, EndByte = eb\<rparr>)"

fun obj_Class :: "Object option \<Rightarrow> string" where
  "obj_Class None = []"
| "obj_Class (Some obj) = (case oattrs obj of [] \<Rightarrow> [] | a # _ \<Rightarrow> aName a)"

fun obj_Key :: "Object option \<Rightarrow> string" where
  "obj_Key None = []"
| "obj_Key (Some obj) = (case oattrs obj of [] \<Rightarrow> [] | a # _ \<Rightarrow> aValue a)"

fun GetFirst :: "Object option \<Rightarrow> string \<Rightarrow> Attribute option" where
  "GetFirst None name = None"
| "GetFirst (Some obj) name = List.find (\<lambda>a. aName a = CanonicalName name) (oattrs obj)"

fun GetAll :: "Object option \<Rightarrow> string \<Rightarrow> Attribute list" where
  "GetAll None name = []"
| "GetAll (Some obj) name = filter (\<lambda>a. aName a = CanonicalName name) (oattrs obj)"

definition Has :: "Object option \<Rightarrow> string \<Rightarrow> bool" where
  "Has obj name \<longleftrightarrow> GetFirst obj name \<noteq> None"

fun Attributes :: "Object option \<Rightarrow> Attribute list" where
  "Attributes None = []"
| "Attributes (Some obj) = oattrs obj"

fun obj_String :: "Object option \<Rightarrow> string" where
  "obj_String None = []"
| "obj_String (Some obj) = concat (map (\<lambda>a. alead a @ aRaw a) (oattrs obj)) @ otrail obj"

text \<open>
  The line loop of \<^verbatim>\<open>Text\<close>: the start of the first attribute line, the end of the last attribute or
  continuation line, and whether the previous line was one.
\<close>

function text_loop :: "string \<Rightarrow> nat \<Rightarrow> nat option \<Rightarrow> nat \<Rightarrow> bool \<Rightarrow> nat option \<times> nat" where
  "text_loop rest off start fin inAttr =
     (if rest = [] then (start, fin)
      else let body = takeWhile (\<lambda>c. c \<noteq> LF) rest;
               eol = (if body = rest then length rest else length body + 1);
               line = TrimSuffix body [CR];
               rest' = drop eol rest in
        if IsBlankLine line then text_loop rest' (off + eol) start fin False
        else if hd line = CHR '' '' \<or> hd line = CHR 0x09 \<or> hd line = CHR ''+''
        then text_loop rest' (off + eol) start (if inAttr then off + eol else fin) inAttr
        else if StartsAttribute line
        then text_loop rest' (off + eol) (if start = None then Some off else start) (off + eol) True
        else text_loop rest' (off + eol) start fin False)"
  by pat_completeness auto
termination
  by (relation "measure (\<lambda>(rest, _). length rest)") auto

declare text_loop.simps [simp del]

definition obj_Text :: "Object option \<Rightarrow> string" where
  "obj_Text obj =
     (let text = obj_String obj in
      case text_loop text 0 None 0 False of
        (None, _) \<Rightarrow> text
      | (Some start, fin) \<Rightarrow> drop start (take fin text))"

subsection \<open>Editing\<close>

text \<open>\<^verbatim>\<open>checkAttr\<close>: the canonical name, or \<^term>\<open>None\<close> for a name or value RPSL cannot represent.\<close>

definition bad_byte :: "char \<Rightarrow> bool" where
  "bad_byte c \<longleftrightarrow> c = CHR ''#'' \<or> c = CHR 0x7F \<or> (c < CHR 0x20 \<and> c \<noteq> CHR 0x09 \<and> c \<noteq> LF)"

definition checkAttr :: "string \<Rightarrow> string \<Rightarrow> string option" where
  "checkAttr name value =
     (let name = CanonicalName name in
      if name = [] \<or> \<not> isLetter (hd name) then None
      else if \<not> list_all (\<lambda>c. isLetter c \<or> isDigit c \<or> c = CHR ''-'' \<or> c = CHR ''_'') name then None
      else if list_ex bad_byte value then None
      else Some name)"

definition attr_line :: "string \<Rightarrow> nat \<Rightarrow> string \<Rightarrow> string" where
  "attr_line prefix i line =
     (if i = 0 then prefix @ line
      else if line = [] then ''+''
      else replicate (length prefix) (CHR '' '') @ line)"

definition newAttr :: "string \<Rightarrow> string \<Rightarrow> string \<Rightarrow> string \<Rightarrow> Attribute" where
  "newAttr name value prefix term =
     (let lines = map (\<lambda>l. Trim l blanks) (Split value LF) in
      \<lparr>aName = name, aValue = Join lines [LF],
       aRaw = concat (map (\<lambda>(i, l). attr_line prefix i l @ term) (enumerate 0 lines)),
       aComment = [], aSpan = zeroSpan, aSegments = [], alead = []\<rparr>)"

definition namePrefix :: "Attribute \<Rightarrow> string" where
  "namePrefix a =
     (let line = takeWhile (\<lambda>c. c \<noteq> CR \<and> c \<noteq> LF) (aRaw a);
          prefix = (if aSegments a \<noteq> [] \<and> SrcCol (hd (aSegments a)) - 1 \<le> int (length line)
                    then take (nat (SrcCol (hd (aSegments a)) - 1)) line
                    else aName a @ '': '') in
      if prefix = [] \<or> (List.last prefix \<noteq> CHR '' '' \<and> List.last prefix \<noteq> CHR 0x09)
      then prefix @ '' '' else prefix)"

definition lineTerm :: "string \<Rightarrow> string" where
  "lineTerm raw =
     (let nl = length (takeWhile (\<lambda>c. c \<noteq> LF) raw) in
      if nl < length raw \<and> nl > 0 \<and> raw ! (nl - 1) = CR then [CR, LF] else [LF])"

definition lineEnding :: "Object \<Rightarrow> string" where
  "lineEnding obj = (case oattrs obj of [] \<Rightarrow> [LF] | a # _ \<Rightarrow> lineTerm (aRaw a))"

definition terminate :: "string \<Rightarrow> string \<Rightarrow> string" where
  "terminate s ending =
     (if s = [] \<or> List.last s = LF then s
      else if List.last s = CR then s @ [LF]
      else s @ ending)"

definition ensureTrailingNewline :: "Object \<Rightarrow> Object" where
  "ensureTrailingNewline obj =
     (if oattrs obj \<noteq> []
      then let a = List.last (oattrs obj) in
        obj\<lparr>oattrs := butlast (oattrs obj) @ [a\<lparr>aRaw := terminate (aRaw a) (lineEnding obj)\<rparr>]\<rparr>
      else obj\<lparr>otrail := terminate (otrail obj) (lineEnding obj)\<rparr>)"

definition appendAttr :: "Object \<Rightarrow> Attribute \<Rightarrow> Object" where
  "appendAttr obj a =
     (let obj = ensureTrailingNewline obj in
      if oattrs obj = []
      then \<lparr>oattrs = [a\<lparr>alead := otrail obj\<rparr>], otrail = []\<rparr>
      else obj\<lparr>oattrs := oattrs obj @ [a]\<rparr>)"

text \<open>\<^verbatim>\<open>Append\<close> and \<^verbatim>\<open>Set\<close> return \<^term>\<open>None\<close> for the error that wraps \<^verbatim>\<open>ErrInvalidAttribute\<close>.\<close>

definition Append :: "Object \<Rightarrow> string \<Rightarrow> string \<Rightarrow> Object option" where
  "Append obj name value =
     (case checkAttr name value of
        None \<Rightarrow> None
      | Some name \<Rightarrow> Some (appendAttr obj (newAttr name value (name @ '': '') (lineEnding obj))))"

text \<open>The replacements written at the first occurrence: the first takes the carried trivia.\<close>

fun set_values :: "string \<Rightarrow> string \<Rightarrow> string \<Rightarrow> string list \<Rightarrow> string \<Rightarrow> Attribute list \<times> string" where
  "set_values name prefix term [] carry = ([], carry)"
| "set_values name prefix term (v # vs) carry =
     (let (as, carry') = set_values name prefix term vs [] in
      ((newAttr name v prefix term)\<lparr>alead := carry\<rparr> # as, carry'))"

fun set_loop :: "string \<Rightarrow> string list \<Rightarrow> Attribute list \<Rightarrow> string \<Rightarrow> bool \<Rightarrow> Attribute list \<times> string \<times> bool" where
  "set_loop name values [] carry found = ([], carry, found)"
| "set_loop name values (a # as) carry found =
     (if aName a \<noteq> name
      then let (kept, carry', found') = set_loop name values as [] found in
        (a\<lparr>alead := carry @ alead a\<rparr> # kept, carry', found')
      else if found then set_loop name values as (carry @ alead a) True
      else let (new, carry') = set_values name (namePrefix a) (lineTerm (aRaw a)) values (carry @ alead a);
               (kept, carry'', found') = set_loop name values as carry' True in
        (new @ kept, carry'', found'))"

definition Set :: "Object \<Rightarrow> string \<Rightarrow> string list \<Rightarrow> Object option" where
  "Set obj name values =
     (case checkAttr name [] of
        None \<Rightarrow> None
      | Some name \<Rightarrow>
          if list_ex (\<lambda>v. checkAttr name v = None) values then None
          else let (kept, carry, found) = set_loop name values (oattrs obj) [] False;
                   obj = \<lparr>oattrs = kept, otrail = carry @ otrail obj\<rparr> in
            Some (if found then obj
                  else fold (\<lambda>v obj. appendAttr obj (newAttr name v (name @ '': '') (lineEnding obj))) values obj))"

subsection \<open>Building\<close>

record Builder =
  bobj :: Object
  berr :: bool

definition Add :: "Builder \<Rightarrow> string \<Rightarrow> string \<Rightarrow> Builder" where
  "Add b name value =
     (if berr b then b
      else case Append (bobj b) name value of
             None \<Rightarrow> b\<lparr>berr := True\<rparr>
           | Some obj \<Rightarrow> b\<lparr>bobj := obj\<rparr>)"

definition NewBuilder :: "string \<Rightarrow> string \<Rightarrow> Builder" where
  "NewBuilder cls key = Add \<lparr>bobj = New [], berr = False\<rparr> cls key"

definition AddAll :: "Builder \<Rightarrow> string \<Rightarrow> string list \<Rightarrow> Builder" where
  "AddAll b name values = fold (\<lambda>v b. Add b name v) values b"

definition Build :: "Builder \<Rightarrow> Object option" where
  "Build b = (if berr b then None else Some (bobj b))"

definition builder_String :: "Builder \<Rightarrow> string" where
  "builder_String b = (if berr b then [] else obj_String (Some (bobj b)))"

subsection \<open>Formatting\<close>

record FormatOptions =
  Align :: int
  LowerNames :: bool

definition lowerASCII :: "string \<Rightarrow> string" where
  "lowerASCII s = map lower s"

definition hasControl :: "string \<Rightarrow> bool" where
  "hasControl s \<longleftrightarrow> list_ex (\<lambda>c. c < CHR 0x20 \<and> c \<noteq> CHR 0x09) s"

definition formatAttr :: "Attribute \<Rightarrow> FormatOptions \<Rightarrow> string" where
  "formatAttr a opts =
     (if Align opts \<le> 0 \<and> \<not> LowerNames opts then aRaw a
      else let first = takeWhile (\<lambda>c. c \<noteq> LF) (aRaw a); rest = dropWhile (\<lambda>c. c \<noteq> LF) (aRaw a);
               hascr = first \<noteq> [] \<and> List.last first = CR;
               cr = (if hascr then [CR] else []);
               first = (if hascr then butlast first else first) in
        if CHR '':'' \<notin> set first then aRaw a
        else let name = takeWhile (\<lambda>c. c \<noteq> CHR '':'') first;
                 after = tl (dropWhile (\<lambda>c. c \<noteq> CHR '':'') first);
                 value = Trim after blanks in
          if hasControl name \<or> hasControl value then aRaw a
          else let name = (if LowerNames opts then lowerASCII name else name) in
            if value = [] then name @ '':'' @ cr @ rest
            else let n = Align opts - int (length name) - 2;
                     sep = (if Align opts > 0 then if n > 1 then replicate (nat n) (CHR '' '') else '' ''
                            else takeWhile (\<lambda>c. c \<in> set blanks) after) in
              name @ '':'' @ sep @ value @ cr @ rest)"

fun obj_Format :: "Object option \<Rightarrow> FormatOptions \<Rightarrow> string" where
  "obj_Format None opts = []"
| "obj_Format (Some obj) opts = concat (map (\<lambda>a. alead a @ formatAttr a opts) (oattrs obj)) @ otrail obj"

subsection \<open>Lists\<close>

record ListItem =
  itValue :: string
  itStart :: nat
  itEnd :: nat

definition trimItem :: "string \<Rightarrow> nat \<Rightarrow> nat \<Rightarrow> ListItem" where
  "trimItem v start fin =
     (let s = drop start (take fin v); l = TrimLeftSpace s;
          start' = start + (length s - length l); fin' = start' + length (TrimRightSpace l) in
      \<lparr>itValue = drop start' (take fin' v), itStart = start', itEnd = fin'\<rparr>)"

text \<open>The end of the item that starts at an offset: the next separator, or the end of the value.\<close>

function item_end :: "string \<Rightarrow> nat \<Rightarrow> nat \<Rightarrow> nat \<Rightarrow> nat" where
  "item_end v first lst fin =
     (if fin < length v \<and> v ! fin \<noteq> CHR '','' \<and> (v ! fin \<noteq> LF \<or> fin < first \<or> lst \<le> fin)
      then item_end v first lst (fin + 1) else fin)"
  by pat_completeness auto
termination
  by (relation "measure (\<lambda>(v, _, _, fin). length v - fin)") auto

declare item_end.simps [simp del]

lemma item_end_ge: "fin \<le> item_end v first lst fin"
proof (induction v first lst fin rule: item_end.induct)
  case (1 v first lst fin)
  let ?c = "fin < length v \<and> v ! fin \<noteq> CHR '','' \<and> (v ! fin \<noteq> LF \<or> fin < first \<or> lst \<le> fin)"
  have "?c \<Longrightarrow> fin \<le> item_end v first lst (fin + 1)" using 1 by fastforce
  then show ?case by (subst item_end.simps) simp
qed

function list_loop :: "string \<Rightarrow> nat \<Rightarrow> nat \<Rightarrow> nat \<Rightarrow> bool \<Rightarrow> ListItem list" where
  "list_loop v first lst start afterBreak =
     (let fin = item_end v first lst start;
          atBreak = fin < length v \<and> v ! fin = LF;
          it = trimItem v start fin;
          out = (if itValue it \<noteq> [] \<or> \<not> (afterBreak \<or> atBreak) then [it] else []) in
      if fin \<ge> length v then out
      else out @ list_loop v first lst (fin + 1) atBreak)"
  by pat_completeness auto
termination
proof (relation "measure (\<lambda>(v, _, _, start, _). length v - start)")
  fix v :: string and first lst start :: nat and afterBreak x xa xb xc
  assume "x = item_end v first lst start" "\<not> length v \<le> x"
  then show "((v, first, lst, x + 1, xa), v, first, lst, start, afterBreak) \<in> measure (\<lambda>(v, _, _, start, _). length v - start)"
    using item_end_ge [of start v first lst] by auto
qed simp

declare list_loop.simps [simp del]

definition attr_List :: "Attribute \<Rightarrow> ListItem list" where
  "attr_List a =
     (let v = aValue a in
      if TrimSpace v = [] then []
      else list_loop v (length v - length (TrimLeftSpace v)) (length (TrimRightSpace v)) 0 False)"

end
