(* ===== verification/Ast_Edit.thy ===== *)
theory Ast_Edit
  imports Ast_Object
begin

text \<open>
  What the text of an object means: the attributes that parsing it gives.  An object is coherent when
  each attribute's raw text parses to exactly that attribute, its trivia to none, and the pieces can
  be joined; a parsed object is coherent, and editing keeps it so.
\<close>

subsection \<open>The attributes of a text\<close>

definition line_attr :: "(string \<times> string) \<Rightarrow> (string \<times> string) list \<Rightarrow> string \<times> string" where
  "line_attr l cs =
     (let (name, val, off) = splitAttr (fst l) in
      (name, Join (val # map (\<lambda>c. fst (contValue (fst c) False)) cs) [LF]))"

fun unit_attrs :: "(string \<times> string) lexunit \<Rightarrow> (string \<times> string) list" where
  "unit_attrs (AttrUnit l cs) = [line_attr l cs]"
| "unit_attrs (OtherUnit l) = []"

definition attrs_in :: "string \<Rightarrow> (string \<times> string) list" where
  "attrs_in s = concat (map unit_attrs (units fst (lines_of s)))"

definition view :: "Attribute \<Rightarrow> string \<times> string" where
  "view a = (aName a, aValue a)"

lemma units_of_lines: "units fst (lines_of s) = map (map_lexunit line_pair) (units ptext (scanLines s))"
  unfolding lines_of_def units_map by (simp add: line_pair_def)

lemma new_loop_views:
  "map view (fst (new_loop run ts)) = map (\<lambda>t. (tName t, tValue t)) (filter (\<lambda>t. tKind t = KindAttribute) ts)"
  by (induction run ts rule: new_loop.induct) (auto simp: view_def token_attr_def split: prod.splits)

lemma units_attr_starts: "AttrUnit l cs \<in> set (units tx ls) \<Longrightarrow> StartsAttribute (tx l) \<and> list_all (\<lambda>c. is_cont (tx c)) cs"
proof (induction tx ls rule: units.induct)
  case (2 tx l' ls)
  have t: "list_all (\<lambda>c. is_cont (tx c)) (takeWhile (\<lambda>c. is_cont (tx c)) ls)"
    by (simp add: list_all_iff) (metis set_takeWhileD)
  show ?case
  proof (cases "StartsAttribute (tx l')")
    case True
    then have "AttrUnit l cs = AttrUnit l' (takeWhile (\<lambda>c. is_cont (tx c)) ls) \<or>
        AttrUnit l cs \<in> set (units tx (dropWhile (\<lambda>c. is_cont (tx c)) ls))" using 2(3) by simp
    then show ?thesis using 2(1) [OF True] True t by auto
  qed (use 2 in simp)
qed simp

lemma units_other: "OtherUnit l \<in> set (units tx ls) \<Longrightarrow> \<not> StartsAttribute (tx l)"
  by (induction tx ls rule: units.induct) (auto split: if_splits)

text \<open>Parsing a text gives its attributes.\<close>

lemma New_views: "map view (oattrs (New (TokenizeAt s line bo))) = attrs_in s"
proof -
  let ?us = "units ptext (scanLines s)"
  have a: "map (\<lambda>t. (tName t, tValue t)) (filter (\<lambda>t. tKind t = KindAttribute) (map (tok_of lb bo) us)) =
      concat (map unit_attrs (map (map_lexunit line_pair) us))"
    if "\<forall>u \<in> set us. \<forall>l. u = OtherUnit l \<longrightarrow> \<not> StartsAttribute (ptext l)" for lb us
    using that
  proof (induction us)
    case (Cons u us)
    then show ?case
      by (cases u) (auto simp: line_attr_def line_pair_def cont_val_def [abs_def] comp_def classify_cases(4) split: prod.split)
  qed simp
  have "map view (oattrs (New (TokenizeAt s line bo))) =
      map (\<lambda>t. (tName t, tValue t)) (filter (\<lambda>t. tKind t = KindAttribute) (TokenizeAt s line bo))"
    using new_loop_views [of "[]" "TokenizeAt s line bo"] by (simp add: New_def split_def Let_def)
  also have "\<dots> = attrs_in s"
    unfolding TokenizeAt_units attrs_in_def units_of_lines 
    by (rule a) (auto dest: units_other)
  finally show ?thesis .
qed

text \<open>The attributes of joined texts: the first must end its last line, and the second must not begin
  with a line that would continue the first.\<close>

definition plain_start :: "string \<Rightarrow> bool" where
  "plain_start s \<longleftrightarrow> lines_of s = [] \<or> \<not> is_cont (fst (hd (lines_of s)))"

lemma attrs_in_append:
  assumes "closed s" "plain_start t"
  shows "attrs_in (s @ t) = attrs_in s @ attrs_in t"
  using assms by (simp add: attrs_in_def lines_of_append plain_start_def units_append)

lemma attrs_in_Nil [simp]: "attrs_in [] = []" "plain_start []" "closed []"
  by (simp_all add: attrs_in_def plain_start_def closed_def)

lemma closed_append: "closed s \<Longrightarrow> closed t \<Longrightarrow> closed (s @ t)"
  by (cases "t = []") (auto simp: closed_def)

lemma lines_of_Nil_iff: "lines_of s = [] \<longleftrightarrow> s = []"
  by (metis lines_of_Nil raw_of_lines_of raw_of_simps(1))

lemma plain_start_append: "closed s \<Longrightarrow> plain_start s \<Longrightarrow> plain_start t \<Longrightarrow> plain_start (s @ t)"
  by (cases "s = []") (auto simp: plain_start_def lines_of_append lines_of_Nil_iff)

subsection \<open>Coherent objects\<close>

text \<open>One attribute: its raw text holds it and nothing else, and its trivia holds no attribute.\<close>

definition name_first :: "string \<Rightarrow> bool" where
  "name_first s \<longleftrightarrow> lines_of s \<noteq> [] \<and> StartsAttribute (fst (hd (lines_of s)))"

lemma name_first_plain: "name_first s \<Longrightarrow> plain_start s"
  by (simp add: name_first_def plain_start_def StartsAttribute_facts)

definition attr_ok :: "Attribute \<Rightarrow> bool" where
  "attr_ok a \<longleftrightarrow> name_first (aRaw a) \<and> attrs_in (aRaw a) = [view a] \<and>
     closed (alead a) \<and> attrs_in (alead a) = []"

text \<open>Attributes that follow text: their trivia does not continue it, and only the last may leave its
  last line open, when nothing follows.\<close>

fun tail_ok :: "Attribute list \<Rightarrow> string \<Rightarrow> bool" where
  "tail_ok [] trail \<longleftrightarrow> plain_start trail \<and> attrs_in trail = []"
| "tail_ok (a # as) trail \<longleftrightarrow>
     attr_ok a \<and> plain_start (alead a) \<and> (closed (aRaw a) \<or> as = [] \<and> trail = []) \<and> tail_ok as trail"

definition coherent :: "Object \<Rightarrow> bool" where
  "coherent obj \<longleftrightarrow>
     (case oattrs obj of
        [] \<Rightarrow> attrs_in (otrail obj) = []
      | a # as \<Rightarrow> attr_ok a \<and> (closed (aRaw a) \<or> as = [] \<and> otrail obj = []) \<and> tail_ok as (otrail obj))"

fun text_of :: "Attribute list \<Rightarrow> string \<Rightarrow> string" where
  "text_of [] trail = trail"
| "text_of (a # as) trail = alead a @ aRaw a @ text_of as trail"

lemma obj_String_text: "obj_String (Some obj) = text_of (oattrs obj) (otrail obj)"
proof -
  have "concat (map (\<lambda>a. alead a @ aRaw a) as) @ tr = text_of as tr" for as tr by (induction as) auto
  then show ?thesis by simp
qed

lemma tail_text:
  "tail_ok as trail \<Longrightarrow> plain_start (text_of as trail) \<and> attrs_in (text_of as trail) = map view as"
proof (induction as)
  case (Cons a as)
  then have IH: "plain_start (text_of as trail)" "attrs_in (text_of as trail) = map view as" by simp_all
  have ok: "attr_ok a" "plain_start (alead a)" "closed (aRaw a) \<or> as = [] \<and> trail = []" using Cons.prems by simp_all
  have r: "plain_start (aRaw a @ text_of as trail) \<and> attrs_in (aRaw a @ text_of as trail) = view a # map view as"
  proof (cases "closed (aRaw a)")
    case True
    then show ?thesis using ok(1) IH plain_start_append [OF True] by (auto simp: attr_ok_def attrs_in_append name_first_plain)
  next
    case False
    then show ?thesis using ok by (simp add: attr_ok_def name_first_plain)
  qed
  have l: "closed (alead a)" "attrs_in (alead a) = []" using ok(1) by (simp_all add: attr_ok_def)
  show ?case using r l ok(2) plain_start_append [OF l(1) ok(2)] by (simp add: attrs_in_append)
qed simp

text \<open>The text of a coherent object parses back to its attributes.\<close>

lemma coherent_text:
  assumes "coherent obj"
  shows "attrs_in (obj_String (Some obj)) = map view (oattrs obj)"
proof (cases "oattrs obj")
  case Nil
  then show ?thesis using assms by (simp add: coherent_def)
next
  case (Cons a as)
  have ok: "attr_ok a" "closed (aRaw a) \<or> as = [] \<and> otrail obj = []" "tail_ok as (otrail obj)"
    using assms by (simp_all add: coherent_def Cons)
  note t = tail_text [OF ok(3)]
  have r: "plain_start (aRaw a @ text_of as (otrail obj)) \<and> attrs_in (aRaw a @ text_of as (otrail obj)) = view a # map view as"
  proof (cases "closed (aRaw a)")
    case True
    then show ?thesis using ok(1) t plain_start_append [OF True] by (auto simp: attr_ok_def attrs_in_append name_first_plain)
  next
    case False
    then show ?thesis using ok by (simp add: attr_ok_def name_first_plain)
  qed
  then show ?thesis using ok(1) unfolding obj_String_text Cons by (simp add: attr_ok_def attrs_in_append)
qed

subsection \<open>A parsed object is coherent\<close>

text \<open>The lines of one attribute, read alone, are that attribute.\<close>

lemma attr_raw:
  assumes "proper (l # cs)" "StartsAttribute (fst l)" "list_all (\<lambda>c. is_cont (fst c)) cs"
  shows "attrs_in (raw_of (l # cs)) = [line_attr l cs]" "name_first (raw_of (l # cs))"
proof -
  have ln: "lines_of (raw_of (l # cs)) = l # cs" by (rule lines_of_raw_of [OF assms(1)])
  have tw: "takeWhile (\<lambda>c. is_cont (fst c)) cs = cs" "dropWhile (\<lambda>c. is_cont (fst c)) cs = []"
    using assms(3) by (auto simp: list_all_iff takeWhile_eq_all_conv)
  show "attrs_in (raw_of (l # cs)) = [line_attr l cs]"
    unfolding attrs_in_def ln using assms(2) by (simp add: tw)
  show "name_first (raw_of (l # cs))" unfolding name_first_def ln using assms(2) by simp
qed

lemma other_lines:
  assumes "proper ls" "list_all (\<lambda>l. \<not> StartsAttribute (fst l)) ls"
  shows "attrs_in (raw_of ls) = []"
proof -
  have "concat (map unit_attrs (units fst ls)) = []" using assms(2) by (induction ls) auto
  then show ?thesis by (simp add: attrs_in_def lines_of_raw_of [OF assms(1)])
qed

definition pairs :: "physLine list \<Rightarrow> (string \<times> string) list" where
  "pairs pls = map line_pair pls"

lemma pairs_simps [simp]: "pairs [] = []" "pairs (l # ls) = line_pair l # pairs ls" "pairs (xs @ ys) = pairs xs @ pairs ys"
  "pairs xs = [] \<longleftrightarrow> xs = []"
  by (simp_all add: pairs_def)

lemma raw_pairs: "concat (map pl_raw pls) = raw_of (pairs pls)"
  by (induction pls) (simp_all add: pl_raw_def line_pair_def)

lemma fst_line_pair [simp]: "fst (line_pair l) = ptext l"
  by (simp add: line_pair_def)

lemma join_others: "joinRaw (map (\<lambda>l. tok_of lb bo (OtherUnit l)) run) = raw_of (pairs run)"
  by (simp add: joinRaw_def comp_def raw_pairs)

lemma tok_of_attr:
  "tKind (tok_of lb bo (AttrUnit l cs)) = KindAttribute" "tRaw (tok_of lb bo (AttrUnit l cs)) = raw_of (pairs (l # cs))"
  "(tName (tok_of lb bo (AttrUnit l cs)), tValue (tok_of lb bo (AttrUnit l cs))) = line_attr (line_pair l) (pairs cs)"
proof -
  show "tKind (tok_of lb bo (AttrUnit l cs)) = KindAttribute" by (simp split: prod.split)
  show "tRaw (tok_of lb bo (AttrUnit l cs)) = raw_of (pairs (l # cs))"
    unfolding raw_pairs [symmetric] by (simp split: prod.split)
  show "(tName (tok_of lb bo (AttrUnit l cs)), tValue (tok_of lb bo (AttrUnit l cs))) = line_attr (line_pair l) (pairs cs)"
    by (auto simp: line_attr_def pairs_def cont_val_def [abs_def] comp_def split: prod.split)
qed

lemma proper_closed:
  assumes "proper (xs @ ys)" "ys \<noteq> []"
  shows "closed (raw_of xs)"
  using assms closed_lines [of xs] by (auto simp: proper_append)

text \<open>An attribute unit, after the trivia lines \<open>run\<close>.\<close>

lemma attr_unit_ok:
  assumes "proper (pairs (run @ l # cs @ rest))" "list_all (\<lambda>l. \<not> StartsAttribute (ptext l)) run"
    "StartsAttribute (ptext l)" "list_all (\<lambda>c. is_cont (ptext c)) cs"
  shows "attr_ok (token_attr (tok_of lb bo (AttrUnit l cs)) (raw_of (pairs run)))"
    "closed (aRaw (token_attr (tok_of lb bo (AttrUnit l cs)) (raw_of (pairs run)))) \<or> rest = []"
proof -
  let ?a = "token_attr (tok_of lb bo (AttrUnit l cs)) (raw_of (pairs run))"
  have "proper (pairs run @ (line_pair l # pairs cs) @ pairs rest)" using assms(1) by simp
  then have pr: "proper (pairs run)" "proper (line_pair l # pairs cs)" unfolding proper_append by blast+
  have raw: "aRaw ?a = raw_of (line_pair l # pairs cs)" by (simp add: token_attr_def tok_of_attr del: tok_of.simps)
  have v: "view ?a = line_attr (line_pair l) (pairs cs)" using tok_of_attr(3) [of lb bo l cs]
    by (simp add: view_def token_attr_def del: tok_of.simps)
  have cs: "list_all (\<lambda>c. is_cont (fst c)) (pairs cs)" using assms(4) by (simp add: list_all_iff pairs_def)
  note r = attr_raw [OF pr(2) _ cs, simplified assms(3), simplified]
  have run: "attrs_in (raw_of (pairs run)) = []"
    using assms(2) by (intro other_lines [OF pr(1)]) (simp add: list_all_iff pairs_def)
  have "closed (raw_of (pairs run))"
    using proper_closed [of "pairs run" "pairs (l # cs @ rest)"] assms(1) by simp
  then show "attr_ok ?a" using r run assms(3) unfolding attr_ok_def raw v by (simp add: token_attr_def)
  show "closed (aRaw ?a) \<or> rest = []"
    unfolding raw using proper_closed [of "line_pair l # pairs cs" "pairs rest"] assms(1) by (auto simp: proper_append)
qed

lemma new_loop_run:
  "new_loop (map (\<lambda>l. tok_of lb bo (OtherUnit l)) run) (tok_of lb bo (OtherUnit l) # ts) =
   new_loop (map (\<lambda>l. tok_of lb bo (OtherUnit l)) (run @ [l])) ts" if "\<not> StartsAttribute (ptext l)"
  using that by (simp add: classify_cases(4))

lemma new_loop_attr:
  "new_loop (map (\<lambda>l. tok_of lb bo (OtherUnit l)) run) (tok_of lb bo (AttrUnit l cs) # ts) =
   (token_attr (tok_of lb bo (AttrUnit l cs)) (raw_of (pairs run)) # fst (new_loop [] ts), snd (new_loop [] ts))"
  by (simp add: tok_of_attr(1) join_others split_def Let_def del: tok_of.simps)

lemma plain_raw: "proper ls \<Longrightarrow> plain_start (raw_of ls) \<longleftrightarrow> ls = [] \<or> \<not> is_cont (fst (hd ls))"
  by (simp add: plain_start_def lines_of_raw_of)

lemma hd_pairs: "run \<noteq> [] \<Longrightarrow> fst (hd (pairs run)) = ptext (hd run)"
  by (cases run) simp_all

lemma hd_rest: "dropWhile P xs = [] \<or> \<not> P (hd (dropWhile P xs))"
  using hd_dropWhile [of P xs] by blast

lemma no_rest: "ls = [] \<Longrightarrow> fst (new_loop [] (map f (units tx ls))) = [] \<and> snd (new_loop [] (map f (units tx ls))) = []"
  by (simp add: joinRaw_def)

lemma parsed_tail_ok:
  "proper (pairs (run @ ls)) \<Longrightarrow> list_all (\<lambda>l. \<not> StartsAttribute (ptext l)) run \<Longrightarrow>
   run @ ls = [] \<or> \<not> is_cont (ptext (hd (run @ ls))) \<Longrightarrow>
   tail_ok (fst (new_loop (map (\<lambda>l. tok_of lb bo (OtherUnit l)) run) (map (tok_of lb bo) (units ptext ls))))
     (snd (new_loop (map (\<lambda>l. tok_of lb bo (OtherUnit l)) run) (map (tok_of lb bo) (units ptext ls))))"
proof (induction "ptext :: physLine \<Rightarrow> string" ls arbitrary: run rule: units.induct)
  case 1
  then have "attrs_in (raw_of (pairs run)) = []"
    by (intro other_lines) (simp_all add: list_all_iff pairs_def)
  moreover have "plain_start (raw_of (pairs run))"
    using 1 by (auto simp: plain_raw hd_pairs)
  ultimately show ?case by (simp add: join_others del: tok_of.simps)
next
  case (2 l ls)
  show ?case
  proof (cases "StartsAttribute (ptext l)")
    case True
    let ?cs = "takeWhile (\<lambda>c. is_cont (ptext c)) ls" and ?rest = "dropWhile (\<lambda>c. is_cont (ptext c)) ls"
    let ?a = "token_attr (tok_of lb bo (AttrUnit l ?cs)) (raw_of (pairs run))"
    have p: "proper (pairs (run @ l # ?cs @ ?rest))" using 2(3) by simp
    have cs: "list_all (\<lambda>c. is_cont (ptext c)) ?cs" by (simp add: list_all_iff) (metis set_takeWhileD)
    note a = attr_unit_ok [OF p 2(4) True cs, of lb bo]
    have "plain_start (raw_of (pairs run))"
    proof -
      have pr: "proper (pairs run)" using 2(3) by (simp add: proper_append del: proper.simps(2))
      show ?thesis unfolding plain_raw [OF pr] using 2(5) by (cases run) auto
    qed
    moreover have "tail_ok (fst (new_loop [] (map (tok_of lb bo) (units ptext ?rest))))
        (snd (new_loop [] (map (tok_of lb bo) (units ptext ?rest))))"
    proof -
      have "proper (pairs ([] @ ?rest))" using p by (metis append_Cons append_assoc append_self_conv2 pairs_simps(3) proper_append)
      moreover have "[] @ ?rest = [] \<or> \<not> is_cont (ptext (hd ([] @ ?rest)))"
        unfolding append_Nil by (rule hd_rest)
      ultimately show ?thesis using 2(1) [OF True, of "[]"] by simp
    qed
    moreover have "closed (aRaw ?a) \<or> fst (new_loop [] (map (tok_of lb bo) (units ptext ?rest))) = [] \<and>
        snd (new_loop [] (map (tok_of lb bo) (units ptext ?rest))) = []"
      using a(2) no_rest [of ?rest "tok_of lb bo" "ptext"] by blast
    ultimately show ?thesis using True a(1)
      by (simp add: new_loop_attr token_attr_def [of _ "raw_of (pairs run)"] del: tok_of.simps new_loop.simps)
  next
    case False
    have "tail_ok (fst (new_loop (map (\<lambda>l. tok_of lb bo (OtherUnit l)) (run @ [l])) (map (tok_of lb bo) (units ptext ls))))
        (snd (new_loop (map (\<lambda>l. tok_of lb bo (OtherUnit l)) (run @ [l])) (map (tok_of lb bo) (units ptext ls))))"
      using 2(3-5) False by (intro 2(2) [OF False]) auto
    then show ?thesis using False by (simp add: new_loop_run [OF False] del: tok_of.simps new_loop.simps)
  qed
qed

lemma parsed_coherent_run:
  "proper (pairs (run @ ls)) \<Longrightarrow> list_all (\<lambda>l. \<not> StartsAttribute (ptext l)) run \<Longrightarrow>
   coherent \<lparr>oattrs = fst (new_loop (map (\<lambda>l. tok_of lb bo (OtherUnit l)) run) (map (tok_of lb bo) (units ptext ls))),
     otrail = snd (new_loop (map (\<lambda>l. tok_of lb bo (OtherUnit l)) run) (map (tok_of lb bo) (units ptext ls)))\<rparr>"
proof (induction "ptext :: physLine \<Rightarrow> string" ls arbitrary: run rule: units.induct)
  case 1
  then have "attrs_in (raw_of (pairs run)) = []"
    by (intro other_lines) (simp_all add: list_all_iff pairs_def)
  then show ?case by (simp add: coherent_def join_others del: tok_of.simps)
next
  case (2 l ls)
  show ?case
  proof (cases "StartsAttribute (ptext l)")
    case True
    let ?cs = "takeWhile (\<lambda>c. is_cont (ptext c)) ls" and ?rest = "dropWhile (\<lambda>c. is_cont (ptext c)) ls"
    let ?a = "token_attr (tok_of lb bo (AttrUnit l ?cs)) (raw_of (pairs run))"
    have p: "proper (pairs (run @ l # ?cs @ ?rest))" using 2(3) by simp
    have cs: "list_all (\<lambda>c. is_cont (ptext c)) ?cs" by (simp add: list_all_iff) (metis set_takeWhileD)
    note a = attr_unit_ok [OF p 2(4) True cs, of lb bo]
    have "tail_ok (fst (new_loop (map (\<lambda>l. tok_of lb bo (OtherUnit l)) []) (map (tok_of lb bo) (units ptext ?rest))))
        (snd (new_loop (map (\<lambda>l. tok_of lb bo (OtherUnit l)) []) (map (tok_of lb bo) (units ptext ?rest))))"
    proof (rule parsed_tail_ok)
      show "proper (pairs ([] @ ?rest))"
        using p by (metis append_Cons append_assoc append_self_conv2 pairs_simps(3) proper_append)
      show "[] @ ?rest = [] \<or> \<not> is_cont (ptext (hd ([] @ ?rest)))"
        unfolding append_Nil by (rule hd_rest)
    qed simp
    moreover have "closed (aRaw ?a) \<or> fst (new_loop [] (map (tok_of lb bo) (units ptext ?rest))) = [] \<and>
        snd (new_loop [] (map (tok_of lb bo) (units ptext ?rest))) = []"
      using a(2) no_rest [of ?rest "tok_of lb bo" "ptext"] by blast
    ultimately show ?thesis using True a(1) by (simp add: coherent_def new_loop_attr del: tok_of.simps new_loop.simps)
  next
    case False
    have "coherent \<lparr>oattrs = fst (new_loop (map (\<lambda>l. tok_of lb bo (OtherUnit l)) (run @ [l])) (map (tok_of lb bo) (units ptext ls))),
        otrail = snd (new_loop (map (\<lambda>l. tok_of lb bo (OtherUnit l)) (run @ [l])) (map (tok_of lb bo) (units ptext ls)))\<rparr>"
      using 2(3,4) False by (intro 2(2) [OF False]) auto
    then show ?thesis using False by (simp add: new_loop_run [OF False] del: tok_of.simps new_loop.simps)
  qed
qed

lemma parsed_coherent: "coherent (New (TokenizeAt s line bo))"
proof -
  have "proper (pairs ([] @ scanLines s))" using proper_lines_of [of s] by (simp add: pairs_def lines_of_def)
  from parsed_coherent_run [OF this, of "line - 1" bo] show ?thesis
    by (simp add: New_def TokenizeAt_units split_def Let_def del: tok_of.simps)
qed

subsection \<open>Lossless\<close>

lemma new_loop_text: "text_of (fst (new_loop run ts)) (snd (new_loop run ts)) = joinRaw run @ joinRaw ts"
proof (induction run ts rule: new_loop.induct)
  case (2 run t ts)
  then show ?case by (cases "tKind t = KindAttribute") (simp_all add: joinRaw_def token_attr_def split_def Let_def)
qed (simp add: joinRaw_def)

lemma New_text: "obj_String (Some (New toks)) = joinRaw toks"
  unfolding obj_String_text using new_loop_text [of "[]" toks] by (simp add: New_def split_def Let_def joinRaw_def)

end
