(* ===== verification/Ast_Write.thy ===== *)
theory Ast_Write
  imports Ast_Edit
begin

text \<open>
  Writing attributes: the text \<^verbatim>\<open>newAttr\<close> serialises is one attribute with the name and the folded value it
  was given, ending a line does not change what a text holds, and so \<^verbatim>\<open>Append\<close> and \<^verbatim>\<open>Set\<close> keep an object
  coherent.
\<close>

subsection \<open>The prefix before a value\<close>

definition is_blank :: "char \<Rightarrow> bool" where
  "is_blank c \<longleftrightarrow> c \<in> set blanks"

definition name_char :: "char \<Rightarrow> bool" where
  "name_char c \<longleftrightarrow> isLetter c \<or> isDigit c \<or> c = CHR ''-'' \<or> c = CHR ''_''"

definition valid_name :: "string \<Rightarrow> bool" where
  "valid_name n \<longleftrightarrow> n \<noteq> [] \<and> isLetter (hd n) \<and> list_all name_char n"

text \<open>A name, a colon and blanks, on a line that starts an attribute.\<close>

definition good_prefix :: "string \<Rightarrow> string \<Rightarrow> bool" where
  "good_prefix name p \<longleftrightarrow>
     (\<exists>nm bl. p = nm @ CHR '':'' # bl \<and> bl \<noteq> [] \<and> list_all is_blank bl \<and> CanonicalName nm = name \<and>
        nm \<noteq> [] \<and> hd nm \<notin> {CHR '' '', CHR 0x09, CHR ''+''} \<and>
        list_all (\<lambda>c. c \<notin> {CHR '':'', CHR ''#'', LF, CR}) nm)"

definition clean :: "string \<Rightarrow> bool" where
  "clean s \<longleftrightarrow> list_all (\<lambda>c. c \<notin> {CHR ''#'', LF, CR}) s"

lemma blank_chars: "is_blank c \<longleftrightarrow> c = CHR '' '' \<or> c = CHR 0x09"
  by (simp add: is_blank_def blanks_def)

lemma blanks_set: "c \<in> set blanks \<longleftrightarrow> is_blank c"
  by (simp add: is_blank_def)

lemma blank_not: "is_blank c \<Longrightarrow> c \<notin> {CHR '':'', CHR ''#'', CHR ''+'', LF, CR}"
  by (auto simp: blank_chars LF_def CR_def)

lemma Trim_blank_left: "list_all is_blank bl \<Longrightarrow> Trim (bl @ s) blanks = Trim s blanks"
  by (simp add: Trim_def is_blank_def list_all_iff dropWhile_append2)

lemma cut_comment_clean: "CHR ''#'' \<notin> set s \<Longrightarrow> cut_comment s = s"
  by (auto simp: cut_comment_def takeWhile_eq_all_conv)

lemma colon_cut: "list_all (\<lambda>c. c \<notin> {CHR '':'', CHR ''#'', LF, CR}) nm \<Longrightarrow> colon_before_hash (nm @ CHR '':'' # s)"
  by (induction nm) auto

text \<open>The name line of a good prefix.\<close>

lemma good_prefix_line:
  assumes "good_prefix name p" "clean x" "Trim x blanks = x"
  shows "StartsAttribute (p @ x)" "\<exists>off. splitAttr (p @ x) = (name, x, off)"
    "LF \<notin> set (p @ x)" "p @ x \<noteq> []" "List.last (p @ x) \<noteq> CR" "p \<noteq> []"
proof -
  obtain nm bl where p: "p = nm @ CHR '':'' # bl" "bl \<noteq> []" "list_all is_blank bl" "CanonicalName nm = name"
    "nm \<noteq> []" "hd nm \<notin> {CHR '' '', CHR 0x09, CHR ''+''}" "list_all (\<lambda>c. c \<notin> {CHR '':'', CHR ''#'', LF, CR}) nm"
    using assms(1) unfolding good_prefix_def by blast
  have bl: "c \<in> set bl \<Longrightarrow> c \<notin> {CHR '':'', CHR ''#'', CHR ''+'', LF, CR}" for c
    using p(3) blank_not unfolding list_all_iff by blast
  have nm: "c \<in> set nm \<Longrightarrow> c \<notin> {CHR '':'', CHR ''#'', LF, CR}" for c using p(7) unfolding list_all_iff by blast
  have x: "c \<in> set x \<Longrightarrow> c \<notin> {CHR ''#'', LF, CR}" for c using assms(2) unfolding clean_def list_all_iff by blast
  have "hd nm \<noteq> CHR ''#''" using nm [of "hd nm"] p(5) by auto
  then show "StartsAttribute (p @ x)" using p(5,6) colon_cut [OF p(7)] by (simp add: StartsAttribute_def p(1))
  have nohash: "CHR ''#'' \<notin> set (p @ x)" using nm bl x unfolding p(1) by fastforce
  have tw: "takeWhile (\<lambda>c. c \<noteq> CHR '':'') (p @ x) = nm"
    unfolding p(1) using nm by (simp add: takeWhile_append2 subset_iff)
  have "Trim (drop (length nm + 1) (p @ x)) blanks = x" using Trim_blank_left [OF p(3), of x] assms(3) by (simp add: p(1))
  then show "\<exists>off. splitAttr (p @ x) = (name, x, off)"
    by (simp add: splitAttr_def cut_comment_clean [OF nohash] tw trimPos_def Let_def) (simp add: p(1,4))
  show "LF \<notin> set (p @ x)" using nm bl x unfolding p(1) by (fastforce simp: LF_def)
  show "p @ x \<noteq> []" "p \<noteq> []" by (simp_all add: p(1))
  show "List.last (p @ x) \<noteq> CR"
    using x [of "List.last x"] bl [of "List.last bl"] p(2) by (cases "x = []") (auto simp: p(1))
qed

subsection \<open>The lines \<^verbatim>\<open>newAttr\<close> writes\<close>

definition cont_line :: "string \<Rightarrow> string \<Rightarrow> string" where
  "cont_line p l = (if l = [] then ''+'' else replicate (length p) (CHR '' '') @ l)"

definition fold_lines :: "string \<Rightarrow> string list" where
  "fold_lines v = map (\<lambda>l. Trim l blanks) (Split v LF)"

definition folded :: "string \<Rightarrow> string" where
  "folded v = Join (fold_lines v) [LF]"

lemma cont_line_ok:
  assumes "p \<noteq> []" "clean l" "Trim l blanks = l"
  shows "is_cont (cont_line p l)" "fst (contValue (cont_line p l) False) = l" "LF \<notin> set (cont_line p l)"
    "cont_line p l \<noteq> []" "List.last (cont_line p l) \<noteq> CR"
proof -
  have l: "c \<in> set l \<Longrightarrow> c \<notin> {CHR ''#'', LF, CR}" for c using assms(2) unfolding clean_def list_all_iff by blast
  have hd: "l \<noteq> [] \<Longrightarrow> \<not> is_blank (hd l)" using Trim_ends [of l blanks] assms(3) by (simp add: is_blank_def)
  obtain n where n: "length p = Suc n" using assms(1) by (cases p) auto
  show "is_cont (cont_line p l)"
    using hd by (cases l) (auto simp: cont_line_def is_cont_def IsBlankLine_def n blank_chars)
  have rep: "list_all is_blank (replicate k (CHR '' ''))" for k by (simp add: list_all_iff blank_chars)
  show "fst (contValue (cont_line p l) False) = l"
  proof (cases "l = []")
    case True
    then show ?thesis by (simp add: cont_line_def contValue_def cut_comment_def trimPos_def Trim_def Let_def)
  next
    case False
    have "CHR ''#'' \<notin> set (replicate (length p) (CHR '' '') @ l)" using l by auto
    note cc = cut_comment_clean [OF this]
    show ?thesis
      using False Trim_blank_left [OF rep, of "length p" l] assms(3)
      by (simp add: cont_line_def contValue_def cc Let_def trimPos_def) (simp add: n)
  qed
  show "LF \<notin> set (cont_line p l)" using l by (auto simp: cont_line_def LF_def)
  show "cont_line p l \<noteq> []" by (simp add: cont_line_def n)
  show "List.last (cont_line p l) \<noteq> CR" using l [of "List.last l"] by (auto simp: cont_line_def CR_def)
qed

lemma enumerate_tail: "concat (map (\<lambda>(i, l). attr_line p i l @ e) (enumerate (Suc k) xs)) =
    raw_of (map (\<lambda>l. (cont_line p l, e)) xs)"
  by (induction xs arbitrary: k) (simp_all add: attr_line_def cont_line_def)

lemma newAttr_raw:
  assumes "fold_lines v = x # xs"
  shows "aRaw (newAttr name v p e) = raw_of ((p @ x, e) # map (\<lambda>l. (cont_line p l, e)) xs)"
  using assms enumerate_tail [of p e 0 xs] by (simp add: newAttr_def fold_lines_def attr_line_def Let_def)

lemma view_newAttr: "view (newAttr name v p e) = (name, folded v)"
  by (simp add: view_def newAttr_def folded_def fold_lines_def Let_def)

definition terminator :: "string \<Rightarrow> bool" where
  "terminator e \<longleftrightarrow> e = [LF] \<or> e = [CR, LF]"

definition clean_value :: "string \<Rightarrow> bool" where
  "clean_value v \<longleftrightarrow> \<not> list_ex bad_byte v"

lemma set_Trim: "set (Trim s cs) \<subseteq> set s"
  unfolding Trim_def by (auto dest!: set_dropWhileD)

lemma set_Split: "x \<in> set (Split s sep) \<Longrightarrow> set x \<subseteq> set s"
proof (induction s arbitrary: x)
  case (Cons c s)
  obtain y ys where y: "Split s sep = y # ys" by (cases "Split s sep") auto
  then have "set y \<subseteq> set s" "z \<in> set ys \<Longrightarrow> set z \<subseteq> set s" for z using Cons.IH by auto
  then show ?case using Cons.prems y by (auto split: if_splits)
qed simp

lemma fold_lines_clean:
  assumes "clean_value v" "l \<in> set (fold_lines v)"
  shows "clean l" "Trim l blanks = l"
proof -
  obtain k where k: "k \<in> set (Split v LF)" "l = Trim k blanks" using assms(2) by (auto simp: fold_lines_def)
  have "c \<notin> {CHR ''#'', LF, CR}" if "c \<in> set l" for c
  proof -
    have c: "c \<in> set k" using that set_Trim [of k blanks] by (auto simp: k(2))
    then have "c \<noteq> LF" using Split_parts [OF k(1)] by blast
    moreover have "\<not> bad_byte c" using assms(1) set_Split [OF k(1)] c by (auto simp: clean_value_def list_ex_iff)
    ultimately show ?thesis by (auto simp: bad_byte_def CR_def LF_def less_char_def)
  qed
  then show "clean l" by (simp add: clean_def list_all_iff)
  show "Trim l blanks = l" by (simp add: k(2))
qed

lemma written_proper:
  assumes "terminator e" "\<forall>l \<in> set ls. LF \<notin> set l \<and> l \<noteq> [] \<and> List.last l \<noteq> CR"
  shows "proper (map (\<lambda>l. (l, e)) ls)"
  using assms by (induction ls) (auto simp: ok_line_def terminator_def)

text \<open>A serialised attribute is coherent and ends its last line.\<close>

lemma newAttr_ok:
  assumes "good_prefix name p" "clean_value v" "terminator e" "closed lead" "attrs_in lead = []"
  shows "attr_ok ((newAttr name v p e)\<lparr>alead := lead\<rparr>)" "closed (aRaw (newAttr name v p e))"
proof -
  obtain x xs where xs: "fold_lines v = x # xs" by (cases "fold_lines v") (auto simp: fold_lines_def)
  have cl: "clean l" "Trim l blanks = l" if "l \<in> set (x # xs)" for l using fold_lines_clean [OF assms(2)] that xs by auto
  note px = good_prefix_line [OF assms(1) cl(1) [of x] cl(2) [of x], simplified]
  have c: "is_cont (cont_line p l)" "fst (contValue (cont_line p l) False) = l"
    "LF \<notin> set (cont_line p l) \<and> cont_line p l \<noteq> [] \<and> List.last (cont_line p l) \<noteq> CR" if "l \<in> set xs" for l
    using cont_line_ok [OF px(6) cl(1) [of l] cl(2) [of l]] that by auto
  let ?ls = "(p @ x, e) # map (\<lambda>l. (cont_line p l, e)) xs"
  have "proper (map (\<lambda>l. (l, e)) ((p @ x) # map (cont_line p) xs))"
    using px c(3) by (intro written_proper [OF assms(3)]) auto
  then have pr: "proper ?ls" by (simp add: comp_def)
  have conts: "list_all (\<lambda>c. is_cont (fst c)) (map (\<lambda>l. (cont_line p l, e)) xs)" using c(1) by (simp add: list_all_iff)
  note r = attr_raw [OF pr _ conts, simplified fst_conv, OF px(1)]
  have vals: "map (\<lambda>c. fst (contValue (fst c) False)) (map (\<lambda>l. (cont_line p l, e)) xs) = xs"
    using c(2) by (simp add: map_idI comp_def)
  obtain off where off: "splitAttr (p @ x) = (name, x, off)" using px(2) by blast
  have la: "line_attr (p @ x, e) (map (\<lambda>l. (cont_line p l, e)) xs) = (name, folded v)"
    unfolding line_attr_def vals fst_conv off by (simp add: folded_def xs)
  have v: "view ((newAttr name v p e)\<lparr>alead := lead\<rparr>) = (name, folded v)"
    using view_newAttr [of name v p e] by (simp add: view_def)
  show "attr_ok ((newAttr name v p e)\<lparr>alead := lead\<rparr>)"
    using r assms(4,5) unfolding attr_ok_def v by (simp add: newAttr_raw [OF xs] la)
  have "snd (List.last ?ls) = e" by (simp add: last_map)
  then show "closed (aRaw (newAttr name v p e))"
    unfolding newAttr_raw [OF xs] using closed_lines [OF pr] assms(3) unfolding terminator_def by blast
qed

subsection \<open>Ending a line\<close>

text \<open>What a text holds depends only on the texts of its lines.\<close>

definition attrs_of_texts :: "string list \<Rightarrow> (string \<times> string) list" where
  "attrs_of_texts ts = concat (map unit_attrs (units fst (map (\<lambda>t. (t, [])) ts)))"

lemma unit_attrs_texts: "unit_attrs (map_lexunit (\<lambda>l. (fst l, [] :: string)) u) = unit_attrs u"
  by (cases u) (simp_all add: line_attr_def comp_def)

lemma attrs_in_texts: "attrs_in s = attrs_of_texts (map fst (lines_of s))"
proof -
  have "units fst (map (\<lambda>t. (t, [] :: string)) (map fst ls)) = map (map_lexunit (\<lambda>l. (fst l, []))) (units fst ls)" for ls :: "(string \<times> string) list"
    using units_map [of fst "\<lambda>l. (fst l, [])" ls] by (simp add: comp_def)
  from this [of "lines_of s"] show ?thesis
    unfolding attrs_in_def attrs_of_texts_def by (simp only: map_map comp_def unit_attrs_texts)
qed

lemma plain_start_texts: "plain_start s \<longleftrightarrow> map fst (lines_of s) = [] \<or> \<not> is_cont (hd (map fst (lines_of s)))"
  by (cases "lines_of s") (simp_all add: plain_start_def)

lemma terminate_texts:
  assumes "terminator e"
  shows "map fst (lines_of (terminate s e)) = map fst (lines_of s)" "closed (terminate s e)"
proof -
  show "closed (terminate s e)" using assms by (auto simp: terminate_def closed_def terminator_def)
  show "map fst (lines_of (terminate s e)) = map fst (lines_of s)"
  proof (cases "closed s")
    case True
    then have "terminate s e = s" by (simp add: terminate_def closed_def)
    then show ?thesis by simp
  next
    case False
    define ls where "ls = lines_of s"
    have pr: "proper ls" and s: "raw_of ls = s" by (simp_all add: ls_def proper_lines_of raw_of_lines_of)
    have ne: "ls \<noteq> []" "\<not> (snd (List.last ls) = [LF] \<or> snd (List.last ls) = [CR, LF])"
      using closed_lines [OF pr] False s by auto
    then obtain front t r where ls: "ls = front @ [(t, r)]" by (metis append_butlast_last_id surj_pair)
    have ok: "ok_line (t, r)" "proper front" "front = [] \<or> snd (List.last front) = [LF] \<or> snd (List.last front) = [CR, LF]"
      using pr unfolding ls proper_append by auto
    have "\<exists>r'. terminate s e = raw_of (front @ [(t, r')]) \<and> proper (front @ [(t, r')])"
    proof (cases "r = [CR]")
      case True
      then have "terminate s e = raw_of (front @ [(t, [CR, LF])])" using s by (auto simp: ls terminate_def)
      then show ?thesis using ok by (auto simp: proper_append ok_line_def)
    next
      case False
      then have r: "r = []" "t \<noteq> []" "List.last t \<noteq> CR" "LF \<notin> set t" using ok(1) ne(2) by (auto simp: ls ok_line_def)
      then have "List.last t \<noteq> LF" by (metis last_in_set)
      then have "terminate s e = raw_of (front @ [(t, e)])" using s r by (auto simp: ls terminate_def)
      then show ?thesis using ok r assms by (auto simp: proper_append ok_line_def terminator_def)
    qed
    then show ?thesis using lines_of_raw_of by (metis (no_types, lifting) fst_conv list.simps(8,9) ls ls_def map_append)
  qed
qed

lemma name_first_texts: "name_first s \<longleftrightarrow> map fst (lines_of s) \<noteq> [] \<and> StartsAttribute (hd (map fst (lines_of s)))"
  by (cases "lines_of s") (simp_all add: name_first_def)

lemma terminate_attrs:
  assumes "terminator e"
  shows "attrs_in (terminate s e) = attrs_in s" "plain_start (terminate s e) = plain_start s"
    "name_first (terminate s e) = name_first s"
  by (simp_all add: attrs_in_texts plain_start_texts name_first_texts terminate_texts [OF assms] del: map_is_Nil_conv)

lemma terminate_empty: "terminate s e = [] \<longleftrightarrow> s = []"
  by (simp add: terminate_def)

lemma lineTerm_ok: "terminator (lineTerm raw)"
  by (simp add: lineTerm_def terminator_def Let_def)

lemma lineEnding_ok: "terminator (lineEnding obj)"
  using lineTerm_ok by (simp add: lineEnding_def terminator_def split: list.split)

subsection \<open>Coherence, attribute by attribute\<close>

lemma tail_ok_flat:
  "tail_ok as tr \<longleftrightarrow>
     list_all (\<lambda>a. attr_ok a \<and> plain_start (alead a)) as \<and> list_all (\<lambda>a. closed (aRaw a)) (butlast as) \<and>
     (as = [] \<or> closed (aRaw (List.last as)) \<or> tr = []) \<and> plain_start tr \<and> attrs_in tr = []"
  by (induction as) auto

definition joined :: "Attribute list \<Rightarrow> string \<Rightarrow> bool" where
  "joined as tr \<longleftrightarrow>
     list_all attr_ok as \<and> list_all (\<lambda>a. closed (aRaw a)) (butlast as) \<and> list_all (\<lambda>a. plain_start (alead a)) (tl as) \<and>
     attrs_in tr = [] \<and> (as = [] \<or> ((closed (aRaw (List.last as)) \<or> tr = []) \<and> plain_start tr))"

lemma coherent_flat: "coherent obj \<longleftrightarrow> joined (oattrs obj) (otrail obj)"
proof (cases "oattrs obj")
  case (Cons a as)
  show ?thesis
  proof (cases "as = []")
    case True
    then show ?thesis using Cons by (auto simp: coherent_def joined_def)
  next
    case False
    then show ?thesis using Cons unfolding coherent_def joined_def tail_ok_flat by (auto simp: list_all_iff)
  qed
qed (simp add: coherent_def joined_def)

subsection \<open>Append\<close>

lemma appendAttr_joined:
  assumes "coherent obj" "\<And>lead. closed lead \<Longrightarrow> attrs_in lead = [] \<Longrightarrow> attr_ok (a\<lparr>alead := lead\<rparr>)"
    "closed (aRaw a)" "alead a = []"
  shows "coherent (appendAttr obj a)" "map view (oattrs (appendAttr obj a)) = map view (oattrs obj) @ [view a]"
proof -
  let ?e = "lineEnding obj"
  note te = terminate_attrs [OF lineEnding_ok [of obj]] terminate_texts(2) [OF lineEnding_ok [of obj]]
  have ak: "attr_ok a" using assms(2) [of "[]"] assms(4) by (simp add: attrs_in_Nil) (metis (full_types) Attribute.surjective Attribute.update_convs(7))
  have "coherent (appendAttr obj a) \<and> map view (oattrs (appendAttr obj a)) = map view (oattrs obj) @ [view a]"
  proof (cases "oattrs obj" rule: rev_cases)
    case Nil
    have "attrs_in (otrail obj) = []" using assms(1) Nil by (simp add: coherent_flat joined_def)
    then have "attr_ok (a\<lparr>alead := terminate (otrail obj) ?e\<rparr>)" using assms(2) te by simp
    then show ?thesis using Nil assms(3)
      by (simp add: appendAttr_def ensureTrailingNewline_def coherent_flat joined_def view_def Let_def)
  next
    case (snoc bs b)
    let ?b = "b\<lparr>aRaw := terminate (aRaw b) ?e\<rparr>"
    have j: "joined (bs @ [b]) (otrail obj)" using assms(1) snoc by (simp add: coherent_flat)
    then have "attr_ok b" by (simp add: joined_def)
    then have b: "attr_ok ?b" "view ?b = view b" "closed (aRaw ?b)" "alead ?b = alead b"
      by (simp_all add: attr_ok_def te terminate_empty view_def)
    have ap: "appendAttr obj a = obj\<lparr>oattrs := bs @ [?b, a]\<rparr>"
      by (simp add: appendAttr_def ensureTrailingNewline_def snoc Let_def)
    have "joined (bs @ [?b, a]) (otrail obj)"
      using j b assms(3,4) ak by (cases bs) (auto simp: joined_def butlast_append)
    then show ?thesis using b(2) by (simp add: ap coherent_flat snoc)
  qed
  then show "coherent (appendAttr obj a)" "map view (oattrs (appendAttr obj a)) = map view (oattrs obj) @ [view a]" by blast+
qed

end
