(* ===== verification/Ast_Set.thy ===== *)
theory Ast_Set
  imports Ast_Write
begin

text \<open>
  \<^verbatim>\<open>Append\<close> and \<^verbatim>\<open>Set\<close> on any object the package produces: an editable object is coherent, and each of
  its attributes can be rewritten under its own name prefix.
\<close>

subsection \<open>Names\<close>

lemma name_char_not: "name_char (lower c) \<Longrightarrow> c \<notin> {CHR '':'', CHR ''#'', CHR ''+'', CHR '' '', CHR 0x09, LF, CR}"
  by (auto simp: name_char_def lower_def byte_classes LF_def CR_def)

lemma valid_name_trim:
  assumes "list_all (\<lambda>c. name_char (lower c)) n"
  shows "Trim n blanks = n"
  using assms by (intro Trim_outside) (auto simp: list_all_iff blanks_def dest!: name_char_not)

definition canonical_name :: "string \<Rightarrow> bool" where
  "canonical_name n \<longleftrightarrow> valid_name n \<and> CanonicalName n = n"

lemma CanonicalName_Trim: "CanonicalName n = map lower (Trim n blanks)"
  by (simp add: CanonicalName_def trimPos_def Let_def)

lemma CanonicalName_valid: "valid_name (CanonicalName n) \<Longrightarrow> CanonicalName (CanonicalName n) = CanonicalName n"
  unfolding CanonicalName_Trim
  by (subst valid_name_trim [of "map lower (Trim n blanks)"]) (simp_all add: valid_name_def list_all_iff)

lemma checkAttr_Some:
  "checkAttr n v = Some name \<longleftrightarrow> name = CanonicalName n \<and> canonical_name name \<and> clean_value v"
  using CanonicalName_valid [of n]
  by (auto simp: checkAttr_def canonical_name_def valid_name_def clean_value_def name_char_def [abs_def] Let_def split: if_splits)

lemma good_prefix_plain:
  assumes "canonical_name name"
  shows "good_prefix name (name @ '': '')"
proof -
  have v: "valid_name name" "CanonicalName name = name" using assms by (simp_all add: canonical_name_def)
  have l: "map lower name = name"
  proof -
    have "name = map lower (Trim name blanks)" using v(2) by (simp add: CanonicalName_Trim)
    then show ?thesis by (metis (no_types, lifting) lower_class(5) map_map comp_apply map_eq_conv)
  qed
  then have c: "c \<in> set name \<Longrightarrow> lower c = c" for c by (metis map_eq_conv map_ident)
  have nc: "c \<notin> {CHR '':'', CHR ''#'', CHR ''+'', CHR '' '', CHR 0x09, LF, CR}" if "c \<in> set name" for c
    using v(1) that c [OF that] name_char_not [of c] unfolding valid_name_def list_all_iff by metis
  have "hd name \<in> set name" using v(1) by (simp add: valid_name_def)
  then show ?thesis unfolding good_prefix_def
    using v nc by (rule_tac x = name in exI, rule_tac x = "'' ''" in exI) (simp add: list_all_iff blank_chars valid_name_def)
qed

subsection \<open>Rewriting under the same prefix\<close>

definition prefixed :: "Attribute \<Rightarrow> bool" where
  "prefixed a \<longleftrightarrow> (valid_name (aName a) \<longrightarrow> good_prefix (aName a) (namePrefix a))"

lemma prefixed_newAttr: "canonical_name name \<Longrightarrow> prefixed ((newAttr name v p e)\<lparr>alead := lead\<rparr>)"
  using good_prefix_plain [of name] by (simp add: prefixed_def newAttr_def namePrefix_def Let_def)

lemma prefixed_lead: "prefixed (a\<lparr>alead := l\<rparr>) = prefixed a"
  by (simp add: prefixed_def namePrefix_def Let_def cong: if_cong)

lemma takeWhile_ending: "e \<noteq> [] \<Longrightarrow> \<not> P (hd e) \<Longrightarrow> takeWhile P (s @ e) = takeWhile P s"
  by (induction s) (auto simp: hd_append, (cases e; simp)+)

lemma prefixed_terminate: "terminator e \<Longrightarrow> prefixed (a\<lparr>aRaw := terminate (aRaw a) e\<rparr>) = prefixed a"
proof -
  assume e: "terminator e"
  have "takeWhile (\<lambda>c. c \<noteq> CR \<and> c \<noteq> LF) (terminate (aRaw a) e) = takeWhile (\<lambda>c. c \<noteq> CR \<and> c \<noteq> LF) (aRaw a)"
    using e by (auto simp: terminate_def terminator_def intro!: takeWhile_ending)
  then show ?thesis by (simp add: prefixed_def namePrefix_def Let_def cong: if_cong)
qed

lemma in_Trim: "c \<in> set s \<Longrightarrow> c \<in> set (Trim s cs) \<or> c \<in> set cs"
proof -
  assume c: "c \<in> set s"
  have d: "x \<in> set xs \<Longrightarrow> x \<in> set (dropWhile (\<lambda>c. c \<in> set cs) xs) \<or> x \<in> set cs" for x xs
    by (induction xs) auto
  show ?thesis using c d [of c s] d [of c "rev (dropWhile (\<lambda>c. c \<in> set cs) s)"] by (auto simp: Trim_def)
qed

lemma name_line:
  assumes "StartsAttribute t" "splitAttr t = (name, val, off)" "valid_name name"
  obtains nm bl rest where "t = nm @ CHR '':'' # bl @ rest" "off = length nm + 1 + length bl" "list_all is_blank bl"
    "CanonicalName nm = name" "nm \<noteq> []" "hd nm \<notin> {CHR '' '', CHR 0x09, CHR ''+''}"
    "list_all (\<lambda>c. c \<notin> {CHR '':'', CHR ''#'', LF, CR}) nm"
proof -
  define content where "content = cut_comment t"
  define nm where "nm = takeWhile (\<lambda>c. c \<noteq> CHR '':'') content"
  define bl where "bl = takeWhile (\<lambda>c. c \<in> set blanks) (drop (length nm + 1) content)"
  have ct: "t = content @ dropWhile (\<lambda>c. c \<noteq> CHR ''#'') t" by (simp add: content_def cut_comment_def)
  have lt: "length nm \<noteq> length content"
    using assms(2,3) by (auto simp: splitAttr_def nm_def content_def valid_name_def Let_def trimPos_def)
  have dw: "content = nm @ dropWhile (\<lambda>c. c \<noteq> CHR '':'') content" by (simp add: nm_def)
  then have nz: "dropWhile (\<lambda>c. c \<noteq> CHR '':'') content \<noteq> []" using lt by (metis append_Nil2)
  then obtain y where y: "dropWhile (\<lambda>c. c \<noteq> CHR '':'') content = CHR '':'' # y"
    using hd_dropWhile [of "\<lambda>c. c \<noteq> CHR '':''" content] by (cases "dropWhile (\<lambda>c. c \<noteq> CHR '':'') content") auto
  have "content = nm @ CHR '':'' # y" using dw y by simp
  then have c: "content = nm @ CHR '':'' # drop (length nm + 1) content" by simp
  have tk: "take (length nm) content = nm" using dw by (metis append_eq_conv_conj)
  have sa: "CanonicalName nm = name" "off = length nm + 1 + length bl"
    using assms(2) lt tk by (simp_all add: splitAttr_def content_def [symmetric] nm_def [symmetric] bl_def trimPos_def Let_def)
  have bl: "list_all is_blank bl" by (auto simp: list_all_iff bl_def is_blank_def dest: set_takeWhileD)
  have ne: "nm \<noteq> []" using sa(1) assms(3) by (auto simp: valid_name_def CanonicalName_Trim Trim_def)
  have "hd t = hd nm" using ct c ne by (metis hd_append2 append_is_Nil_conv)
  then have hd: "hd nm \<notin> {CHR '' '', CHR 0x09, CHR ''+''}" using assms(1) by (auto simp: StartsAttribute_def split: if_splits)
  have "c \<notin> {CHR '':'', CHR ''#'', LF, CR}" if "c \<in> set nm" for c
  proof -
    have "c \<in> set (Trim nm blanks) \<or> is_blank c" using in_Trim [OF that, of blanks] by (simp add: is_blank_def)
    then show ?thesis
    proof
      assume "c \<in> set (Trim nm blanks)"
      then have "lower c \<in> set name" using sa(1) by (auto simp: CanonicalName_Trim)
      then show ?thesis using assms(3) name_char_not [of c] by (auto simp: valid_name_def list_all_iff)
    qed (use blank_not in blast)
  qed
  then have nmc: "list_all (\<lambda>c. c \<notin> {CHR '':'', CHR ''#'', LF, CR}) nm" unfolding list_all_iff by blast
  have "drop (length nm + 1) content = bl @ dropWhile (\<lambda>c. c \<in> set blanks) (drop (length nm + 1) content)" by (simp add: bl_def)
  then have "t = nm @ CHR '':'' # bl @ (dropWhile (\<lambda>c. c \<in> set blanks) (drop (length nm + 1) content) @ dropWhile (\<lambda>c. c \<noteq> CHR ''#'') t)"
    using ct c by (metis append.assoc append_Cons)
  then show thesis using that sa bl ne hd nmc by blast
qed

lemma prefixed_token:
  assumes "StartsAttribute (ptext l)"
  shows "prefixed (token_attr (tok_of lb bo (AttrUnit l cs)) lead)"
proof -
  obtain name val off where sa: "splitAttr (ptext l) = (name, val, off)" by (metis prod_cases3)
  let ?a = "token_attr (tok_of lb bo (AttrUnit l cs)) lead"
  have f: "aName ?a = name" "aRaw ?a = ptext l @ pterm l @ raw_of (pairs cs)" "aSegments ?a \<noteq> []"
      "SrcCol (hd (aSegments ?a)) - 1 = int off"
    by (simp_all add: token_attr_def sa raw_pairs [symmetric] pl_raw_def line_segment_def)
  show ?thesis unfolding prefixed_def
  proof
    assume "valid_name (aName ?a)"
    then have v: "valid_name name" by (simp only: f)
    from name_line [OF assms sa v] obtain nm bl rest where
      n: "ptext l = nm @ CHR '':'' # bl @ rest" "off = length nm + 1 + length bl" "list_all is_blank bl"
      "CanonicalName nm = name" "nm \<noteq> []" "hd nm \<notin> {CHR '' '', CHR 0x09, CHR ''+''}"
      "list_all (\<lambda>c. c \<notin> {CHR '':'', CHR ''#'', LF, CR}) nm" by metis
    let ?line = "takeWhile (\<lambda>c. c \<noteq> CR \<and> c \<noteq> LF) (aRaw ?a)"
    have pre: "c \<in> set (nm @ CHR '':'' # bl) \<Longrightarrow> c \<noteq> CR \<and> c \<noteq> LF" for c
    proof -
      assume "c \<in> set (nm @ CHR '':'' # bl)"
      then consider "c \<in> set nm" | "c = CHR '':''" | "is_blank c" using n(3) by (auto simp: list_all_iff)
      then show "c \<noteq> CR \<and> c \<noteq> LF"
        by cases (use n(7) blank_not [of c] in \<open>auto simp: list_all_iff LF_def CR_def\<close>)
    qed
    have raw: "aRaw ?a = (nm @ CHR '':'' # bl) @ (rest @ pterm l @ raw_of (pairs cs))"
      unfolding f(2) n(1) by simp
    have line: "?line = (nm @ CHR '':'' # bl) @ takeWhile (\<lambda>c. c \<noteq> CR \<and> c \<noteq> LF) (rest @ pterm l @ raw_of (pairs cs))"
      unfolding raw using pre by (intro takeWhile_append2) blast
    have tk: "take off ?line = nm @ CHR '':'' # bl" unfolding line by (simp add: n(2))
    have le: "int off \<le> int (length ?line)" unfolding line by (simp add: n(2))
    have np: "namePrefix ?a = (let prefix = nm @ CHR '':'' # bl in
        if prefix = [] \<or> (List.last prefix \<noteq> CHR '' '' \<and> List.last prefix \<noteq> CHR 0x09) then prefix @ '' '' else prefix)"
      unfolding namePrefix_def f(4) using f(3) le tk by (simp add: Let_def)
    have "namePrefix ?a = nm @ CHR '':'' # (if bl = [] then '' '' else bl)"
    proof (cases "bl = []")
      case False
      then have "is_blank (List.last bl)" using n(3) by (simp add: list_all_iff)
      then show ?thesis unfolding np using False by (auto simp: blank_chars Let_def)
    qed (unfold np, simp add: Let_def)
    then show "good_prefix (aName ?a) (namePrefix ?a)"
      unfolding good_prefix_def f(1) using n(3-7)
      by (rule_tac x = nm in exI, rule_tac x = "if bl = [] then '' '' else bl" in exI) (simp add: blank_chars)
  qed
qed

lemma new_loop_tokens: "a \<in> set (fst (new_loop run ts)) \<Longrightarrow> \<exists>t lead. t \<in> set ts \<and> tKind t = KindAttribute \<and> a = token_attr t lead"
  by (induction run ts rule: new_loop.induct) (auto split: if_splits prod.splits)

lemma parsed_prefixed: "list_all prefixed (oattrs (New (TokenizeAt s line bo)))"
proof -
  have "prefixed a" if a: "a \<in> set (oattrs (New (TokenizeAt s line bo)))" for a
  proof -
    have "a \<in> set (fst (new_loop [] (TokenizeAt s line bo)))" using a by (simp add: New_def split_def Let_def)
    from new_loop_tokens [OF this] obtain t lead where
      t: "t \<in> set (TokenizeAt s line bo)" "tKind t = KindAttribute" "a = token_attr t lead" by blast
    then obtain u where u: "u \<in> set (units ptext (scanLines s))" "t = tok_of (line - 1) bo u"
      unfolding TokenizeAt_units by auto
    show ?thesis
    proof (cases u)
      case (AttrUnit l cs)
      then show ?thesis using u t(3) by (auto intro!: prefixed_token dest: units_attr_starts simp del: tok_of.simps)
    next
      case (OtherUnit l)
      then show ?thesis using u t(2) by (auto dest!: units_other dest: classify_cases(4))
    qed
  qed
  then show ?thesis by (simp add: list_all_iff)
qed

subsection \<open>Editable objects\<close>

definition editable :: "Object \<Rightarrow> bool" where
  "editable obj \<longleftrightarrow> coherent obj \<and> list_all prefixed (oattrs obj)"

lemma parsed_editable: "editable (New (TokenizeAt s line bo))"
  by (simp add: editable_def parsed_coherent parsed_prefixed)

lemma appendAttr_editable:
  assumes "editable obj" "canonical_name name" "clean_value v"
  defines "obj' \<equiv> appendAttr obj (newAttr name v (name @ '': '') (lineEnding obj))"
  shows "editable obj'" "map view (oattrs obj') = map view (oattrs obj) @ [(name, folded v)]"
proof -
  let ?a = "newAttr name v (name @ '': '') (lineEnding obj)"
  note ok = newAttr_ok [OF good_prefix_plain [OF assms(2)] assms(3) lineEnding_ok [of obj]]
  have lead: "alead ?a = []" by (simp add: newAttr_def Let_def)
  have co: "coherent obj" using assms(1) by (simp add: editable_def)
  note ap = appendAttr_joined [OF co ok(1) ok(2) [of "[]"] lead, simplified]
  have "list_all prefixed (oattrs obj')"
  proof (cases "oattrs obj" rule: rev_cases)
    case Nil
    then show ?thesis using prefixed_newAttr [OF assms(2)]
      by (simp add: obj'_def appendAttr_def ensureTrailingNewline_def Let_def)
  next
    case (snoc bs b)
    have "prefixed ?a" using prefixed_newAttr [OF assms(2)] by (simp add: prefixed_lead)
    then show ?thesis using assms(1) prefixed_terminate [OF lineEnding_ok [of obj]]
      by (simp add: obj'_def appendAttr_def ensureTrailingNewline_def editable_def snoc Let_def)
  qed
  then show "editable obj'" using ap(1) by (simp add: obj'_def editable_def)
  show "map view (oattrs obj') = map view (oattrs obj) @ [(name, folded v)]"
    using ap(2) by (simp add: obj'_def view_newAttr)
qed

lemma Append_editable:
  assumes "editable obj" "Append obj name v = Some obj'"
  shows "editable obj'" "map view (oattrs obj') = map view (oattrs obj) @ [(CanonicalName name, folded v)]"
proof -
  obtain n where n: "checkAttr name v = Some n" "obj' = appendAttr obj (newAttr n v (n @ '': '') (lineEnding obj))"
    using assms(2) by (auto simp: Append_def split: option.splits)
  have c: "canonical_name n" "clean_value v" "n = CanonicalName name" using n(1) unfolding checkAttr_Some by blast+
  show "editable obj'" "map view (oattrs obj') = map view (oattrs obj) @ [(CanonicalName name, folded v)]"
    using appendAttr_editable [OF assms(1) c(1,2)] n(2) c(3) by simp_all
qed

lemma append_fold:
  assumes "canonical_name name"
  shows "list_all clean_value vs \<Longrightarrow> editable obj \<Longrightarrow>
    editable (fold (\<lambda>v obj. appendAttr obj (newAttr name v (name @ '': '') (lineEnding obj))) vs obj) \<and>
    map view (oattrs (fold (\<lambda>v obj. appendAttr obj (newAttr name v (name @ '': '') (lineEnding obj))) vs obj)) =
      map view (oattrs obj) @ map (\<lambda>v. (name, folded v)) vs"
proof (induction vs arbitrary: obj)
  case (Cons v vs)
  then have v: "clean_value v" "list_all clean_value vs" by simp_all
  note ap = appendAttr_editable [OF Cons.prems(2) assms v(1)]
  show ?case using Cons.IH [OF v(2) ap(1)] ap(2) by simp
qed simp

subsection \<open>The loop of \<^verbatim>\<open>Set\<close>\<close>

lemma set_values_form:
  "set_values name p e vs carry =
     (case vs of [] \<Rightarrow> ([], carry)
      | v # vs' \<Rightarrow> ((newAttr name v p e)\<lparr>alead := carry\<rparr> # map (\<lambda>v. (newAttr name v p e)\<lparr>alead := []\<rparr>) vs', []))"
proof (induction vs arbitrary: carry)
  case (Cons v vs)
  show ?case by (simp add: Cons.IH [of "[]"] split: list.split)
qed simp

definition quiet :: "string \<Rightarrow> bool" where
  "quiet s \<longleftrightarrow> closed s \<and> attrs_in s = []"

lemma quiet_Nil [simp]: "quiet []"
  by (simp add: quiet_def)

lemma quiet_append: "quiet s \<Longrightarrow> quiet t \<Longrightarrow> plain_start t \<Longrightarrow> quiet (s @ t)"
  by (simp add: quiet_def closed_append attrs_in_append)

lemma attr_ok_lead: "attr_ok a \<Longrightarrow> quiet l \<Longrightarrow> attr_ok (a\<lparr>alead := l\<rparr>)"
  by (simp add: attr_ok_def quiet_def view_def)

lemma attr_ok_quiet: "attr_ok a \<Longrightarrow> quiet (alead a)"
  by (simp add: attr_ok_def quiet_def)

text \<open>What the attributes after the first become: trivia that does not continue a value is carried.\<close>

lemma set_loop_tail:
  assumes "canonical_name name" "list_all clean_value vs"
  shows "tail_ok as tr \<Longrightarrow> list_all prefixed as \<Longrightarrow> quiet carry \<Longrightarrow> plain_start carry \<Longrightarrow>
    set_loop name vs as carry found = (kept, carry', found') \<Longrightarrow>
    tail_ok kept (carry' @ tr) \<and> list_all prefixed kept \<and> (as = [] \<longrightarrow> kept = [] \<and> carry' = carry)"
proof (induction as arbitrary: carry found kept carry' found')
  case Nil
  then have "plain_start (carry @ tr)" "attrs_in (carry @ tr) = []"
    by (simp_all add: quiet_def plain_start_append attrs_in_append)
  then show ?case using Nil by simp
next
  case (Cons a as)
  have a: "attr_ok a" "plain_start (alead a)" "closed (aRaw a) \<or> as = [] \<and> tr = []" "tail_ok as tr" "list_all prefixed as" "prefixed a"
    using Cons.prems by simp_all
  have q: "quiet (carry @ alead a)" "plain_start (carry @ alead a)"
    using quiet_append [OF Cons.prems(3) attr_ok_quiet [OF a(1)] a(2)] plain_start_append [of carry, OF _ Cons.prems(4) a(2)]
      Cons.prems(3) by (simp_all add: quiet_def)
  consider "aName a \<noteq> name" | "aName a = name" "found" | "aName a = name" "\<not> found" by blast
  then show ?case
  proof cases
    case 1
    obtain k2 c2 f2 where r: "set_loop name vs as [] found = (k2, c2, f2)" by (metis prod_cases3)
    have IH: "tail_ok k2 (c2 @ tr)" "list_all prefixed k2" "as = [] \<longrightarrow> k2 = [] \<and> c2 = []"
      using Cons.IH [OF a(4,5) _ _ r] by simp_all
    have k: "kept = a\<lparr>alead := carry @ alead a\<rparr> # k2" "carry' = c2" using Cons.prems(5) 1 r by simp_all
    show ?thesis unfolding k using IH q a attr_ok_lead [OF a(1) q(1)] by (auto simp: prefixed_lead)
  next
    case 2
    then show ?thesis using Cons.IH [OF a(4,5) q, of True kept carry' found'] Cons.prems(5) by simp
  next
    case 3
    obtain new c1 where n: "set_values name (namePrefix a) (lineTerm (aRaw a)) vs (carry @ alead a) = (new, c1)" by fastforce
    obtain k2 c2 f2 where r: "set_loop name vs as c1 True = (k2, c2, f2)" by (metis prod_cases3)
    have k: "kept = new @ k2" "carry' = c2" using Cons.prems(5) 3 n r by simp_all
    have gp: "good_prefix name (namePrefix a)" using a(6) 3 assms(1) by (auto simp: prefixed_def canonical_name_def)
    have c1: "quiet c1" "plain_start c1" using n q by (auto simp: set_values_form split: list.splits)
    have new: "attr_ok b \<and> plain_start (alead b) \<and> closed (aRaw b) \<and> prefixed b" if b: "b \<in> set new" for b
    proof -
      obtain v l where v: "b = (newAttr name v (namePrefix a) (lineTerm (aRaw a)))\<lparr>alead := l\<rparr>" "v \<in> set vs" "l = [] \<or> l = carry @ alead a"
        using n b by (auto simp: set_values_form split: list.splits)
      have l: "closed l" "attrs_in l = []" "plain_start l" using v(3) q by (auto simp: quiet_def)
      have "clean_value v" using v(2) assms(2) by (simp add: list_all_iff)
      from newAttr_ok [OF gp this lineTerm_ok [of "aRaw a"] l(1,2)] show ?thesis
        using prefixed_newAttr [OF assms(1)] l(3) by (simp add: v(1))
    qed
    have IH: "tail_ok k2 (c2 @ tr)" "list_all prefixed k2" using Cons.IH [OF a(4,5) c1 r] by simp_all
    have "tail_ok (new @ k2) (c2 @ tr)" using IH(1) new by (induction new) auto
    then show ?thesis unfolding k using IH(2) new by (auto simp: list_all_iff)
  qed
qed

text \<open>The first attribute, or the first that is left: its trivia may start with any line.\<close>

lemma set_loop_step:
  assumes "canonical_name name" "list_all clean_value vs"
    "attr_ok a" "closed (aRaw a) \<or> as = [] \<and> tr = []" "tail_ok as tr" "list_all prefixed (a # as)"
    "quiet (carry @ alead a)" "set_loop name vs (a # as) carry found = (kept, carry', found')"
    "\<And>carry found kept carry' found'. quiet carry \<Longrightarrow> set_loop name vs as carry found = (kept, carry', found') \<Longrightarrow>
       coherent \<lparr>oattrs = kept, otrail = carry' @ tr\<rparr> \<and> list_all prefixed kept"
  shows "coherent \<lparr>oattrs = kept, otrail = carry' @ tr\<rparr> \<and> list_all prefixed kept"
proof -
  have p: "list_all prefixed as" "prefixed a" using assms(6) by simp_all
  consider "aName a \<noteq> name" | "aName a = name" "found \<or> vs = []" | "aName a = name" "\<not> found" "vs \<noteq> []" by blast
  then show ?thesis
  proof cases
    case 1
    obtain k2 c2 f2 where r: "set_loop name vs as [] found = (k2, c2, f2)" by (metis prod_cases3)
    note IH = set_loop_tail [OF assms(1,2,5) p(1) _ _ r, simplified]
    have k: "kept = a\<lparr>alead := carry @ alead a\<rparr> # k2" "carry' = c2" using assms(8) 1 r by simp_all
    show ?thesis unfolding k using IH assms(4) p(2) attr_ok_lead [OF assms(3,7)] by (auto simp: coherent_def prefixed_lead)
  next
    case 2
    then have "set_loop name vs as (carry @ alead a) True = (kept, carry', found')" using assms(8) by (cases found) (auto split: prod.splits)
    then show ?thesis using assms(9) [OF assms(7)] by blast
  next
    case 3
    obtain v vs' where vs: "vs = v # vs'" using 3(3) by (cases vs) auto
    let ?n = "\<lambda>v l. (newAttr name v (namePrefix a) (lineTerm (aRaw a)))\<lparr>alead := l\<rparr>"
    obtain k2 c2 f2 where r: "set_loop name vs as [] True = (k2, c2, f2)" by (metis prod_cases3)
    note IH = set_loop_tail [OF assms(1,2,5) p(1) _ _ r, simplified]
    have k: "kept = ?n v (carry @ alead a) # map (\<lambda>v. ?n v []) vs' @ k2" "carry' = c2"
      using assms(8) 3(1,2) r by (simp_all add: set_values_form vs)
    have gp: "good_prefix name (namePrefix a)" using p(2) 3(1) assms(1) by (auto simp: prefixed_def canonical_name_def)
    have new: "attr_ok (?n w l) \<and> closed (aRaw (?n w l)) \<and> prefixed (?n w l)" if "w \<in> set vs" "quiet l" for w l
      using newAttr_ok [OF gp _ lineTerm_ok [of "aRaw a"], of w l] that assms(2) prefixed_newAttr [OF assms(1)]
      by (simp add: quiet_def list_all_iff)
    have "tail_ok (map (\<lambda>v. ?n v []) ws @ k2) (c2 @ tr)" if "set ws \<subseteq> set vs" for ws
      using that IH new [OF _ quiet_Nil] by (induction ws) auto
    from this [of vs'] show ?thesis
      unfolding k using IH new [OF _ quiet_Nil] new [OF _ assms(7)] by (auto simp: coherent_def vs list_all_iff)
  qed
qed

lemma set_loop_rest:
  assumes "canonical_name name" "list_all clean_value vs"
  shows "tail_ok as tr \<Longrightarrow> list_all prefixed as \<Longrightarrow> quiet carry \<Longrightarrow>
    set_loop name vs as carry found = (kept, carry', found') \<Longrightarrow>
    coherent \<lparr>oattrs = kept, otrail = carry' @ tr\<rparr> \<and> list_all prefixed kept"
proof (induction as arbitrary: carry found kept carry' found')
  case Nil
  then show ?case by (auto simp: coherent_def quiet_def attrs_in_append)
next
  case (Cons a as)
  have a: "attr_ok a" "plain_start (alead a)" "closed (aRaw a) \<or> as = [] \<and> tr = []" "tail_ok as tr" "list_all prefixed as"
    using Cons.prems by simp_all
  show ?case
    by (rule set_loop_step [OF assms a(1,3,4) Cons.prems(2) quiet_append [OF Cons.prems(3) attr_ok_quiet [OF a(1)] a(2)] Cons.prems(4)])
      (rule Cons.IH [OF a(4,5)])
qed

lemma set_loop_editable:
  assumes "canonical_name name" "list_all clean_value vs" "editable obj"
    "set_loop name vs (oattrs obj) [] False = (kept, carry', found')"
  shows "editable \<lparr>oattrs = kept, otrail = carry' @ otrail obj\<rparr>"
proof (cases "oattrs obj")
  case Nil
  then show ?thesis using assms(3,4) by (auto simp: editable_def coherent_def)
next
  case (Cons a as)
  have a: "attr_ok a" "closed (aRaw a) \<or> as = [] \<and> otrail obj = []" "tail_ok as (otrail obj)" "list_all prefixed (a # as)"
    using assms(3) by (simp_all add: editable_def coherent_def Cons)
  have q: "quiet ([] @ alead a)" using attr_ok_quiet [OF a(1)] by simp
  have p: "list_all prefixed as" using a(4) by simp
  show ?thesis
    using set_loop_step [OF assms(1,2) a(1-4) q assms(4) [unfolded Cons]] set_loop_rest [OF assms(1,2) a(3) p]
    unfolding editable_def by simp
qed

text \<open>What is read back: the values where the first occurrence was, or at the end.\<close>

definition set_spec :: "string \<Rightarrow> string list \<Rightarrow> (string \<times> string) list \<Rightarrow> (string \<times> string) list" where
  "set_spec name vals ws =
     takeWhile (\<lambda>w. fst w \<noteq> name) ws @ map (Pair name) vals @ filter (\<lambda>w. fst w \<noteq> name) (dropWhile (\<lambda>w. fst w \<noteq> name) ws)"

lemma set_values_views: "set_values name p e vs carry = (new, c) \<Longrightarrow> map view new = map (\<lambda>v. (name, folded v)) vs"
  using view_newAttr by (auto simp: set_values_form view_def split: list.splits)

lemma set_loop_found:
  "set_loop name vs as carry True = (kept, carry', found') \<Longrightarrow> map view kept = filter (\<lambda>w. fst w \<noteq> name) (map view as) \<and> found'"
  by (induction as arbitrary: carry kept carry' found') (auto simp: view_def split: if_splits prod.splits)

lemma set_loop_views:
  "set_loop name vs as carry False = (kept, carry', found') \<Longrightarrow>
   (found' \<longleftrightarrow> name \<in> aName ` set as) \<and>
   map view kept = (if found' then set_spec name (map folded vs) (map view as) else map view as)"
proof (induction as arbitrary: carry kept carry' found')
  case (Cons a as)
  show ?case
  proof (cases "aName a = name")
    case True
    obtain new c1 where n: "set_values name (namePrefix a) (lineTerm (aRaw a)) vs (carry @ alead a) = (new, c1)" by fastforce
    obtain k2 c2 f2 where r: "set_loop name vs as c1 True = (k2, c2, f2)" by (metis prod_cases3)
    show ?thesis using Cons.prems True n r set_values_views [OF n] set_loop_found [OF r]
      by (auto simp: set_spec_def view_def [of a] comp_def)
  next
    case False
    obtain k2 c2 f2 where r: "set_loop name vs as [] False = (k2, c2, f2)" by (metis prod_cases3)
    show ?thesis using Cons.prems False Cons.IH [OF r] r by (auto simp: set_spec_def view_def)
  qed
qed simp

text \<open>Trivia and the other attributes are kept, byte for byte.\<close>

lemma set_values_trivia: "set_values name p e vs carry = (new, c) \<Longrightarrow> concat (map alead new) @ c = carry \<and> (\<forall>b \<in> set new. aName b = name)"
  by (auto simp: set_values_form newAttr_def Let_def comp_def split: list.splits)

lemma set_loop_trivia:
  "set_loop name vs as carry found = (kept, carry', found') \<Longrightarrow>
   concat (map alead kept) @ carry' = carry @ concat (map alead as) \<and>
   map aRaw (filter (\<lambda>a. aName a \<noteq> name) kept) = map aRaw (filter (\<lambda>a. aName a \<noteq> name) as)"
proof (induction as arbitrary: carry found kept carry' found')
  case (Cons a as)
  consider "aName a \<noteq> name" | "aName a = name" "found" | "aName a = name" "\<not> found" by blast
  then show ?case
  proof cases
    case 1
    obtain k2 c2 f2 where r: "set_loop name vs as [] found = (k2, c2, f2)" by (metis prod_cases3)
    show ?thesis using Cons.prems 1 r Cons.IH [OF r] by auto
  next
    case 2
    then show ?thesis using Cons.prems Cons.IH by fastforce
  next
    case 3
    obtain new c1 where n: "set_values name (namePrefix a) (lineTerm (aRaw a)) vs (carry @ alead a) = (new, c1)" by fastforce
    obtain k2 c2 f2 where r: "set_loop name vs as c1 True = (k2, c2, f2)" by (metis prod_cases3)
    have "filter (\<lambda>a. aName a \<noteq> name) new = []" using set_values_trivia [OF n] by auto
    then show ?thesis using Cons.prems 3 n r Cons.IH [OF r] set_values_trivia [OF n] by auto
  qed
qed simp

lemma set_spec_absent: "name \<notin> fst ` set ws \<Longrightarrow> set_spec name vals ws = ws @ map (Pair name) vals"
proof -
  assume "name \<notin> fst ` set ws"
  then have "\<forall>w \<in> set ws. fst w \<noteq> name" by (metis image_eqI)
  then have "takeWhile (\<lambda>w. fst w \<noteq> name) ws = ws" "dropWhile (\<lambda>w. fst w \<noteq> name) ws = []" by simp_all
  then show ?thesis unfolding set_spec_def by (simp only: filter.simps append_Nil2)
qed

lemma checkAttr_values:
  assumes "checkAttr name [] = Some n"
  shows "list_ex (\<lambda>v. checkAttr n v = None) vs \<longleftrightarrow> \<not> list_all clean_value vs"
proof -
  have n: "canonical_name n" using assms unfolding checkAttr_Some by blast
  then have "CanonicalName n = n" by (simp add: canonical_name_def)
  then have "checkAttr n v = None \<longleftrightarrow> \<not> clean_value v" for v
    using n checkAttr_Some [of n v n] checkAttr_Some [of n v] by (cases "checkAttr n v") auto
  then show ?thesis by (simp add: list_ex_iff list_all_iff)
qed

lemma Set_editable:
  assumes "editable obj" "Set obj name vs = Some obj'"
  shows "editable obj'" "map view (oattrs obj') = set_spec (CanonicalName name) (map folded vs) (map view (oattrs obj))"
    "Has (Some obj) name \<Longrightarrow>
       concat (map alead (oattrs obj')) @ otrail obj' = concat (map alead (oattrs obj)) @ otrail obj \<and>
       map aRaw (filter (\<lambda>a. aName a \<noteq> CanonicalName name) (oattrs obj')) = map aRaw (filter (\<lambda>a. aName a \<noteq> CanonicalName name) (oattrs obj))"
proof -
  obtain n where n: "checkAttr name [] = Some n" "list_all clean_value vs"
    using assms(2) checkAttr_values [of name] by (auto simp: Set_def split: option.splits if_splits)
  then have cn: "canonical_name n" "n = CanonicalName name" unfolding checkAttr_Some by blast+
  obtain kept carry found where r: "set_loop n vs (oattrs obj) [] False = (kept, carry, found)" by (metis prod_cases3)
  let ?o = "\<lparr>oattrs = kept, otrail = carry @ otrail obj\<rparr>"
  have o': "obj' = (if found then ?o else fold (\<lambda>v obj. appendAttr obj (newAttr n v (n @ '': '') (lineEnding obj))) vs ?o)"
    using assms(2) n checkAttr_values [OF n(1), of vs] r by (simp add: Set_def Let_def split: if_splits)
  have ed: "editable ?o" by (rule set_loop_editable [OF cn(1) n(2) assms(1) r])
  note v = set_loop_views [OF r]
  note f = append_fold [OF cn(1) n(2) ed]
  have "name' \<in> aName ` set as \<longleftrightarrow> name' \<in> fst ` set (map view as)" for name' as by (auto simp: view_def image_image)
  then have ab: "\<not> found \<Longrightarrow> set_spec n (map folded vs) (map view (oattrs obj)) = map view (oattrs obj) @ map (Pair n) (map folded vs)"
    using v by (intro set_spec_absent) blast
  show "editable obj'" using ed f unfolding o' by simp
  show "map view (oattrs obj') = set_spec (CanonicalName name) (map folded vs) (map view (oattrs obj))"
    using v f ab unfolding o' cn(2) [symmetric] by (cases found) (simp_all add: comp_def)
  assume "Has (Some obj) name"
  then have "\<exists>x \<in> set (oattrs obj). aName x = n" by (auto simp: Has_def cn(2) find_None_iff)
  then have "found" using v by (metis imageI)
  then show "concat (map alead (oattrs obj')) @ otrail obj' = concat (map alead (oattrs obj)) @ otrail obj \<and>
       map aRaw (filter (\<lambda>a. aName a \<noteq> CanonicalName name) (oattrs obj')) = map aRaw (filter (\<lambda>a. aName a \<noteq> CanonicalName name) (oattrs obj))"
    using set_loop_trivia [OF r] unfolding o' cn(2) [symmetric] by simp
qed

end
