(* ===== verification/Ast_Format.thy ===== *)
theory Ast_Format
  imports Ast_Set
begin

text \<open>
  \<^verbatim>\<open>Format\<close> rewrites only the name line of an attribute, and the line it writes reads as the same name
  and value.
\<close>

lemma Trim_cut: "Trim (cut_comment (Trim s blanks)) blanks = Trim (cut_comment s) blanks"
proof -
  let ?p = "\<lambda>c. c \<in> set blanks" and ?h = "\<lambda>c. c \<noteq> CHR ''#''"
  have nb: "c \<in> set blanks \<Longrightarrow> ?h c" for c by (auto simp: blanks_def)
  define t where "t = dropWhile ?p s"
  have s: "s = takeWhile ?p s @ t" by (simp add: t_def)
  have l: "Trim (cut_comment s) blanks = Trim (cut_comment t) blanks"
  proof -
    have "cut_comment s = takeWhile ?p s @ cut_comment t"
      unfolding cut_comment_def by (subst s, rule takeWhile_append2) (auto dest!: set_takeWhileD nb)
    moreover have "list_all is_blank (takeWhile ?p s)" by (auto simp: list_all_iff is_blank_def dest: set_takeWhileD)
    ultimately show ?thesis by (simp add: Trim_blank_left)
  qed
  define u where "u = rev (dropWhile ?p (rev t))"
  define w where "w = rev (takeWhile ?p (rev t))"
  have t: "t = u @ w" by (metis rev_append rev_rev_ident takeWhile_dropWhile_id u_def w_def)
  have wb: "c \<in> set w \<Longrightarrow> ?p c" for c by (auto simp: w_def dest: set_takeWhileD)
  have tu: "Trim s blanks = u" by (simp add: Trim_def t_def u_def)
  have strip: "Trim (x @ w) blanks = Trim x blanks" for x
  proof -
    have d: "dropWhile ?p (x @ w) = (if list_all ?p x then [] else dropWhile ?p x @ w)"
      using wb by (auto simp: dropWhile_append list_all_iff)
    have "dropWhile ?p (rev w @ y) = dropWhile ?p y" for y by (rule dropWhile_append2) (simp add: wb)
    moreover have "list_all ?p x \<Longrightarrow> dropWhile ?p x = []" by (simp add: list_all_iff)
    ultimately show ?thesis unfolding Trim_def d by (cases "list_all ?p x") (auto dest: set_dropWhileD)
  qed
  have "Trim (cut_comment t) blanks = Trim (cut_comment u) blanks"
  proof (cases "CHR ''#'' \<in> set u")
    case True
    then have "cut_comment t = cut_comment u" unfolding t cut_comment_def by (intro takeWhile_append1) auto
    then show ?thesis by simp
  next
    case False
    moreover have "CHR ''#'' \<notin> set w" using wb [of "CHR ''#''"] by (auto simp: blanks_def)
    ultimately have "cut_comment t = u @ w" "cut_comment u = u" unfolding t by (simp_all add: cut_comment_clean)
    then show ?thesis by (simp add: strip)
  qed
  then show ?thesis using l tu by simp
qed

lemma lower_blank: "lower c \<in> set blanks \<longleftrightarrow> c \<in> set blanks"
proof (cases "isUpper c")
  case True
  show ?thesis using upper_bytes [OF True] of_char_lower [OF True] by (auto simp: blanks_def)
qed (simp add: lower_def)

lemma CanonicalName_lower: "CanonicalName (map lower n) = CanonicalName n"
proof -
  have "dropWhile (\<lambda>c. c \<in> set blanks) (map lower s) = map lower (dropWhile (\<lambda>c. c \<in> set blanks) s)" for s
    by (simp add: dropWhile_map comp_def lower_blank)
  then have "Trim (map lower n) blanks = map lower (Trim n blanks)" by (simp add: Trim_def rev_map)
  then show ?thesis by (simp add: CanonicalName_Trim)
qed

text \<open>A name line: its name has no colon or comment sign, and what follows the colon is kept.\<close>

lemma name_line_split:
  assumes "list_all (\<lambda>c. c \<noteq> CHR '':'' \<and> c \<noteq> CHR ''#'') nm"
  shows "fst (splitAttr (nm @ CHR '':'' # r)) = CanonicalName nm" "fst (snd (splitAttr (nm @ CHR '':'' # r))) = Trim (cut_comment r) blanks"
    "nm = [] \<or> hd nm \<notin> {CHR '' '', CHR 0x09, CHR ''+''} \<Longrightarrow> StartsAttribute (nm @ CHR '':'' # r)"
proof -
  have h: "\<forall>c \<in> set nm. c \<noteq> CHR ''#''" and c: "\<forall>c \<in> set nm. c \<noteq> CHR '':''" using assms by (auto simp: list_all_iff)
  have "cut_comment (nm @ CHR '':'' # r) = nm @ CHR '':'' # cut_comment r"
    unfolding cut_comment_def using h by (subst takeWhile_append2) auto
  moreover have "takeWhile (\<lambda>c. c \<noteq> CHR '':'') (nm @ CHR '':'' # cut_comment r) = nm"
    using c by (subst takeWhile_append2) auto
  ultimately show "fst (splitAttr (nm @ CHR '':'' # r)) = CanonicalName nm" "fst (snd (splitAttr (nm @ CHR '':'' # r))) = Trim (cut_comment r) blanks"
    by (simp_all add: splitAttr_def trimPos_def Let_def)
  have "colon_before_hash (nm @ CHR '':'' # r)" using assms by (induction nm) auto
  moreover assume "nm = [] \<or> hd nm \<notin> {CHR '' '', CHR 0x09, CHR ''+''}"
  moreover have "nm \<noteq> [] \<Longrightarrow> hd nm \<noteq> CHR ''#''" using h by simp
  ultimately show "StartsAttribute (nm @ CHR '':'' # r)" by (cases nm) (auto simp: StartsAttribute_def)
qed

text \<open>The line \<^verbatim>\<open>formatAttr\<close> writes for a name, a separator and the rest of the line.\<close>

definition format_line :: "string \<Rightarrow> FormatOptions \<Rightarrow> string" where
  "format_line first opts =
     (let name = takeWhile (\<lambda>c. c \<noteq> CHR '':'') first; after = tl (dropWhile (\<lambda>c. c \<noteq> CHR '':'') first);
          value = Trim after blanks; name' = (if LowerNames opts then lowerASCII name else name);
          n = Align opts - int (length name') - 2 in
      if value = [] then name' @ '':''
      else name' @ '':'' @
             (if Align opts > 0 then if n > 1 then replicate (nat n) (CHR '' '') else '' ''
              else takeWhile (\<lambda>c. c \<in> set blanks) after) @ value)"

definition kept_line :: "string \<Rightarrow> FormatOptions \<Rightarrow> bool" where
  "kept_line first opts \<longleftrightarrow>
     (Align opts \<le> 0 \<and> \<not> LowerNames opts) \<or> hasControl (takeWhile (\<lambda>c. c \<noteq> CHR '':'') first) \<or>
     hasControl (Trim (tl (dropWhile (\<lambda>c. c \<noteq> CHR '':'') first)) blanks)"

lemma starts_colon: "StartsAttribute t \<Longrightarrow> CHR '':'' \<in> set t"
proof -
  have "colon_before_hash s \<Longrightarrow> CHR '':'' \<in> set s" for s by (induction s) (auto split: if_splits)
  then show "StartsAttribute t \<Longrightarrow> CHR '':'' \<in> set t" by (auto simp: StartsAttribute_def split: if_splits)
qed

lemma formatAttr_line:
  assumes "proper ((t, e) # ls)" "aRaw a = raw_of ((t, e) # ls)" "StartsAttribute t"
  shows "formatAttr a opts = (if kept_line t opts then aRaw a else raw_of ((format_line t opts, e) # ls))"
proof -
  have nl: "LF \<notin> set t" using assms(1) by (simp add: ok_line_def)
  have cases: "e = [CR, LF] \<or> e = [LF] \<and> (t = [] \<or> List.last t \<noteq> CR) \<or> e = [CR] \<and> ls = [] \<or> e = [] \<and> ls = [] \<and> t \<noteq> [] \<and> List.last t \<noteq> CR"
    using assms(1) by (auto simp: ok_line_def)
  have c: "CHR '':'' \<in> set t" by (rule starts_colon [OF assms(3)])
  let ?f = "takeWhile (\<lambda>c. c \<noteq> LF) (aRaw a)"
  have f: "?f = t @ (if CR \<in> set e then [CR] else [])" "dropWhile (\<lambda>c. c \<noteq> LF) (aRaw a) = (if CR \<in> set e then tl e else e) @ raw_of ls"
    using cases span_LF [OF nl] unfolding assms(2) by auto
  have cr: "(?f \<noteq> [] \<and> List.last ?f = CR) = (CR \<in> set e)" using cases unfolding f(1) by auto
  have bl: "(if CR \<in> set e then butlast ?f else ?f) = t" unfolding f(1) by simp
  have ee: "(if CR \<in> set e then [CR] else []) @ (if CR \<in> set e then tl e else e) = e" using cases by auto
  define crs where "crs = (if CR \<in> set e then [CR] else [])"
  define rest where "rest = dropWhile (\<lambda>c. c \<noteq> LF) (aRaw a)"
  have cr_rest: "crs @ rest = e @ raw_of ls" using ee unfolding crs_def rest_def f(2) by (metis append.assoc)
  show ?thesis
    unfolding formatAttr_def kept_line_def format_line_def Let_def cr bl
    unfolding crs_def [symmetric] rest_def [symmetric] using c cr_rest by simp
qed

lemma no_control: "\<not> hasControl s \<Longrightarrow> LF \<notin> set s \<and> CR \<notin> set s"
  by (auto simp: hasControl_def list_ex_iff LF_def CR_def less_char_def)

lemma starts_split:
  assumes "StartsAttribute t"
  obtains nm r where "t = nm @ CHR '':'' # r" "list_all (\<lambda>c. c \<noteq> CHR '':'' \<and> c \<noteq> CHR ''#'') nm"
    "nm = [] \<or> hd nm \<notin> {CHR '' '', CHR 0x09, CHR ''+''}"
    "takeWhile (\<lambda>c. c \<noteq> CHR '':'') t = nm" "tl (dropWhile (\<lambda>c. c \<noteq> CHR '':'') t) = r"
proof -
  have "colon_before_hash s \<Longrightarrow> \<exists>nm r. s = nm @ CHR '':'' # r \<and> list_all (\<lambda>c. c \<noteq> CHR '':'' \<and> c \<noteq> CHR ''#'') nm" for s
  proof (induction s)
    case (Cons c s)
    show ?case
    proof (cases "c = CHR '':''")
      case True
      then have "c # s = [] @ CHR '':'' # s" by simp
      then show ?thesis by fastforce
    next
      case False
      then obtain nm r where "s = nm @ CHR '':'' # r" "list_all (\<lambda>c. c \<noteq> CHR '':'' \<and> c \<noteq> CHR ''#'') nm" "c \<noteq> CHR ''#''"
        using Cons by (auto split: if_splits)
      then have "c # s = (c # nm) @ CHR '':'' # r \<and> list_all (\<lambda>c. c \<noteq> CHR '':'' \<and> c \<noteq> CHR ''#'') (c # nm)" using False by simp
      then show ?thesis by blast
    qed
  qed simp
  moreover have "colon_before_hash t" using assms by (auto simp: StartsAttribute_def split: if_splits)
  ultimately obtain nm r where t: "t = nm @ CHR '':'' # r" "list_all (\<lambda>c. c \<noteq> CHR '':'' \<and> c \<noteq> CHR ''#'') nm" by blast
  have c: "\<forall>c \<in> set nm. c \<noteq> CHR '':''" using t(2) by (auto simp: list_all_iff)
  have "takeWhile (\<lambda>c. c \<noteq> CHR '':'') t = nm" "dropWhile (\<lambda>c. c \<noteq> CHR '':'') t = CHR '':'' # r"
    unfolding t(1) using c by (simp_all add: takeWhile_append2 dropWhile_append2)
  moreover have "nm = [] \<or> hd nm \<notin> {CHR '' '', CHR 0x09, CHR ''+''}"
    using assms by (cases nm) (auto simp: t(1) StartsAttribute_def split: if_splits)
  ultimately show thesis using t by (intro that) simp_all
qed

lemma lower_fixed: "lower c = d \<Longrightarrow> \<not> isLower d \<Longrightarrow> c = d"
  using isLower_lower [of c] lower_id [of c] by (cases "isUpper c") auto

lemma lower_keeps: "lower c = CHR '':'' \<longleftrightarrow> c = CHR '':''" "lower c = CHR ''#'' \<longleftrightarrow> c = CHR ''#''"
  "lower c = CHR ''+'' \<longleftrightarrow> c = CHR ''+''" "lower c = CHR '' '' \<longleftrightarrow> c = CHR '' ''" "lower c = CHR 0x09 \<longleftrightarrow> c = CHR 0x09"
  "lower c = LF \<longleftrightarrow> c = LF"
  using lower_fixed [of c] by (auto simp: lower_def byte_classes LF_def)

lemma lowered_name:
  "list_all (\<lambda>c. c \<noteq> CHR '':'' \<and> c \<noteq> CHR ''#'') (lowerASCII nm) = list_all (\<lambda>c. c \<noteq> CHR '':'' \<and> c \<noteq> CHR ''#'') nm"
  "(lowerASCII nm = [] \<or> hd (lowerASCII nm) \<notin> {CHR '' '', CHR 0x09, CHR ''+''}) = (nm = [] \<or> hd nm \<notin> {CHR '' '', CHR 0x09, CHR ''+''})"
  "CanonicalName (lowerASCII nm) = CanonicalName nm" "LF \<in> set (lowerASCII nm) \<longleftrightarrow> LF \<in> set nm"
proof -
  show "(lowerASCII nm = [] \<or> hd (lowerASCII nm) \<notin> {CHR '' '', CHR 0x09, CHR ''+''}) = (nm = [] \<or> hd nm \<notin> {CHR '' '', CHR 0x09, CHR ''+''})"
    by (cases nm) (simp_all add: lowerASCII_def lower_keeps)
  show "LF \<in> set (lowerASCII nm) \<longleftrightarrow> LF \<in> set nm" by (induction nm) (simp_all add: lowerASCII_def lower_keeps eq_commute [of LF])
qed (simp_all add: lowerASCII_def list_all_iff lower_keeps CanonicalName_lower)

text \<open>The rewritten name line reads as the name and the value of the old one.\<close>

lemma format_line_ok:
  assumes "StartsAttribute t" "\<not> kept_line t opts"
  shows "StartsAttribute (format_line t opts)" "fst (splitAttr (format_line t opts)) = fst (splitAttr t)"
    "fst (snd (splitAttr (format_line t opts))) = fst (snd (splitAttr t))"
    "LF \<notin> set (format_line t opts)" "format_line t opts \<noteq> []" "List.last (format_line t opts) \<noteq> CR"
proof -
  obtain nm r where t: "t = nm @ CHR '':'' # r" "list_all (\<lambda>c. c \<noteq> CHR '':'' \<and> c \<noteq> CHR ''#'') nm"
    "nm = [] \<or> hd nm \<notin> {CHR '' '', CHR 0x09, CHR ''+''}"
    "takeWhile (\<lambda>c. c \<noteq> CHR '':'') t = nm" "tl (dropWhile (\<lambda>c. c \<noteq> CHR '':'') t) = r"
    by (rule starts_split [OF assms(1)])
  define nm' where "nm' = (if LowerNames opts then lowerASCII nm else nm)"
  have nc: "LF \<notin> set nm" "LF \<notin> set (Trim r blanks)" "CR \<notin> set (Trim r blanks)"
    using assms(2) no_control unfolding kept_line_def t(4,5) by blast+
  have nm': "list_all (\<lambda>c. c \<noteq> CHR '':'' \<and> c \<noteq> CHR ''#'') nm'" "nm' = [] \<or> hd nm' \<notin> {CHR '' '', CHR 0x09, CHR ''+''}"
    "CanonicalName nm' = CanonicalName nm" "LF \<notin> set nm'"
    using t(2,3) nc(1) lowered_name [of nm] unfolding nm'_def by (simp_all split: if_split)
  obtain r' where f: "format_line t opts = nm' @ CHR '':'' # r'" and
    r': "(r' = [] \<and> Trim r blanks = []) \<or> (\<exists>sep. r' = sep @ Trim r blanks \<and> list_all is_blank sep \<and> Trim r blanks \<noteq> [])"
  proof (cases "Trim r blanks = []")
    case True
    then show ?thesis by (intro that [of "[]"]) (simp_all add: format_line_def t(4,5) nm'_def)
  next
    case False
    let ?sep = "if Align opts > 0 then if Align opts - int (length nm') - 2 > 1 then replicate (nat (Align opts - int (length nm') - 2)) (CHR '' '') else '' ''
              else takeWhile (\<lambda>c. c \<in> set blanks) r"
    have "list_all is_blank ?sep" by (auto simp: list_all_iff is_blank_def blanks_def dest: set_takeWhileD)
    then show ?thesis using False by (intro that [of "?sep @ Trim r blanks"]) (auto simp: format_line_def t(4,5) nm'_def Let_def)
  qed
  have v: "Trim (cut_comment r') blanks = Trim (cut_comment r) blanks"
    using r'
  proof
    assume "r' = [] \<and> Trim r blanks = []"
    then show ?thesis using Trim_cut [of r] by simp
  next
    assume "\<exists>sep. r' = sep @ Trim r blanks \<and> list_all is_blank sep \<and> Trim r blanks \<noteq> []"
    then obtain sep where s: "r' = sep @ Trim r blanks" "list_all is_blank sep" by blast
    have "cut_comment r' = sep @ cut_comment (Trim r blanks)"
      unfolding s(1) cut_comment_def using s(2) by (intro takeWhile_append2) (auto simp: list_all_iff blank_chars)
    then show ?thesis using Trim_cut [of r] by (simp add: Trim_blank_left [OF s(2)])
  qed
  note new = name_line_split [OF nm'(1), of r'] and old = name_line_split [OF t(2), of r]
  show "StartsAttribute (format_line t opts)" using new(3) nm'(2) by (simp add: f)
  show "fst (splitAttr (format_line t opts)) = fst (splitAttr t)" unfolding f using new(1) old(1) nm'(3) by (simp add: t(1))
  show "fst (snd (splitAttr (format_line t opts))) = fst (snd (splitAttr t))" unfolding f using new(2) old(2) v by (simp add: t(1))
  have "LF \<notin> set r'" using r' nc(2) blank_not [of LF] by (auto simp: list_all_iff)
  then show "LF \<notin> set (format_line t opts)" using nm'(4) by (simp add: f) (simp add: LF_def)
  show "format_line t opts \<noteq> []" by (simp add: f)
  show "List.last (format_line t opts) \<noteq> CR"
  proof (cases "r' = []")
    case True
    then show ?thesis by (simp add: f CR_def)
  next
    case False
    then obtain sep where "r' = sep @ Trim r blanks" "Trim r blanks \<noteq> []" using r' by blast
    then show ?thesis using nc(3) by (simp add: f) (metis last_in_set)
  qed
qed

subsection \<open>Formatted objects\<close>

lemma formatAttr_ok:
  assumes "attr_ok a"
  shows "attr_ok (a\<lparr>aRaw := formatAttr a opts\<rparr>)" "closed (formatAttr a opts) = closed (aRaw a)"
proof -
  obtain t e ls where l: "lines_of (aRaw a) = (t, e) # ls" and st: "StartsAttribute t"
    using assms by (cases "lines_of (aRaw a)") (auto simp: attr_ok_def name_first_def)
  have pr: "proper ((t, e) # ls)" using proper_lines_of [of "aRaw a"] by (simp add: l)
  have raw: "aRaw a = raw_of ((t, e) # ls)" using raw_of_lines_of [of "aRaw a"] by (simp add: l)
  note fl = formatAttr_line [OF pr raw st, of opts]
  have "attr_ok (a\<lparr>aRaw := formatAttr a opts\<rparr>) \<and> closed (formatAttr a opts) = closed (aRaw a)"
  proof (cases "kept_line t opts")
    case True
    then show ?thesis using assms fl by simp
  next
    case False
    note ok = format_line_ok [OF st False]
    let ?t = "format_line t opts"
    have f: "formatAttr a opts = raw_of ((?t, e) # ls)" using fl False by simp
    have pr': "proper ((?t, e) # ls)" using pr ok(4-6) by (auto simp: ok_line_def)
    have l': "lines_of (formatAttr a opts) = (?t, e) # ls" unfolding f by (rule lines_of_raw_of [OF pr'])
    have la: "line_attr (?t, e) cs = line_attr (t, e) cs" for cs
      using ok(2,3) by (simp add: line_attr_def split_def Let_def)
    have "attrs_in (formatAttr a opts) = attrs_in (aRaw a)"
      unfolding attrs_in_def l l' using st ok(1) la by simp
    moreover have "name_first (formatAttr a opts)" unfolding name_first_def l' using ok(1) by simp
    moreover have "closed (formatAttr a opts) = closed (aRaw a)"
      unfolding f raw closed_lines [OF pr] closed_lines [OF pr'] by (cases ls) simp_all
    ultimately show ?thesis using assms by (simp add: attr_ok_def view_def)
  qed
  then show "attr_ok (a\<lparr>aRaw := formatAttr a opts\<rparr>)" "closed (formatAttr a opts) = closed (aRaw a)" by blast+
qed

definition formatted :: "FormatOptions \<Rightarrow> Attribute \<Rightarrow> Attribute" where
  "formatted opts a = a\<lparr>aRaw := formatAttr a opts\<rparr>"

lemma Format_text: "obj_Format (Some obj) opts = obj_String (Some (obj\<lparr>oattrs := map (formatted opts) (oattrs obj)\<rparr>))"
  by (simp add: formatted_def comp_def)

lemma formatted_coherent:
  assumes "coherent obj"
  shows "coherent (obj\<lparr>oattrs := map (formatted opts) (oattrs obj)\<rparr>)"
proof -
  let ?f = "formatted opts"
  have j: "joined (oattrs obj) (otrail obj)" using assms by (simp add: coherent_flat)
  have ok: "a \<in> set (oattrs obj) \<Longrightarrow> attr_ok (?f a) \<and> closed (aRaw (?f a)) = closed (aRaw a) \<and> alead (?f a) = alead a" for a
    using j formatAttr_ok [of a opts] by (simp add: joined_def list_all_iff formatted_def)
  have lead: "alead (?f a) = alead a" for a by (simp add: formatted_def)
  have "joined (map ?f (oattrs obj)) (otrail obj)"
    using j ok in_set_butlastD [of _ "oattrs obj"] last_in_set [of "oattrs obj"]
    unfolding joined_def map_butlast [symmetric] map_tl [symmetric]
    by (auto simp: list_all_iff lead last_map)
  then show ?thesis by (simp add: coherent_flat)
qed

end
