(* ===== verification/Ast_Properties.thy ===== *)
theory Ast_Properties
  imports Ast_Format
begin

text \<open>
  The promises of the object model: parsing is lossless, an edited, built or re-formatted object reads
  back as what was written.
\<close>

subsection \<open>Objects the package makes\<close>

inductive made :: "Object \<Rightarrow> bool" where
  made_parsed: "made (New (TokenizeAt s line bo))"
| made_append: "made obj \<Longrightarrow> Append obj name v = Some obj' \<Longrightarrow> made obj'"
| made_set: "made obj \<Longrightarrow> Set obj name vs = Some obj' \<Longrightarrow> made obj'"

definition reread :: "string \<Rightarrow> (string \<times> string) list" where
  "reread s = map view (oattrs (New (Tokenize s)))"

lemma reread_attrs: "reread s = attrs_in s"
  by (simp add: reread_def Tokenize_def New_views)

lemma made_editable: "made obj \<Longrightarrow> editable obj"
proof (induction rule: made.induct)
  case (made_append obj name v obj')
  then show ?case by (blast intro: Append_editable(1))
next
  case (made_set obj name vs obj')
  then show ?case by (blast intro: Set_editable(1))
qed (rule parsed_editable)

lemma editable_text: "editable obj \<Longrightarrow> reread (obj_String (Some obj)) = map view (oattrs obj)"
  unfolding reread_attrs editable_def by (blast intro: coherent_text)

text \<open>(C18) Parsing loses nothing: the text of a parsed object is its source, byte for byte, so
  parsing it again gives the same attributes.\<close>

theorem object_lossless:
  "obj_String (Some (New (TokenizeAt s line bo))) = s \<and>
   reread (obj_String (Some (New (TokenizeAt s line bo)))) = map view (Attributes (Some (New (TokenizeAt s line bo))))"
proof -
  have "joinRaw (map (tok_of lb bo) us) = concat (map pl_raw (concat (map unit_lines us)))" for lb us
  proof (induction us)
    case (Cons u us)
    have "tRaw (tok_of lb bo u) = concat (map pl_raw (unit_lines u))" by (cases u) (simp_all split: prod.split)
    then show ?case using Cons by (simp add: joinRaw_def)
  qed (simp add: joinRaw_def)
  then have "obj_String (Some (New (TokenizeAt s line bo))) = s"
    unfolding New_text TokenizeAt_units by (simp add: units_lines scanLines_def scan_tiles)
  then show ?thesis by (simp add: reread_attrs New_views)
qed

text \<open>(C19) The text of any object the package can make, by parsing and any sequence of Append and Set,
  parses back to the attributes the object holds, in order.\<close>

theorem edits_reparse:
  assumes "made obj"
  shows "reread (obj_String (Some obj)) = map view (oattrs obj)"
  by (rule editable_text [OF made_editable [OF assms]])

lemma Set_none: "Set obj name vs = None \<longleftrightarrow> checkAttr name [] = None \<or> list_ex (\<lambda>v. checkAttr (CanonicalName name) v = None) vs"
proof (cases "checkAttr name []")
  case (Some n)
  then have "n = CanonicalName name" unfolding checkAttr_Some by blast
  then show ?thesis using Some by (simp add: Set_def Let_def split_def)
qed (simp add: Set_def)

text \<open>(C20) Set: the replacement values read back where the first occurrence was, later occurrences are
  gone and the rest is unchanged; with the attribute present, every comment and blank line and the raw
  text of every other attribute are kept.  It fails exactly on an invalid name or value.\<close>

theorem Set_reads_back:
  assumes "made obj"
  shows "(Set obj name vs = None \<longleftrightarrow>
            checkAttr name [] = None \<or> list_ex (\<lambda>v. checkAttr (CanonicalName name) v = None) vs) \<and>
         (\<forall>obj'. Set obj name vs = Some obj' \<longrightarrow>
            reread (obj_String (Some obj')) = set_spec (CanonicalName name) (map folded vs) (map view (oattrs obj)) \<and>
            (Has (Some obj) name \<longrightarrow>
               concat (map alead (oattrs obj')) @ otrail obj' = concat (map alead (oattrs obj)) @ otrail obj \<and>
               map aRaw (filter (\<lambda>a. aName a \<noteq> CanonicalName name) (oattrs obj')) =
                 map aRaw (filter (\<lambda>a. aName a \<noteq> CanonicalName name) (oattrs obj))))"
proof -
  have ed: "editable obj" by (rule made_editable [OF assms])
  note s = Set_editable [OF ed]
  show ?thesis using Set_none editable_text [OF s(1)] s(2,3) by simp
qed

lemma Add_fold:
  "\<not> berr b \<Longrightarrow> editable (bobj b) \<Longrightarrow>
   (berr (fold (\<lambda>(n, v) b. Add b n v) adds b) \<longleftrightarrow> list_ex (\<lambda>(n, v). checkAttr n v = None) adds) \<and>
   (\<not> berr (fold (\<lambda>(n, v) b. Add b n v) adds b) \<longrightarrow>
      editable (bobj (fold (\<lambda>(n, v) b. Add b n v) adds b)) \<and>
      map view (oattrs (bobj (fold (\<lambda>(n, v) b. Add b n v) adds b))) =
        map view (oattrs (bobj b)) @ map (\<lambda>(n, v). (CanonicalName n, folded v)) adds)"
proof (induction adds arbitrary: b)
  case (Cons a adds)
  obtain n v where a: "a = (n, v)" by (cases a)
  have stuck: "berr b \<Longrightarrow> fold (\<lambda>(n, v) b. Add b n v) adds b = b" for b by (induction adds) (auto simp: Add_def)
  show ?case
  proof (cases "Append (bobj b) n v")
    case None
    then have "checkAttr n v = None" by (auto simp: Append_def split: option.splits)
    then show ?thesis using None Cons.prems stuck by (simp add: a Add_def)
  next
    case (Some obj)
    then obtain y where "checkAttr n v = Some y" by (auto simp: Append_def split: option.splits)
    then show ?thesis using Cons.IH [of "b\<lparr>bobj := obj\<rparr>"] Append_editable [OF Cons.prems(2) Some] Some Cons.prems(1)
      by (simp add: a Add_def)
  qed
qed simp

lemma empty_object: "editable (New [])" "oattrs (New []) = []"
proof -
  have "TokenizeAt [] 1 0 = []" by (simp add: TokenizeAt_units scanLines_def)
  then show "editable (New [])" using parsed_editable [of "[]" 1 0] by simp
  show "oattrs (New []) = []" by (simp add: New_def)
qed

text \<open>(C21) A builder fails exactly when one of its attributes is invalid, and otherwise the text it
  builds parses back to the given attributes in order, names canonical and values folded.\<close>

theorem Builder_reads_back:
  "(Build (fold (\<lambda>(n, v) b. Add b n v) adds (NewBuilder cls key)) = None \<longleftrightarrow>
      list_ex (\<lambda>(n, v). checkAttr n v = None) ((cls, key) # adds)) \<and>
   (\<forall>obj. Build (fold (\<lambda>(n, v) b. Add b n v) adds (NewBuilder cls key)) = Some obj \<longrightarrow>
      reread (builder_String (fold (\<lambda>(n, v) b. Add b n v) adds (NewBuilder cls key))) =
        map (\<lambda>(n, v). (CanonicalName n, folded v)) ((cls, key) # adds))"
proof -
  let ?b = "\<lparr>bobj = New [], berr = False\<rparr>"
  have b: "fold (\<lambda>(n, v) b. Add b n v) adds (NewBuilder cls key) = fold (\<lambda>(n, v) b. Add b n v) ((cls, key) # adds) ?b"
    by (simp add: NewBuilder_def)
  define adds' where "adds' = (cls, key) # adds"
  define b' where "b' = fold (\<lambda>(n, v) b. Add b n v) adds' ?b"
  have "(berr b' \<longleftrightarrow> list_ex (\<lambda>(n, v). checkAttr n v = None) adds') \<and>
      (\<not> berr b' \<longrightarrow> editable (bobj b') \<and> map view (oattrs (bobj b')) = map (\<lambda>(n, v). (CanonicalName n, folded v)) adds')"
    using Add_fold [of ?b adds'] empty_object unfolding b'_def by simp
  then show ?thesis
    unfolding b adds'_def [symmetric] b'_def [symmetric] using editable_text [of "bobj b'"]
    by (auto simp: Build_def builder_String_def)
qed

text \<open>(C22) Re-formatting changes only layout: for any options the formatted text of an object parses
  back to the same names and values.\<close>

theorem Format_reads_back:
  assumes "made obj"
  shows "reread (obj_Format (Some obj) opts) = map view (oattrs obj)"
proof -
  have "coherent obj" using made_editable [OF assms] by (simp add: editable_def)
  then have "attrs_in (obj_Format (Some obj) opts) = map view (map (formatted opts) (oattrs obj))"
    unfolding Format_text using coherent_text [OF formatted_coherent] by simp
  then show ?thesis by (simp add: reread_attrs formatted_def view_def comp_def)
qed

subsection \<open>Examples\<close>

definition sample_source :: string where
  "sample_source = ''mntner:  FOO-MNT'' @ [LF] @ ''# note'' @ [LF] @ ''descr: one'' @ [CR, LF] @ ''+ two # rest'' @ [LF] @ ''Descr: x''"

definition sample_object :: Object where
  "sample_object = New (Tokenize sample_source)"

lemma sample_made: "made sample_object"
  unfolding sample_object_def Tokenize_def by (rule made_parsed)

lemma sample_views:
  "map view (oattrs sample_object) = [(''mntner'', ''FOO-MNT''), (''descr'', ''one'' @ [LF] @ ''two''), (''descr'', ''x'')]"
  by code_simp

theorem edits_reparse_witness:
  "made sample_object \<and> reread (obj_String (Some sample_object)) =
     [(''mntner'', ''FOO-MNT''), (''descr'', ''one'' @ [LF] @ ''two''), (''descr'', ''x'')]"
  using edits_reparse [OF sample_made] sample_made sample_views by simp

theorem Set_reads_back_witness:
  "made sample_object \<and> Has (Some sample_object) ''DESCR'' \<and>
   (\<exists>obj'. Set sample_object ''Descr'' [''new'', '' more ''] = Some obj' \<and>
      reread (obj_String (Some obj')) = [(''mntner'', ''FOO-MNT''), (''descr'', ''new''), (''descr'', ''more'')])"
proof -
  have "Set sample_object ''Descr'' [''new'', '' more ''] \<noteq> None" "Has (Some sample_object) ''DESCR''"
    "set_spec (CanonicalName ''Descr'') (map folded [''new'', '' more '']) (map view (oattrs sample_object)) =
       [(''mntner'', ''FOO-MNT''), (''descr'', ''new''), (''descr'', ''more'')]"
    by code_simp+
  then show ?thesis using Set_reads_back [OF sample_made, of "''Descr''" "[''new'', '' more '']"] sample_made by auto
qed

theorem Builder_reads_back_witness:
  "\<exists>obj. Build (fold (\<lambda>(n, v) b. Add b n v) [(''Admin-C'', ''A1'')] (NewBuilder ''route'' ''192.0.2.0/24'')) = Some obj \<and>
     reread (builder_String (fold (\<lambda>(n, v) b. Add b n v) [(''Admin-C'', ''A1'')] (NewBuilder ''route'' ''192.0.2.0/24''))) =
       [(''route'', ''192.0.2.0/24''), (''admin-c'', ''A1'')]"
proof -
  have "\<not> list_ex (\<lambda>(n, v). checkAttr n v = None) [(''route'', ''192.0.2.0/24''), (''Admin-C'', ''A1'')]"
    "map (\<lambda>(n, v). (CanonicalName n, folded v)) [(''route'', ''192.0.2.0/24''), (''Admin-C'', ''A1'')] =
       [(''route'', ''192.0.2.0/24''), (''admin-c'', ''A1'')]"
    by code_simp+
  then show ?thesis using Builder_reads_back [of "[(''Admin-C'', ''A1'')]" "''route''" "''192.0.2.0/24''"] by auto
qed

theorem Format_reads_back_witness:
  "made sample_object \<and> reread (obj_Format (Some sample_object) \<lparr>Align = 16, LowerNames = True\<rparr>) =
     [(''mntner'', ''FOO-MNT''), (''descr'', ''one'' @ [LF] @ ''two''), (''descr'', ''x'')]"
  using Format_reads_back [OF sample_made] sample_made sample_views by simp

end
