(* ===== verification/Addr_Order.thy ===== *)
theory Addr_Order
  imports Addr_Range "HOL-Library.Char_ord"
begin

text \<open>
  The order of addresses, \<^verbatim>\<open>netip.Addr.Compare\<close>: by family, then by value, then by zone.  It is total, so
  addresses are a linear order.
\<close>

fun bytes_less :: "string \<Rightarrow> string \<Rightarrow> bool" where
  "bytes_less s [] = False"
| "bytes_less [] (c # t) = True"
| "bytes_less (c # s) (d # t) = (c < d \<or> (c = d \<and> bytes_less s t))"

text \<open>\<^verbatim>\<open>netip.Addr.Compare\<close>: by family, then by value, then by zone.\<close>

definition addr_Compare :: "addr \<Rightarrow> addr \<Rightarrow> int" where
  "addr_Compare a b =
     (if BitLen a < BitLen b then -1 else if BitLen b < BitLen a then 1
      else if num a < num b then -1 else if num b < num a then 1
      else if bytes_less (zone a) (zone b) then -1 else if bytes_less (zone b) (zone a) then 1
      else 0)"

lemma bytes_less_irrefl [simp]: "\<not> bytes_less s s"
  by (induction s) auto

lemma bytes_less_trans: "bytes_less s t \<Longrightarrow> bytes_less t u \<Longrightarrow> bytes_less s u"
proof (induction s t arbitrary: u rule: bytes_less.induct)
  case (2 c t)
  then show ?case by (cases u) auto
next
  case (3 c s d t)
  then show ?case by (cases u) auto
qed simp

lemma bytes_less_total: "s \<noteq> t \<Longrightarrow> bytes_less s t \<or> bytes_less t s"
  by (induction s t rule: bytes_less.induct) (auto simp: neq_Nil_conv)

lemma bytes_less_asym: "bytes_less s t \<Longrightarrow> \<not> bytes_less t s"
  using bytes_less_trans bytes_less_irrefl by blast

lemma addr_Compare_neg:
  "addr_Compare a b < 0 \<longleftrightarrow> BitLen a < BitLen b \<or> BitLen a = BitLen b \<and>
     (num a < num b \<or> num a = num b \<and> bytes_less (zone a) (zone b))"
  by (auto simp: addr_Compare_def)

lemma addr_Compare_swap: "addr_Compare b a = - addr_Compare a b"
  by (auto simp: addr_Compare_def dest: bytes_less_asym)

lemma addr_Compare_0 [simp]: "addr_Compare a b = 0 \<longleftrightarrow> a = b"
proof
  assume c: "addr_Compare a b = 0"
  then have "BitLen a = BitLen b" "num a = num b" "zone a = zone b"
    using bytes_less_total [of "zone a" "zone b"] by (auto simp: addr_Compare_def split: if_splits)
  then show "a = b" by (cases a; cases b) (auto simp: word_unat_eq_iff)
qed (simp add: addr_Compare_def)

instantiation addr :: linorder
begin

definition less_addr :: "addr \<Rightarrow> addr \<Rightarrow> bool" where
  "less_addr a b \<longleftrightarrow> addr_Compare a b < 0"

definition less_eq_addr :: "addr \<Rightarrow> addr \<Rightarrow> bool" where
  "less_eq_addr a b \<longleftrightarrow> addr_Compare a b \<le> 0"

instance
proof
  fix a b c :: addr
  have sw: "addr_Compare b a = - addr_Compare a b" for a b by (rule addr_Compare_swap)
  show "(a < b) = (a \<le> b \<and> \<not> b \<le> a)" using sw [of a b] unfolding less_addr_def less_eq_addr_def by linarith
  show "a \<le> a" by (simp add: less_eq_addr_def addr_Compare_def)
  show "a \<le> b \<Longrightarrow> b \<le> a \<Longrightarrow> a = b"
    using sw [of a b] unfolding less_eq_addr_def by (metis addr_Compare_0 neg_le_0_iff_le order_antisym)
  show "a \<le> b \<or> b \<le> a" using sw [of a b] unfolding less_eq_addr_def by linarith
  have "addr_Compare a b < 0 \<Longrightarrow> addr_Compare b c < 0 \<Longrightarrow> addr_Compare a c < 0"
    unfolding addr_Compare_neg by (auto intro: bytes_less_trans)
  then show "a \<le> b \<Longrightarrow> b \<le> c \<Longrightarrow> a \<le> c"
    unfolding less_eq_addr_def by (metis addr_Compare_0 order_le_less)
qed

end

lemma Compare_order: "addr_Compare a b < 0 \<longleftrightarrow> a < b" "addr_Compare a b \<le> 0 \<longleftrightarrow> a \<le> b" "addr_Compare a b > 0 \<longleftrightarrow> b < a"
  using addr_Compare_swap [of b a] by (auto simp: less_addr_def less_eq_addr_def)

lemma order_num:
  "a \<le> b \<and> zone a = [] \<and> zone b = [] \<and> BitLen a = BitLen b \<longleftrightarrow>
   num a \<le> num b \<and> zone a = [] \<and> zone b = [] \<and> BitLen a = BitLen b"
  by (auto simp: less_eq_addr_def addr_Compare_def)

end
