(* ===== verification/Typed_Objects.thy ===== *)
theory Typed_Objects
  imports Addr_Order Text_Forms Addr_Range Ast_Object
begin

text \<open>
  The typed objects (\<^verbatim>\<open>src/object\<close>): of each class the fields that authorising and expanding read, the interface
  \<^verbatim>\<open>object.Object\<close>, which may hold no object or a typed nil, the \<^verbatim>\<open>auth:\<close> lines of maintainers, and the address
  range of a reverse domain.  Case mapping is that of ASCII text.
\<close>

subsection \<open>Standard library\<close>

definition EqualFold :: "string \<Rightarrow> string \<Rightarrow> bool" where
  "EqualFold s t \<longleftrightarrow> ToLower s = ToLower t"

definition HasSuffix :: "string \<Rightarrow> string \<Rightarrow> bool" where
  "HasSuffix s suf \<longleftrightarrow> HasPrefix (rev s) (rev suf)"

text \<open>\<^verbatim>\<open>strconv.Atoi\<close> of a short string: an optional sign and digits.\<close>

definition Atoi :: "string \<Rightarrow> int option" where
  "Atoi s =
     (let (neg, ds) = (case s of c # r \<Rightarrow> if c = CHR ''-'' then (True, r) else if c = CHR ''+'' then (False, r) else (False, s)
                       | [] \<Rightarrow> (False, s)) in
      if ds = [] \<or> \<not> list_all isDigit ds then None
      else Some (if neg then - int (dec_val ds) else int (dec_val ds)))"

definition AddrFrom4 :: "u8 list \<Rightarrow> addr" where
  "AddrFrom4 bs = IPv4 (of_bytes bs)"

definition AddrFrom16 :: "u8 list \<Rightarrow> addr" where
  "AddrFrom16 bs = IPv6 (of_bytes bs) []"

subsection \<open>Authentication schemes\<close>

datatype AuthMethod = AuthUnknown | AuthNone | AuthMD5 | AuthCrypt | AuthPGPKey | AuthX509 | AuthSSO | AuthBcrypt
  | AuthMailFrom | AuthIRRdInternal

fun method_String :: "AuthMethod \<Rightarrow> string" where
  "method_String AuthNone = ''NONE''"
| "method_String AuthMD5 = ''MD5-PW''"
| "method_String AuthCrypt = ''CRYPT-PW''"
| "method_String AuthPGPKey = ''PGPKEY''"
| "method_String AuthX509 = ''X509''"
| "method_String AuthSSO = ''SSO''"
| "method_String AuthBcrypt = ''BCRYPT-PW''"
| "method_String AuthMailFrom = ''MAIL-FROM''"
| "method_String AuthIRRdInternal = ''IRRD-INTERNAL-AUTH''"
| "method_String AuthUnknown = ''unknown''"

record Auth =
  authMethod :: AuthMethod
  authValue :: string
  authRaw :: string

definition auth_String :: "Auth \<Rightarrow> string" where
  "auth_String a = authRaw a"

text \<open>The offset of the first white-space character.\<close>

fun space_index :: "string \<Rightarrow> nat option" where
  "space_index [] = None"
| "space_index (c # s) =
     (if list_ex (\<lambda>p. HasPrefix (c # s) p) space_seqs then Some 0 else map_option Suc (space_index s))"

definition cutSpace :: "string \<Rightarrow> string \<times> string" where
  "cutSpace s = (case space_index s of None \<Rightarrow> (s, []) | Some i \<Rightarrow> (take i s, TrimLeftSpace (drop i s)))"

text \<open>\<^verbatim>\<open>ParseAuth\<close> returns the value it could read and whether it failed.\<close>

definition ParseAuth :: "string \<Rightarrow> Auth \<times> bool" where
  "ParseAuth s =
     (let raw = TrimSpace s; a = \<lparr>authMethod = AuthUnknown, authValue = [], authRaw = raw\<rparr> in
      if raw = [] then (a, True)
      else let (word, rest) = cutSpace raw; cred = TrimSpace rest; up = ToUpper word;
               mv = (if up = ''NONE'' then Some (AuthNone, [])
                     else if up = ''MD5-PW'' then Some (AuthMD5, cred)
                     else if up = ''CRYPT-PW'' then Some (AuthCrypt, cred)
                     else if up = ''SSO'' then Some (AuthSSO, cred)
                     else if up = ''BCRYPT-PW'' then Some (AuthBcrypt, cred)
                     else if up = ''MAIL-FROM'' then Some (AuthMailFrom, cred)
                     else if up = ''IRRD-INTERNAL-AUTH'' then Some (AuthIRRdInternal, [])
                     else if HasPrefix up ''PGPKEY-'' then Some (AuthPGPKey, word)
                     else if HasPrefix up ''X509-'' then Some (AuthX509, word)
                     else None) in
        case mv of
          None \<Rightarrow> (a, True)
        | Some (m, v) \<Rightarrow>
            (a\<lparr>authMethod := m, authValue := v\<rparr>, v = [] \<and> m \<noteq> AuthNone \<and> m \<noteq> AuthIRRdInternal))"

subsection \<open>Members of sets\<close>

datatype MemberKind = MemberInvalid | MemberAS | MemberSet | MemberPrefixRange

record SetMember =
  mKind :: MemberKind
  mAS :: asn
  mSet :: SetName
  mSource :: string
  mRange :: PrefixRange
  mOp :: RangeOperator
  mRaw :: string

datatype RtrMemberKind = RtrMemberInvalid | RtrMemberRouter | RtrMemberSet

record RtrSetMember =
  rmKind :: RtrMemberKind
  rmRouter :: RouterID
  rmSet :: SetName
  rmRaw :: string

text \<open>A peering is a reference to a peering-set, or known by its canonical text.\<close>

datatype Peering = PeeringSetRef SetName | PeeringSpec string

subsection \<open>Objects\<close>

record MntRoutes =
  mrMntner :: string
  mrAny :: bool
  mrRanges :: "PrefixRange list"

text \<open>The attributes shared by the classes (the embedded \<^verbatim>\<open>Common\<close> and \<^verbatim>\<open>Registry\<close>) and the lossless source.\<close>

record Common =
  MntBy :: "string list"
  osource :: string

record Registry = Common +
  MntLower :: "string list"
  MntRoutes :: "MntRoutes list"
  MntIrt :: "string list"
  oraw :: "Object option"

record Route = Registry +
  rPrefix :: prefix
  rOrigin :: asn
  rMemberOf :: "SetName list"

record Inetnum = Registry +
  inLo :: addr
  inHi :: addr

record Inet6num = Registry +
  in6Prefix :: prefix

record AsBlock = Registry +
  abLo :: asn
  abHi :: asn

record AutNum = Registry +
  anAS :: asn
  anMemberOf :: "SetName list"

record InetRtr = Registry +
  irName :: string
  irMemberOf :: "SetName list"

record Person = Registry +
  NicHdl :: string

record Domain = Registry +
  dName :: string

record Mntner = Registry +
  Handle :: string
  mAuth :: "Auth list"
  ReferralBy :: "string list"

record Irt = Registry +
  irtAuth :: "Auth list"

text \<open>The five classes of sets share one record; a class has the members of its kind.\<close>

record SetObject = Registry +
  sName :: SetName
  sMembers :: "SetMember list"
  sMpMembers :: "SetMember list"
  sSrcMembers :: "SetMember list"
  sRouters :: "RtrSetMember list"
  sMpRouters :: "RtrSetMember list"
  sPeerings :: "Peering list"
  sMpPeerings :: "Peering list"
  sMbrsByRef :: "string list"

datatype set_kind = AsSet | RouteSet | RtrSet | PeeringSet | FilterSet

text \<open>A class without a field of its own here is \<^verbatim>\<open>OOther\<close>, and one without a decoder \<^verbatim>\<open>OGeneric\<close>.\<close>

datatype object =
    ORoute Route | ORoute6 Route | OInetnum Inetnum | OInet6num Inet6num | OAsBlock AsBlock | OAutNum AutNum
  | OInetRtr InetRtr | OPerson Person | ORole Person | ODomain Domain | OMntner Mntner | OIrt Irt | OSet set_kind SetObject
  | OOther string "Object option" | OGeneric "Object option"

text \<open>An interface value: nil, a typed nil, or an object.\<close>

datatype iface = Nil | NilPtr | Ptr object

fun isNilObject :: "iface \<Rightarrow> bool" where
  "isNilObject (Ptr o') = False"
| "isNilObject _ = True"

fun kind_Class :: "set_kind \<Rightarrow> string" where
  "kind_Class AsSet = ''as-set''"
| "kind_Class RouteSet = ''route-set''"
| "kind_Class RtrSet = ''rtr-set''"
| "kind_Class PeeringSet = ''peering-set''"
| "kind_Class FilterSet = ''filter-set''"

fun object_Class :: "object \<Rightarrow> string" where
  "object_Class (ORoute _) = ''route''"
| "object_Class (ORoute6 _) = ''route6''"
| "object_Class (OInetnum _) = ''inetnum''"
| "object_Class (OInet6num _) = ''inet6num''"
| "object_Class (OAsBlock _) = ''as-block''"
| "object_Class (OAutNum _) = ''aut-num''"
| "object_Class (OInetRtr _) = ''inet-rtr''"
| "object_Class (OPerson _) = ''person''"
| "object_Class (ORole _) = ''role''"
| "object_Class (ODomain _) = ''domain''"
| "object_Class (OMntner _) = ''mntner''"
| "object_Class (OIrt _) = ''irt''"
| "object_Class (OSet k _) = kind_Class k"
| "object_Class (OOther c _) = c"
| "object_Class (OGeneric r) = obj_Class r"

fun object_Raw :: "object \<Rightarrow> Object option" where
  "object_Raw (ORoute t) = oraw t"
| "object_Raw (ORoute6 t) = oraw t"
| "object_Raw (OInetnum t) = oraw t"
| "object_Raw (OInet6num t) = oraw t"
| "object_Raw (OAsBlock t) = oraw t"
| "object_Raw (OAutNum t) = oraw t"
| "object_Raw (OInetRtr t) = oraw t"
| "object_Raw (OPerson t) = oraw t"
| "object_Raw (ORole t) = oraw t"
| "object_Raw (ODomain t) = oraw t"
| "object_Raw (OMntner t) = oraw t"
| "object_Raw (OIrt t) = oraw t"
| "object_Raw (OSet _ t) = oraw t"
| "object_Raw (OOther _ r) = r"
| "object_Raw (OGeneric r) = r"

subsection \<open>Reverse domains\<close>

definition parseOctet :: "string \<Rightarrow> u8 option" where
  "parseOctet s =
     (if s = [] \<or> length s > 3 \<or> (length s > 1 \<and> hd s = CHR ''0'') then None
      else case Atoi s of
             None \<Rightarrow> None
           | Some n \<Rightarrow> if n > 255 then None else Some (word_of_int n))"

text \<open>The loop of \<^verbatim>\<open>reverseV4\<close>: the octets from and to, most significant first.\<close>

fun reverseV4_loop :: "nat \<Rightarrow> nat \<Rightarrow> string list \<Rightarrow> u8 list \<Rightarrow> u8 list \<Rightarrow> (u8 list \<times> u8 list) option" where
  "reverseV4_loop n i [] fr to = Some (fr, to)"
| "reverseV4_loop n i (l # ls) fr to =
     (let octet = n - 1 - i; (a, b, isRange) = Cut l ''-'' in
      if isRange \<and> (i \<noteq> 0 \<or> n \<noteq> 4) then None
      else case parseOctet a of
             None \<Rightarrow> None
           | Some x \<Rightarrow>
               if isRange
               then (case parseOctet b of
                       None \<Rightarrow> None
                     | Some y \<Rightarrow> if y < x then None else reverseV4_loop n (i + 1) ls (fr[octet := x]) (to[octet := y]))
               else reverseV4_loop n (i + 1) ls (fr[octet := x]) (to[octet := x]))"

definition reverseV4 :: "string list \<Rightarrow> (addr \<times> addr) option" where
  "reverseV4 labels =
     (if length labels < 1 \<or> length labels > 4 then None
      else case reverseV4_loop (length labels) 0 labels (replicate 4 0) (replicate 4 0) of
             None \<Rightarrow> None
           | Some (fr, to) \<Rightarrow>
               let k = length labels in
               Some (AddrFrom4 (take k fr @ replicate (4 - k) 0), AddrFrom4 (take k to @ replicate (4 - k) 255)))"

definition set_nibble :: "u8 list \<Rightarrow> nat \<Rightarrow> nat \<Rightarrow> u8 list" where
  "set_nibble bs pos v =
     bs[pos div 2 := or (bs ! (pos div 2)) (push_bit (4 * (1 - pos mod 2)) (of_nat v))]"

fun reverseV6_loop :: "nat \<Rightarrow> nat \<Rightarrow> string list \<Rightarrow> u8 list \<Rightarrow> u8 list option" where
  "reverseV6_loop n i [] fr = Some fr"
| "reverseV6_loop n i (l # ls) fr =
     (if length l \<noteq> 1 \<or> \<not> isHex (hd l) then None
      else reverseV6_loop n (i + 1) ls (set_nibble fr (n - 1 - i) (hexdigit_val (hd l))))"

definition reverseV6 :: "string list \<Rightarrow> (addr \<times> addr) option" where
  "reverseV6 labels =
     (if length labels < 1 \<or> length labels > 32 then None
      else case reverseV6_loop (length labels) 0 labels (replicate 16 0) of
             None \<Rightarrow> None
           | Some fr \<Rightarrow>
               Some (AddrFrom16 fr, AddrFrom16 (fold (\<lambda>pos to. set_nibble to pos 15) [length labels..<32] fr)))"

definition domain_name :: "string \<Rightarrow> string" where
  "domain_name name = ToLower (TrimSuffix (TrimSpace name) ''.'')"

definition ReverseRange :: "Domain \<Rightarrow> (addr \<times> addr) option" where
  "ReverseRange d =
     (let name = domain_name (dName d) in
      if HasSuffix name ''.in-addr.arpa'' then reverseV4 (Split (TrimSuffix name ''.in-addr.arpa'') (CHR ''.''))
      else if HasSuffix name ''.ip6.arpa'' then reverseV6 (Split (TrimSuffix name ''.ip6.arpa'') (CHR ''.''))
      else None)"

end
