(* ===== verification/Auth_Check.thy ===== *)
theory Auth_Check
  imports Typed_Objects
begin

text \<open>
  Checking a credential (\<^verbatim>\<open>src/auth/auth.go\<close>, \<^verbatim>\<open>irt.go\<close>): the \<^verbatim>\<open>auth:\<close> lines of one maintainer, of the named
  maintainers of a registry and of irt objects, and the chain of \<^verbatim>\<open>referral-by:\<close> maintainers.  The
  registry and the verifier are parameters.
\<close>

subsection \<open>Errors, credentials and decisions\<close>

text \<open>An error is known by the sentinels it wraps; one that wraps none is foreign to the package.\<close>

datatype sentinel = ErrUnsupportedMethod | ErrNoMntner | ErrNoIrt | ErrNotFound | ErrReferralCycle | ErrReferralTooDeep

type_synonym goerror = "sentinel list"

definition errors_Is :: "goerror \<Rightarrow> sentinel \<Rightarrow> bool" where
  "errors_Is err s \<longleftrightarrow> s \<in> set err"

record Credential =
  Password :: string
  Signature :: "u8 list"
  Message :: "u8 list"
  FromAddr :: string

type_synonym Verifier = "Auth \<Rightarrow> Credential \<Rightarrow> goerror + bool"

type_synonym MntnerRegistry = "string \<Rightarrow> goerror + Mntner option"

type_synonym IrtRegistry = "string \<Rightarrow> goerror + Irt option"

record Decision =
  OK :: bool
  Reasons :: "string list"

definition zeroDecision :: Decision where
  "zeroDecision = \<lparr>OK = False, Reasons = []\<rparr>"

definition Decision_String :: "Decision \<Rightarrow> string" where
  "Decision_String d =
     (let head = (if OK d then ''authorised'' else ''refused'') in
      if Reasons d = [] then head else head @ '': '' @ Join (Reasons d) ''; '')"

subsection \<open>One maintainer\<close>

text \<open>The loop carries whether a line could not be checked; the result is acceptance and that.\<close>

fun checkAuth_loop :: "Credential \<Rightarrow> Verifier option \<Rightarrow> Auth list \<Rightarrow> bool \<Rightarrow> goerror + (bool \<times> bool)" where
  "checkAuth_loop cred v [] unsupported = Inr (False, unsupported)"
| "checkAuth_loop cred v (a # lines) unsupported =
     (case v of
        None \<Rightarrow> checkAuth_loop cred v lines True
      | Some verify \<Rightarrow>
          (case verify a cred of
             Inl err \<Rightarrow> if errors_Is err ErrUnsupportedMethod then checkAuth_loop cred v lines True else Inl err
           | Inr got \<Rightarrow> if got then Inr (True, unsupported) else checkAuth_loop cred v lines unsupported))"

definition checkAuth :: "Auth list \<Rightarrow> Credential \<Rightarrow> Verifier option \<Rightarrow> goerror + (bool \<times> bool)" where
  "checkAuth lines cred v = checkAuth_loop cred v lines False"

fun CheckMntner :: "Mntner option \<Rightarrow> Credential \<Rightarrow> Verifier option \<Rightarrow> goerror + (bool \<times> bool)" where
  "CheckMntner None cred v = Inr (False, False)"
| "CheckMntner (Some m) cred v = checkAuth (mAuth m) cred v"

fun CheckIrt :: "Irt option \<Rightarrow> Credential \<Rightarrow> Verifier option \<Rightarrow> goerror + (bool \<times> bool)" where
  "CheckIrt None cred v = Inr (False, False)"
| "CheckIrt (Some irt) cred v = checkAuth (irtAuth irt) cred v"

subsection \<open>Named maintainers and irts\<close>

definition check_reason :: "string \<Rightarrow> Auth list \<Rightarrow> bool \<Rightarrow> string" where
  "check_reason name lines unsupported =
     (if lines = [] then name @ '': has no auth: lines, so accepts no credential''
      else if unsupported then name @ '': no verifier for its auth scheme''
      else name @ '': credential rejected'')"

text \<open>A nil maintainer without an error reads as \<^verbatim>\<open>ErrNoMntner\<close>.\<close>

definition mntner_lookup :: "MntnerRegistry \<Rightarrow> string \<Rightarrow> goerror + Mntner" where
  "mntner_lookup reg name =
     (case reg name of Inl err \<Rightarrow> Inl err | Inr None \<Rightarrow> Inl [ErrNoMntner] | Inr (Some m) \<Rightarrow> Inr m)"

fun CheckMntners_loop :: "MntnerRegistry \<Rightarrow> Credential \<Rightarrow> Verifier option \<Rightarrow> string list \<Rightarrow> string list \<Rightarrow> goerror + Decision" where
  "CheckMntners_loop reg cred v [] reasons = Inr \<lparr>OK = False, Reasons = reasons\<rparr>"
| "CheckMntners_loop reg cred v (name # names) reasons =
     (case mntner_lookup reg name of
        Inl err \<Rightarrow>
          if \<not> errors_Is err ErrNoMntner then Inl err
          else CheckMntners_loop reg cred v names (reasons @ [name @ '': no such maintainer''])
      | Inr m \<Rightarrow>
          (case CheckMntner (Some m) cred v of
             Inl err \<Rightarrow> Inl err
           | Inr (ok, unsupported) \<Rightarrow>
               if ok then Inr \<lparr>OK = True, Reasons = reasons @ [name @ '': credential accepted'']\<rparr>
               else CheckMntners_loop reg cred v names (reasons @ [check_reason name (mAuth m) unsupported])))"

definition CheckMntners :: "MntnerRegistry \<Rightarrow> string list \<Rightarrow> Credential \<Rightarrow> Verifier option \<Rightarrow> goerror + Decision" where
  "CheckMntners reg names cred v =
     (if names = [] then Inr \<lparr>OK = False, Reasons = [''no maintainer guards this object'']\<rparr>
      else CheckMntners_loop reg cred v names [])"

definition irt_lookup :: "IrtRegistry \<Rightarrow> string \<Rightarrow> goerror + Irt" where
  "irt_lookup reg name =
     (case reg name of Inl err \<Rightarrow> Inl err | Inr None \<Rightarrow> Inl [ErrNoIrt] | Inr (Some m) \<Rightarrow> Inr m)"

fun CheckIrts_loop :: "IrtRegistry \<Rightarrow> Credential \<Rightarrow> Verifier option \<Rightarrow> string list \<Rightarrow> string list \<Rightarrow> goerror + Decision" where
  "CheckIrts_loop reg cred v [] reasons = Inr \<lparr>OK = False, Reasons = reasons\<rparr>"
| "CheckIrts_loop reg cred v (name # names) reasons =
     (case irt_lookup reg name of
        Inl err \<Rightarrow>
          if \<not> errors_Is err ErrNoIrt then Inl err
          else CheckIrts_loop reg cred v names (reasons @ [name @ '': no such irt''])
      | Inr irt \<Rightarrow>
          (case CheckIrt (Some irt) cred v of
             Inl err \<Rightarrow> Inl err
           | Inr (ok, unsupported) \<Rightarrow>
               if ok then Inr \<lparr>OK = True, Reasons = reasons @ [name @ '': credential accepted'']\<rparr>
               else CheckIrts_loop reg cred v names (reasons @ [check_reason name (irtAuth irt) unsupported])))"

definition CheckIrts :: "IrtRegistry \<Rightarrow> string list \<Rightarrow> Credential \<Rightarrow> Verifier option \<Rightarrow> goerror + Decision" where
  "CheckIrts reg names cred v = CheckIrts_loop reg cred v names []"

subsection \<open>References to irts\<close>

text \<open>The list items of every \<^verbatim>\<open>attr\<close> attribute of a lossless object.\<close>

definition raw_values :: "Object option \<Rightarrow> string \<Rightarrow> string list" where
  "raw_values raw attr = filter (\<lambda>x. x \<noteq> []) (concat (map (\<lambda>a. map itValue (attr_List a)) (GetAll raw attr)))"

fun mntIrt :: "iface \<Rightarrow> string list" where
  "mntIrt Nil = []"
| "mntIrt NilPtr = []"
| "mntIrt (Ptr (OInetnum t)) = MntIrt t"
| "mntIrt (Ptr (OInet6num t)) = MntIrt t"
| "mntIrt (Ptr ob) = raw_values (object_Raw ob) ''mnt-irt''"

definition irt_key :: "string \<Rightarrow> string" where
  "irt_key name = ToUpper (TrimSpace name)"

fun added_loop :: "string list \<Rightarrow> string list \<Rightarrow> string list" where
  "added_loop had [] = []"
| "added_loop had (name # names) =
     (let key = irt_key name in
      if key = [] \<or> key \<in> set had then added_loop had names
      else name # added_loop (key # had) names)"

definition AddedMntIrt :: "iface \<Rightarrow> iface \<Rightarrow> string list" where
  "AddedMntIrt before after = added_loop (map irt_key (mntIrt before)) (mntIrt after)"

definition MntIrtChange :: "IrtRegistry \<Rightarrow> iface \<Rightarrow> iface \<Rightarrow> Credential \<Rightarrow> Verifier option \<Rightarrow> goerror + Decision" where
  "MntIrtChange reg before after cred v =
     (let added = AddedMntIrt before after in
      if added = [] then Inr \<lparr>OK = True, Reasons = [''no mnt-irt: reference is added'']\<rparr>
      else CheckIrts reg added cred v)"

subsection \<open>Referral chains\<close>

definition next_referral :: "Mntner \<Rightarrow> string" where
  "next_referral m = (case filter (\<lambda>r. r \<noteq> []) (map TrimSpace (ReferralBy m)) of [] \<Rightarrow> [] | r # _ \<Rightarrow> r)"

text \<open>
  The walk: each round looks one maintainer up, so it ends after \<^verbatim>\<open>maxDepth\<close> rounds.  The chain is returned
  with the error, if any.
\<close>

function referral_walk :: "MntnerRegistry \<Rightarrow> nat \<Rightarrow> string \<Rightarrow> string list \<Rightarrow> Mntner list \<Rightarrow> Mntner list \<times> goerror option" where
  "referral_walk reg maxDepth at seen chain =
     (let key = ToUpper (TrimSpace at) in
      if key \<in> set seen then (chain, Some [ErrReferralCycle])
      else case mntner_lookup reg at of
             Inl err \<Rightarrow> (chain, Some err)
           | Inr m \<Rightarrow>
               let chain = chain @ [m]; nxt = next_referral m in
               if nxt = [] then (chain, None)
               else if EqualFold nxt (Handle m) then (chain, None)
               else if length chain \<ge> maxDepth then (chain, Some [ErrReferralTooDeep])
               else referral_walk reg maxDepth nxt (key # seen) chain)"
  by pat_completeness auto
termination
  by (relation "measure (\<lambda>(_, maxDepth, _, _, chain). maxDepth - length chain)") auto

declare referral_walk.simps [simp del]

definition ReferralChain :: "MntnerRegistry \<Rightarrow> string \<Rightarrow> int \<Rightarrow> Mntner list \<times> goerror option" where
  "ReferralChain reg name maxDepth = referral_walk reg (if maxDepth \<le> 0 then 32 else nat maxDepth) name [] []"

end
