(* ===== verification/Go_Sort.thy ===== *)
theory Go_Sort
  imports Main
begin

text \<open>
  Sorting as Go's library does it: a stable sort by a less function.
\<close>

text \<open>\<^verbatim>\<open>sort.SliceStable\<close> by a less function, as insertion sort.\<close>

fun stable_insert :: "('a \<Rightarrow> 'a \<Rightarrow> bool) \<Rightarrow> 'a \<Rightarrow> 'a list \<Rightarrow> 'a list" where
  "stable_insert lt x [] = [x]"
| "stable_insert lt x (y # ys) = (if lt y x then y # stable_insert lt x ys else x # y # ys)"

definition SliceStable :: "('a \<Rightarrow> 'a \<Rightarrow> bool) \<Rightarrow> 'a list \<Rightarrow> 'a list" where
  "SliceStable lt xs = foldr (stable_insert lt) xs []"

lemma set_insert: "set (stable_insert lt x xs) = insert x (set xs)"
  by (induction xs) auto

lemma set_SliceStable [simp]: "set (SliceStable lt xs) = set xs"
  by (induction xs) (auto simp: SliceStable_def set_insert)

lemma SliceStable_ordered:
  assumes "\<And>a b. lt a b \<Longrightarrow> \<not> lt b a" "\<And>a b c. \<not> lt b a \<Longrightarrow> \<not> lt c b \<Longrightarrow> \<not> lt c a"
  shows "sorted_wrt (\<lambda>a b. \<not> lt b a) (SliceStable lt xs)"
proof -
  have "sorted_wrt (\<lambda>a b. \<not> lt b a) ys \<Longrightarrow> sorted_wrt (\<lambda>a b. \<not> lt b a) (stable_insert lt x ys)" for x ys
  proof (induction ys)
    case (Cons y ys)
    show ?case
    proof (cases "lt y x")
      case True
      then show ?thesis using Cons assms(1) by (auto simp: set_insert)
    next
      case False
      then have "\<forall>z\<in>set ys. \<not> lt z x" using Cons.prems assms(2) [of y x] by auto
      then show ?thesis using Cons.prems False by simp
    qed
  qed simp
  then show ?thesis by (induction xs) (simp_all add: SliceStable_def)
qed

end
