(* ===== verification/Auth_Database.thy ===== *)
theory Auth_Database
  imports Auth_Check Go_Sort
begin

text \<open>
  What an update is authorised against (\<^verbatim>\<open>src/auth/memdb.go\<close>): primary keys in canonical form, address
  ranges, the injected database as a record of its lookups, and the database over decoded objects.
\<close>

subsection \<open>Keys and ranges\<close>

definition set_classes :: "string list" where
  "set_classes = [''as-set'', ''route-set'', ''rtr-set'', ''peering-set'', ''filter-set'']"

definition normalKey :: "string \<Rightarrow> string \<Rightarrow> string" where
  "normalKey cls key' =
     (let key = TrimSpace key' in
      if cls = ''aut-num''
      then (let t = (if Trim key ''0123456789'' = [] then ''AS'' @ key else key) in
            case ParseASN t of Some a \<Rightarrow> asn_String a | None \<Rightarrow> ToUpper key)
      else if cls \<in> set set_classes
      then (case ParseSetName key of Some n \<Rightarrow> set_canon n | None \<Rightarrow> ToUpper key)
      else if cls = ''domain'' then ToUpper (TrimSuffix key ''.'')
      else ToUpper key)"

fun primaryKey :: "object \<Rightarrow> (string \<times> string) option" where
  "primaryKey (ORoute t) =
     (if \<not> prefix_isValid (rPrefix t) then None
      else Some (''route'', prefix_String (Masked (rPrefix t)) @ asn_String (rOrigin t)))"
| "primaryKey (ORoute6 t) =
     (if \<not> prefix_isValid (rPrefix t) then None
      else Some (''route6'', prefix_String (Masked (rPrefix t)) @ asn_String (rOrigin t)))"
| "primaryKey (OInetnum t) =
     (if \<not> addr_isValid (inLo t) \<or> \<not> addr_isValid (inHi t) then None
      else Some (''inetnum'', addr_String (inLo t) @ '' - '' @ addr_String (inHi t)))"
| "primaryKey (OInet6num t) =
     (if \<not> prefix_isValid (in6Prefix t) then None
      else Some (''inet6num'', prefix_String (Masked (in6Prefix t))))"
| "primaryKey (OAsBlock t) = Some (''as-block'', asn_String (abLo t) @ '' - '' @ asn_String (abHi t))"
| "primaryKey (OPerson t) = (if NicHdl t \<noteq> [] then Some (''person'', ToUpper (NicHdl t)) else None)"
| "primaryKey (ORole t) = (if NicHdl t \<noteq> [] then Some (''role'', ToUpper (NicHdl t)) else None)"
| "primaryKey ob =
     (case object_Raw ob of
        None \<Rightarrow> None
      | Some raw \<Rightarrow>
          let cls = obj_Class (Some raw); key = normalKey cls (obj_Key (Some raw)) in
          if cls = [] then None else if key = [] then None else Some (cls, key))"

definition prefixRange :: "prefix \<Rightarrow> (addr \<times> addr) option" where
  "prefixRange p = (if \<not> prefix_isValid p then None else Some (Addr (Masked p), LastAddr (Masked p)))"

fun addressRange :: "object \<Rightarrow> (addr \<times> addr) option" where
  "addressRange (OInetnum t) = (if addr_isValid (inLo t) \<and> addr_isValid (inHi t) then Some (inLo t, inHi t) else None)"
| "addressRange (OInet6num t) = prefixRange (in6Prefix t)"
| "addressRange (ORoute t) = prefixRange (rPrefix t)"
| "addressRange (ORoute6 t) = prefixRange (rPrefix t)"
| "addressRange _ = None"

subsection \<open>The injected database\<close>

record Database =
  dbMntner :: MntnerRegistry
  dbCurrent :: "object \<Rightarrow> goerror + iface"
  dbObject :: "string \<Rightarrow> string \<Rightarrow> goerror + iface"
  dbCovering :: "string \<Rightarrow> addr \<Rightarrow> addr \<Rightarrow> goerror + iface list"
  dbASBlocks :: "asn \<Rightarrow> goerror + AsBlock option list"

subsection \<open>The database over decoded objects\<close>

definition map_key :: "string \<Rightarrow> string \<Rightarrow> string" where
  "map_key cls key = cls @ CHR 0x00 # key"

text \<open>The maps are association lists with the latest entry first; the lists keep the order of the objects.\<close>

record MemDatabase =
  objects :: "(string \<times> object) list"
  spaces :: "(string \<times> (addr \<times> addr) \<times> object) list"
  blocks :: "AsBlock list"

definition mem_add :: "object \<Rightarrow> MemDatabase \<Rightarrow> MemDatabase" where
  "mem_add ob db =
     (case primaryKey ob of
        None \<Rightarrow> db
      | Some (cls, key) \<Rightarrow>
          \<lparr>objects = (map_key cls key, ob) # objects db,
           spaces = (case addressRange ob of None \<Rightarrow> spaces db | Some r \<Rightarrow> spaces db @ [(cls, r, ob)]),
           blocks = (case ob of OAsBlock b \<Rightarrow> blocks db @ [b] | _ \<Rightarrow> blocks db)\<rparr>)"

fun mem_build :: "object option list \<Rightarrow> MemDatabase \<Rightarrow> MemDatabase" where
  "mem_build [] db = db"
| "mem_build (None # os) db = mem_build os db"
| "mem_build (Some ob # os) db = mem_build os (mem_add ob db)"

definition NewMemDatabase :: "object option list \<Rightarrow> MemDatabase" where
  "NewMemDatabase objs = mem_build objs \<lparr>objects = [], spaces = [], blocks = []\<rparr>"

definition mem_Mntner :: "MemDatabase \<Rightarrow> MntnerRegistry" where
  "mem_Mntner db name =
     (case map_of (objects db) (map_key ''mntner'' (normalKey ''mntner'' name)) of
        Some (OMntner m) \<Rightarrow> Inr (Some m)
      | _ \<Rightarrow> Inl [ErrNoMntner])"

definition mem_Current :: "MemDatabase \<Rightarrow> object \<Rightarrow> goerror + iface" where
  "mem_Current db ob =
     (case primaryKey ob of
        None \<Rightarrow> Inl [ErrNotFound]
      | Some (cls, key) \<Rightarrow> (case map_of (objects db) (map_key cls key) of Some got \<Rightarrow> Inr (Ptr got) | None \<Rightarrow> Inl [ErrNotFound]))"

definition mem_Object :: "MemDatabase \<Rightarrow> string \<Rightarrow> string \<Rightarrow> goerror + iface" where
  "mem_Object db cls key =
     (let cls = ToLower (TrimSpace cls) in
      case map_of (objects db) (map_key cls (normalKey cls key)) of Some got \<Rightarrow> Inr (Ptr got) | None \<Rightarrow> Inl [ErrNotFound])"

fun more_specific :: "(addr \<times> addr) \<times> object \<Rightarrow> (addr \<times> addr) \<times> object \<Rightarrow> bool" where
  "more_specific ((lo, hi), _) ((lo', hi'), _) =
     (let c = addr_Compare lo lo' in if c \<noteq> 0 then c > 0 else addr_Compare hi hi' < 0)"

definition mem_Covering :: "MemDatabase \<Rightarrow> string \<Rightarrow> addr \<Rightarrow> addr \<Rightarrow> goerror + iface list" where
  "mem_Covering db cls lo hi =
     (let hits = filter (\<lambda>((elo, ehi), _). BitLen elo = BitLen lo \<and> addr_Compare elo lo \<le> 0 \<and> addr_Compare hi ehi \<le> 0)
                   (map snd (filter (\<lambda>e. fst e = ToLower cls) (spaces db))) in
      Inr (map (\<lambda>e. Ptr (snd e)) (SliceStable more_specific hits)))"

definition mem_ASBlocks :: "MemDatabase \<Rightarrow> asn \<Rightarrow> goerror + AsBlock option list" where
  "mem_ASBlocks db n =
     Inr (map Some (SliceStable (\<lambda>a b. abHi a - abLo a < abHi b - abLo b)
       (filter (\<lambda>b. abLo b \<le> n \<and> n \<le> abHi b) (blocks db))))"

definition mem_Database :: "MemDatabase \<Rightarrow> Database" where
  "mem_Database db =
     \<lparr>dbMntner = mem_Mntner db, dbCurrent = mem_Current db, dbObject = mem_Object db,
      dbCovering = mem_Covering db, dbASBlocks = mem_ASBlocks db\<rparr>"

end
