(* ===== verification/Auth_Rules.thy ===== *)
theory Auth_Rules
  imports Auth_Database
begin

text \<open>
  The registries' rules (\<^verbatim>\<open>src/auth/rules.go\<close>) and RFC 2725's route check (\<^verbatim>\<open>route.go\<close>).  A check extends the
  reasons recorded so far and passes, fails or returns an error of the database; checks are composed by
  \<^verbatim>\<open>if ok, err := c.f(); err != nil || !ok { return }\<close>.
\<close>

subsection \<open>Routing authority\<close>

definition rangeCovers :: "addr \<Rightarrow> addr \<Rightarrow> prefix \<Rightarrow> bool \<times> bool" where
  "rangeCovers lo hi p =
     (let first = Addr p; lst = LastAddr p in
      if \<not> addr_isValid lo \<or> \<not> addr_isValid hi \<or> BitLen lo \<noteq> BitLen first \<or> BitLen hi \<noteq> BitLen first then (False, False)
      else if addr_Compare lo first > 0 \<or> addr_Compare hi lst < 0 then (False, False)
      else (lo = first \<and> hi = lst, True))"

definition prefixCovers :: "prefix \<Rightarrow> prefix \<Rightarrow> bool \<times> bool" where
  "prefixCovers q' p =
     (let q = Masked q' in
      if \<not> prefix_isValid q \<or> BitLen (Addr q) \<noteq> BitLen (Addr p) \<or> Bits q > Bits p \<or> \<not> prefix_Contains q (Addr p)
      then (False, False) else (Bits q = Bits p, True))"

fun space_covers :: "iface \<Rightarrow> prefix \<Rightarrow> bool \<times> bool" where
  "space_covers ob p' =
     (let p = Masked p' in
      if \<not> prefix_isValid p then (False, False)
      else case ob of
             Ptr (OInetnum t) \<Rightarrow> rangeCovers (inLo t) (inHi t) p
           | Ptr (OInet6num t) \<Rightarrow> prefixCovers (in6Prefix t) p
           | Ptr (ORoute t) \<Rightarrow> prefixCovers (rPrefix t) p
           | Ptr (ORoute6 t) \<Rightarrow> prefixCovers (rPrefix t) p
           | NilPtr \<Rightarrow> (False, False)
           | _ \<Rightarrow> prefixCovers zeroPrefix p)"

fun authorities :: "iface \<Rightarrow> (MntRoutes list \<times> string list \<times> string list) option" where
  "authorities (Ptr (OAutNum t)) = Some (MntRoutes t, MntLower t, MntBy t)"
| "authorities (Ptr (ORoute t)) = Some (MntRoutes t, MntLower t, MntBy t)"
| "authorities (Ptr (ORoute6 t)) = Some (MntRoutes t, MntLower t, MntBy t)"
| "authorities (Ptr (OInetnum t)) = Some (MntRoutes t, MntLower t, MntBy t)"
| "authorities (Ptr (OInet6num t)) = Some (MntRoutes t, MntLower t, MntBy t)"
| "authorities _ = None"

definition in_scope :: "prefix \<Rightarrow> MntRoutes \<Rightarrow> bool" where
  "in_scope p m \<longleftrightarrow> mrMntner m \<noteq> [] \<and>
     (if mrAny m \<and> mrRanges m = [] then True else list_ex (\<lambda>r. range_Contains r p) (mrRanges m))"

definition scopedMntners :: "MntRoutes list \<Rightarrow> prefix \<Rightarrow> string list" where
  "scopedMntners entries p = map mrMntner (filter (in_scope p) entries)"

definition RouteAuthority :: "iface \<Rightarrow> prefix \<Rightarrow> string list" where
  "RouteAuthority ob p =
     (case authorities ob of
        None \<Rightarrow> []
      | Some (mntRoutes, mntLower, mntBy) \<Rightarrow>
          if mntRoutes \<noteq> [] then scopedMntners mntRoutes p
          else let (exact, ok) = space_covers ob p in
            if mntLower \<noteq> [] \<and> ok \<and> \<not> exact then mntLower else mntBy)"

record RouteRequest =
  reqPrefix :: prefix
  OriginAS :: asn
  reqMntBy :: "string list"
  reqOrigin :: iface
  reqSpace :: iface

definition RouteRequestFor :: "Route \<Rightarrow> iface \<Rightarrow> iface \<Rightarrow> RouteRequest" where
  "RouteRequestFor r origin space =
     \<lparr>reqPrefix = rPrefix r, OriginAS = rOrigin r, reqMntBy = MntBy r, reqOrigin = origin, reqSpace = space\<rparr>"

definition RouteRequestFor6 :: "Route \<Rightarrow> iface \<Rightarrow> iface \<Rightarrow> RouteRequest" where
  "RouteRequestFor6 r origin space =
     \<lparr>reqPrefix = rPrefix r, OriginAS = rOrigin r, reqMntBy = MntBy r, reqOrigin = origin, reqSpace = space\<rparr>"

fun autNumAS :: "iface \<Rightarrow> asn option" where
  "autNumAS (Ptr (OAutNum t)) = Some (anAS t)"
| "autNumAS _ = None"

definition mismatch :: "nat \<Rightarrow> RouteRequest \<Rightarrow> string" where
  "mismatch step req =
     (if step = 1
      then if OriginAS req = 0 then ''the request names no origin AS''
           else if autNumAS (reqOrigin req) \<noteq> Some (OriginAS req)
           then ''the object given is not the aut-num of '' @ asn_String (OriginAS req) else []
      else if step = 2
      then if \<not> snd (space_covers (reqSpace req) (reqPrefix req))
           then ''the object given does not cover '' @ prefix_String (reqPrefix req) else []
      else [])"

definition show_names :: "string list \<Rightarrow> string" where
  "show_names names = ''['' @ Join names '' '' @ '']''"

fun route_steps :: "MntnerRegistry \<Rightarrow> RouteRequest \<Rightarrow> Credential \<Rightarrow> Verifier option \<Rightarrow> nat \<Rightarrow> (string \<times> string list) list \<Rightarrow>
    string list \<Rightarrow> goerror + Decision" where
  "route_steps reg req cred v i [] reasons = Inr \<lparr>OK = True, Reasons = reasons\<rparr>"
| "route_steps reg req cred v i ((what, names) # steps) reasons =
     (if (i = 1 \<and> reqOrigin req = Nil) \<or> (i = 2 \<and> reqSpace req = Nil)
      then Inr \<lparr>OK = False, Reasons = reasons @ [what @ '': not in the registry, so it authorises nothing'']\<rparr>
      else let why = mismatch i req in
        if why \<noteq> [] then Inr \<lparr>OK = False, Reasons = reasons @ [what @ '': '' @ why]\<rparr>
        else if names = [] then Inr \<lparr>OK = False, Reasons = reasons @ [what @ '': delegates no maintainer for this prefix'']\<rparr>
        else case CheckMntners reg names cred v of
               Inl err \<Rightarrow> Inl err
             | Inr got \<Rightarrow>
                 let reasons = reasons @ [what @ '' ('' @ show_names names @ ''): '' @ Decision_String got] in
                 if \<not> OK got then Inr \<lparr>OK = False, Reasons = reasons\<rparr>
                 else route_steps reg req cred v (i + 1) steps reasons)"

definition RouteCreation :: "MntnerRegistry \<Rightarrow> RouteRequest \<Rightarrow> Credential \<Rightarrow> Verifier option \<Rightarrow> goerror + Decision" where
  "RouteCreation reg req cred v =
     route_steps reg req cred v 0
       [(''the route object's own maintainers'', reqMntBy req),
        (''the origin AS'', RouteAuthority (reqOrigin req) (reqPrefix req)),
        (''the address space'', RouteAuthority (reqSpace req) (reqPrefix req))] []"

subsection \<open>Checks\<close>

datatype Action = Create | Modify | Delete | OtherAction u8

fun Action_String :: "Action \<Rightarrow> string" where
  "Action_String Create = ''create''"
| "Action_String Modify = ''modify''"
| "Action_String Delete = ''delete''"
| "Action_String (OtherAction n) = ''Action('' @ Itoa (unat n) @ '')''"

record Update =
  uAction :: Action
  uObject :: "object option"

record Rules =
  is_irrd :: bool

definition RIPE :: Rules where
  "RIPE = \<lparr>is_irrd = False\<rparr>"

definition IRRd :: Rules where
  "IRRd = \<lparr>is_irrd = True\<rparr>"

definition Rules_String :: "Rules \<Rightarrow> string" where
  "Rules_String r = (if is_irrd r then ''IRRd'' else ''RIPE'')"

type_synonym check = "string list \<Rightarrow> (goerror + bool) \<times> string list"

definition and_then :: "check \<Rightarrow> check \<Rightarrow> check" where
  "and_then c c' rs = (case c rs of (Inr True, rs') \<Rightarrow> c' rs' | r \<Rightarrow> r)"

definition fail :: "string \<Rightarrow> check" where
  "fail reason rs = (Inr False, rs @ [reason])"

definition silently :: "goerror + bool \<Rightarrow> check" where
  "silently r rs = (r, rs)"

text \<open>The database's lookups, with a nil object read as not found and nil elements left out.\<close>

fun found :: "goerror + iface \<Rightarrow> goerror + object" where
  "found (Inl err) = Inl err"
| "found (Inr (Ptr ob)) = Inr ob"
| "found (Inr _) = Inl [ErrNotFound]"

definition check_current :: "Database \<Rightarrow> object \<Rightarrow> goerror + object" where
  "check_current db ob = found (dbCurrent db ob)"

definition db_lookup :: "Database \<Rightarrow> string \<Rightarrow> string \<Rightarrow> goerror + object" where
  "db_lookup db cls key = found (dbObject db cls key)"

fun objects_of :: "iface list \<Rightarrow> object list" where
  "objects_of [] = []"
| "objects_of (Ptr ob # os) = ob # objects_of os"
| "objects_of (_ # os) = objects_of os"

definition check_covering :: "Database \<Rightarrow> string \<Rightarrow> addr \<Rightarrow> addr \<Rightarrow> goerror + object list" where
  "check_covering db cls lo hi = map_sum id objects_of (dbCovering db cls lo hi)"

definition check_asBlocks :: "Database \<Rightarrow> asn \<Rightarrow> goerror + AsBlock list" where
  "check_asBlocks db n = map_sum id (\<lambda>bs. concat (map (\<lambda>b. case b of None \<Rightarrow> [] | Some b \<Rightarrow> [b]) bs)) (dbASBlocks db n)"

text \<open>A maintainer being created that names itself is checked against its own lines.\<close>

fun self_loop :: "Mntner \<Rightarrow> Credential \<Rightarrow> Verifier option \<Rightarrow> string list \<Rightarrow> goerror + string option" where
  "self_loop self cred v [] = Inr None"
| "self_loop self cred v (n # names) =
     (if \<not> EqualFold (TrimSpace n) (Handle self) then self_loop self cred v names
      else case CheckMntner (Some self) cred v of
             Inl err \<Rightarrow> Inl err
           | Inr (ok, _) \<Rightarrow> if ok then Inr (Some n) else self_loop self cred v names)"

definition check_mntners :: "Database \<Rightarrow> Credential \<Rightarrow> Verifier option \<Rightarrow> string \<Rightarrow> string list \<Rightarrow> Mntner option \<Rightarrow> check" where
  "check_mntners db cred v what names self rs =
     (if names = [] then (Inr False, rs @ [what @ '': names no maintainer''])
      else case (case self of None \<Rightarrow> Inr None | Some m \<Rightarrow> self_loop m cred v names) of
             Inl err \<Rightarrow> (Inl err, rs)
           | Inr (Some n) \<Rightarrow>
               (Inr True, rs @ [what @ '' ('' @ show_names names @ ''): '' @ n @ '': credential accepted by the new maintainer itself''])
           | Inr None \<Rightarrow>
               (case CheckMntners (dbMntner db) names cred v of
                  Inl err \<Rightarrow> (Inl err, rs)
                | Inr got \<Rightarrow> (Inr (OK got), rs @ [what @ '' ('' @ show_names names @ ''): '' @ Decision_String got])))"

definition values_of :: "object option \<Rightarrow> string \<Rightarrow> string list" where
  "values_of ob attr = (case ob of None \<Rightarrow> [] | Some ob \<Rightarrow> raw_values (object_Raw ob) attr)"

fun firstPresent :: "object \<Rightarrow> string list \<Rightarrow> string list" where
  "firstPresent ob [] = []"
| "firstPresent ob (a # attrs) = (let v = values_of (Some ob) a in if v \<noteq> [] then v else firstPresent ob attrs)"

definition describeObject :: "object \<Rightarrow> string" where
  "describeObject ob = (case primaryKey ob of None \<Rightarrow> object_Class ob | Some (cls, key) \<Rightarrow> cls @ '' '' @ key)"

definition isReverseName :: "string \<Rightarrow> bool" where
  "isReverseName name = (let n = domain_name name in HasSuffix n ''.in-addr.arpa'' \<or> HasSuffix n ''.ip6.arpa'')"

subsection \<open>RIPE: parents\<close>

definition zero_range :: "addr \<times> addr" where
  "zero_range = (ZeroAddr, ZeroAddr)"

text \<open>The addresses \<^verbatim>\<open>addressRange\<close> returns, zero when it fails.\<close>

definition range_or_zero :: "object \<Rightarrow> addr \<times> addr" where
  "range_or_zero ob = (case addressRange ob of Some r \<Rightarrow> r | None \<Rightarrow> zero_range)"

fun addressParent_loop :: "Database \<Rightarrow> Credential \<Rightarrow> Verifier option \<Rightarrow> string \<Rightarrow> addr \<Rightarrow> addr \<Rightarrow> object list \<Rightarrow> check" where
  "addressParent_loop db cred v cls lo hi [] =
     fail (''no less specific '' @ cls @ '' holds '' @ addr_String lo @ '' - '' @ addr_String hi)"
| "addressParent_loop db cred v cls lo hi (p # cov) =
     (if range_or_zero p = (lo, hi) then addressParent_loop db cred v cls lo hi cov
      else check_mntners db cred v (''the parent '' @ describeObject p) (firstPresent p [''mnt-lower'', ''mnt-by'']) None)"

definition addressParent :: "Database \<Rightarrow> Credential \<Rightarrow> Verifier option \<Rightarrow> string \<Rightarrow> addr \<Rightarrow> addr \<Rightarrow> check" where
  "addressParent db cred v cls lo hi =
     (if \<not> addr_isValid lo \<or> \<not> addr_isValid hi then fail (''the '' @ cls @ '' has no valid range'')
      else case check_covering db cls lo hi of
             Inl err \<Rightarrow> silently (Inl err)
           | Inr cov \<Rightarrow> addressParent_loop db cred v cls lo hi cov)"

fun firstCovering :: "Database \<Rightarrow> addr \<Rightarrow> addr \<Rightarrow> string list \<Rightarrow> goerror + object option" where
  "firstCovering db lo hi [] = Inr None"
| "firstCovering db lo hi (cls # classes) =
     (case check_covering db cls lo hi of
        Inl err \<Rightarrow> Inl err
      | Inr [] \<Rightarrow> firstCovering db lo hi classes
      | Inr (p # _) \<Rightarrow> Inr (Some p))"

definition routeParent :: "Database \<Rightarrow> Credential \<Rightarrow> Verifier option \<Rightarrow> string \<Rightarrow> string \<Rightarrow> prefix \<Rightarrow> check" where
  "routeParent db cred v routeClass spaceClass p =
     (case prefixRange p of
        None \<Rightarrow> fail (''the '' @ routeClass @ '' has no valid prefix'')
      | Some (lo, hi) \<Rightarrow>
          (case firstCovering db lo hi [routeClass, spaceClass] of
             Inl err \<Rightarrow> silently (Inl err)
           | Inr None \<Rightarrow> fail (''no '' @ routeClass @ '' or '' @ spaceClass @ '' covers '' @ prefix_String p)
           | Inr (Some parent) \<Rightarrow>
               let names = RouteAuthority (Ptr parent) p in
               if names = [] then fail (''the parent '' @ describeObject parent @ '' delegates no maintainer for '' @ prefix_String p)
               else check_mntners db cred v (''the parent '' @ describeObject parent) names None))"

definition domain_class :: "addr \<Rightarrow> string" where
  "domain_class lo = (if Is6 lo then ''inet6num'' else ''inetnum'')"

definition domainParent :: "Database \<Rightarrow> Credential \<Rightarrow> Verifier option \<Rightarrow> Domain \<Rightarrow> check" where
  "domainParent db cred v d =
     (case ReverseRange d of
        None \<Rightarrow>
          if isReverseName (dName d) then fail (''the domain '' @ dName d @ '' is not a reverse zone this model can place'')
          else silently (Inr True)
      | Some (lo, hi) \<Rightarrow>
          (case firstCovering db lo hi [domain_class lo] of
             Inl err \<Rightarrow> silently (Inl err)
           | Inr None \<Rightarrow> fail (''no '' @ domain_class lo @ '' holds the domain '' @ dName d)
           | Inr (Some parent) \<Rightarrow>
               let attrs = (if range_or_zero parent \<noteq> (lo, hi) then [''mnt-domains'', ''mnt-lower'', ''mnt-by'']
                            else [''mnt-domains'', ''mnt-by'']) in
               check_mntners db cred v (''the parent '' @ describeObject parent) (firstPresent parent attrs) None))"

fun domainHolder_loop :: "Database \<Rightarrow> Credential \<Rightarrow> Verifier option \<Rightarrow> addr \<Rightarrow> addr \<Rightarrow> object list \<Rightarrow> check" where
  "domainHolder_loop db cred v lo hi [] = silently (Inr False)"
| "domainHolder_loop db cred v lo hi (p # cov) =
     (let names = values_of (Some p) ''mnt-domains'' in
      if range_or_zero p = (lo, hi) \<and> names \<noteq> []
      then check_mntners db cred v (''the address space '' @ describeObject p @ CHR 0x27 # ''s mnt-domains'') names None
      else domainHolder_loop db cred v lo hi cov)"

definition domainHolder :: "Database \<Rightarrow> Credential \<Rightarrow> Verifier option \<Rightarrow> object \<Rightarrow> check" where
  "domainHolder db cred v stored =
     (case stored of
        ODomain d \<Rightarrow>
          (case ReverseRange d of
             None \<Rightarrow> silently (Inr False)
           | Some (lo, hi) \<Rightarrow>
               (case check_covering db (domain_class lo) lo hi of
                  Inl err \<Rightarrow> silently (Inl err)
                | Inr cov \<Rightarrow> domainHolder_loop db cred v lo hi cov))
      | _ \<Rightarrow> silently (Inr False))"

text \<open>The part of a key left of its last colon.\<close>

definition parent_key :: "string \<Rightarrow> string" where
  "parent_key key = rev (tl (dropWhile (\<lambda>c. c \<noteq> CHR '':'') (rev key)))"

definition parent_class :: "string \<Rightarrow> string \<Rightarrow> string" where
  "parent_class cls parentKey =
     (if ParseASN parentKey \<noteq> None then ''aut-num''
      else case ParseSetName parentKey of
             Some n \<Rightarrow> if set_class n = ClassAsSet then ''as-set'' else cls
           | None \<Rightarrow> cls)"

definition namedParent :: "Database \<Rightarrow> Credential \<Rightarrow> Verifier option \<Rightarrow> set_kind \<Rightarrow> SetObject \<Rightarrow> check" where
  "namedParent db cred v k s =
     (let key = set_canon (sName s) in
      if CHR '':'' \<notin> set key then silently (Inr True)
      else let parentKey = parent_key key; cls = parent_class (kind_Class k) parentKey in
        case db_lookup db cls parentKey of
          Inl err \<Rightarrow>
            if errors_Is err ErrNotFound then fail (''the parent '' @ cls @ '' '' @ parentKey @ '' does not exist'')
            else silently (Inl err)
        | Inr parent \<Rightarrow>
            check_mntners db cred v (''the parent '' @ cls @ '' '' @ parentKey) (firstPresent parent [''mnt-lower'', ''mnt-by'']) None)"

definition asBlockParent :: "Database \<Rightarrow> Credential \<Rightarrow> Verifier option \<Rightarrow> asn \<Rightarrow> check" where
  "asBlockParent db cred v n =
     (case check_asBlocks db n of
        Inl err \<Rightarrow> silently (Inl err)
      | Inr [] \<Rightarrow> fail (''no as-block holds '' @ asn_String n)
      | Inr (b # _) \<Rightarrow>
          check_mntners db cred v (''the parent as-block '' @ asn_String (abLo b) @ '' - '' @ asn_String (abHi b))
            (firstPresent (OAsBlock b) [''mnt-lower'', ''mnt-by'']) None)"

fun ripeParent :: "Database \<Rightarrow> Credential \<Rightarrow> Verifier option \<Rightarrow> object \<Rightarrow> check" where
  "ripeParent db cred v (OInetnum t) = addressParent db cred v ''inetnum'' (inLo t) (inHi t)"
| "ripeParent db cred v (OInet6num t) =
     (case prefixRange (in6Prefix t) of
        None \<Rightarrow> fail ''the inet6num has no valid prefix''
      | Some (lo, hi) \<Rightarrow> addressParent db cred v ''inet6num'' lo hi)"
| "ripeParent db cred v (OAutNum t) = asBlockParent db cred v (anAS t)"
| "ripeParent db cred v (ORoute t) = routeParent db cred v ''route'' ''inetnum'' (rPrefix t)"
| "ripeParent db cred v (ORoute6 t) = routeParent db cred v ''route6'' ''inet6num'' (rPrefix t)"
| "ripeParent db cred v (ODomain d) = domainParent db cred v d"
| "ripeParent db cred v (OSet k s) = namedParent db cred v k s"
| "ripeParent db cred v _ = silently (Inr True)"

subsection \<open>RIPE: references\<close>

definition irtLookup :: "Database \<Rightarrow> IrtRegistry" where
  "irtLookup db name =
     (case db_lookup db ''irt'' name of
        Inl err \<Rightarrow> if errors_Is err ErrNotFound then Inl [ErrNoIrt] else Inl err
      | Inr (OIrt irt) \<Rightarrow> Inr (Some irt)
      | Inr _ \<Rightarrow> Inl [ErrNoIrt])"

definition referenceAttrs :: "(string \<times> string list) list" where
  "referenceAttrs =
     [(''admin-c'', [''person'', ''role'']), (''tech-c'', [''person'', ''role'']), (''zone-c'', [''person'', ''role'']),
      (''abuse-c'', [''role'', ''person'']), (''author'', [''person'', ''role'']), (''ping-hdl'', [''person'', ''role'']),
      (''mnt-by'', [''mntner'']), (''mnt-lower'', [''mntner'']), (''mnt-routes'', [''mntner'']),
      (''mnt-domains'', [''mntner'']), (''mnt-ref'', [''mntner'']), (''org'', [''organisation''])]"

fun referenced :: "Database \<Rightarrow> string \<Rightarrow> string list \<Rightarrow> goerror + (object \<times> string) option" where
  "referenced db name [] = Inr None"
| "referenced db name (cls # classes) =
     (case db_lookup db cls name of
        Inr ob \<Rightarrow> Inr (Some (ob, cls))
      | Inl err \<Rightarrow> if errors_Is err ErrNotFound then referenced db name classes else Inl err)"

definition self_key :: "object \<Rightarrow> string" where
  "self_key ob = (case primaryKey ob of None \<Rightarrow> [] | Some (_, key) \<Rightarrow> key)"

text \<open>One new reference: its object's \<^verbatim>\<open>mnt-ref:\<close> maintainers, when it has any or is an organisation.\<close>

definition check_reference :: "Database \<Rightarrow> Credential \<Rightarrow> Verifier option \<Rightarrow> object \<Rightarrow> string \<Rightarrow> string list \<Rightarrow> string \<Rightarrow> check" where
  "check_reference db cred v ob attr classes name =
     (case referenced db name classes of
        Inl err \<Rightarrow> silently (Inl err)
      | Inr None \<Rightarrow> silently (Inr True)
      | Inr (Some (ref, cls)) \<Rightarrow>
          let names = values_of (Some ref) ''mnt-ref'' in
          if cls = object_Class ob \<and> normalKey cls name = self_key ob then silently (Inr True)
          else if names = [] \<and> cls \<noteq> ''organisation'' then silently (Inr True)
          else check_mntners db cred v
                 (''the '' @ cls @ '' '' @ name @ '' referenced in '' @ attr @ '', its mnt-ref'') names None)"

fun check_references :: "Database \<Rightarrow> Credential \<Rightarrow> Verifier option \<Rightarrow> object \<Rightarrow> string \<Rightarrow> string list \<Rightarrow> string list \<Rightarrow> string list \<Rightarrow> check" where
  "check_references db cred v ob attr classes had [] = silently (Inr True)"
| "check_references db cred v ob attr classes had (name # names) =
     (if ToUpper name \<in> set had then check_references db cred v ob attr classes had names
      else and_then (check_reference db cred v ob attr classes name)
             (check_references db cred v ob attr classes (ToUpper name # had) names))"

fun check_attrs :: "Database \<Rightarrow> Credential \<Rightarrow> Verifier option \<Rightarrow> object option \<Rightarrow> object \<Rightarrow> (string \<times> string list) list \<Rightarrow> check" where
  "check_attrs db cred v stored ob [] = silently (Inr True)"
| "check_attrs db cred v stored ob ((attr, classes) # ras) =
     and_then (check_references db cred v ob attr classes (map ToUpper (values_of stored attr)) (values_of (Some ob) attr))
       (check_attrs db cred v stored ob ras)"

definition iface_of :: "object option \<Rightarrow> iface" where
  "iface_of ob = (case ob of None \<Rightarrow> Nil | Some ob \<Rightarrow> Ptr ob)"

definition check_irts :: "Database \<Rightarrow> Credential \<Rightarrow> Verifier option \<Rightarrow> object option \<Rightarrow> object \<Rightarrow> check" where
  "check_irts db cred v stored ob rs =
     (let added = AddedMntIrt (iface_of stored) (Ptr ob) in
      if added = [] then (Inr True, rs)
      else case CheckIrts (irtLookup db) added cred v of
             Inl err \<Rightarrow> (Inl err, rs)
           | Inr d \<Rightarrow> (Inr (OK d), rs @ [''the added irts ('' @ show_names added @ ''): '' @ Decision_String d]))"

definition ripeReferences :: "Database \<Rightarrow> Credential \<Rightarrow> Verifier option \<Rightarrow> object option \<Rightarrow> object \<Rightarrow> check" where
  "ripeReferences db cred v stored ob =
     and_then (check_irts db cred v stored ob) (check_attrs db cred v stored ob referenceAttrs)"

subsection \<open>RIPE\<close>

text \<open>\<^verbatim>\<open>return Decision{}, err\<close>: the reasons are dropped.\<close>

definition abort :: "goerror \<Rightarrow> check" where
  "abort err rs = (Inl err, [])"

definition with_stored :: "Database \<Rightarrow> Action \<Rightarrow> object \<Rightarrow> (object \<Rightarrow> check) \<Rightarrow> check" where
  "with_stored db act ob k =
     (case check_current db ob of
        Inl err \<Rightarrow>
          if errors_Is err ErrNotFound then fail (''there is no stored '' @ object_Class ob @ '' to '' @ Action_String act)
          else abort err
      | Inr stored \<Rightarrow> k stored)"

definition self_of :: "object \<Rightarrow> Mntner option" where
  "self_of ob = (case ob of OMntner m \<Rightarrow> Some m | _ \<Rightarrow> None)"

definition or_else :: "check \<Rightarrow> check \<Rightarrow> check" where
  "or_else c c' rs = (case c rs of (Inr False, rs') \<Rightarrow> c' rs' | r \<Rightarrow> r)"

fun ripe :: "Database \<Rightarrow> Credential \<Rightarrow> Verifier option \<Rightarrow> Action \<Rightarrow> object \<Rightarrow> check" where
  "ripe db cred v Create ob =
     and_then (check_mntners db cred v ''the object's own maintainers'' (values_of (Some ob) ''mnt-by'') (self_of ob))
       (and_then (ripeParent db cred v ob) (ripeReferences db cred v None ob))"
| "ripe db cred v Delete ob =
     with_stored db Delete ob (\<lambda>stored.
       or_else (check_mntners db cred v ''the stored object's maintainers'' (values_of (Some stored) ''mnt-by'') None)
         (domainHolder db cred v stored))"
| "ripe db cred v act ob =
     with_stored db act ob (\<lambda>stored.
       let names = values_of (Some stored) ''mnt-by'' in
       and_then (check_mntners db cred v ''the stored object's maintainers''
           (if names = [] then values_of (Some ob) ''mnt-by'' else names) None)
         (ripeReferences db cred v (Some stored) ob))"

subsection \<open>IRRd\<close>

fun less_specific :: "addr \<Rightarrow> addr \<Rightarrow> object list \<Rightarrow> object option" where
  "less_specific lo hi [] = None"
| "less_specific lo hi (r # cov) = (if range_or_zero r \<noteq> (lo, hi) then Some r else less_specific lo hi cov)"

definition irrdRoute :: "Database \<Rightarrow> Credential \<Rightarrow> Verifier option \<Rightarrow> string \<Rightarrow> string \<Rightarrow> prefix \<Rightarrow> check" where
  "irrdRoute db cred v routeClass spaceClass p =
     (case prefixRange p of
        None \<Rightarrow> fail (''the '' @ routeClass @ '' has no valid prefix'')
      | Some (lo, hi) \<Rightarrow>
          (case (case firstCovering db lo hi [spaceClass] of
                   Inl err \<Rightarrow> Inl err
                 | Inr (Some r) \<Rightarrow> Inr (Some r)
                 | Inr None \<Rightarrow> map_sum id (less_specific lo hi) (check_covering db routeClass lo hi)) of
             Inl err \<Rightarrow> silently (Inl err)
           | Inr None \<Rightarrow> silently (Inr True)
           | Inr (Some related) \<Rightarrow>
               check_mntners db cred v (''the related '' @ describeObject related) (values_of (Some related) ''mnt-by'') None))"

definition irrdSet :: "Database \<Rightarrow> Credential \<Rightarrow> Verifier option \<Rightarrow> SetObject \<Rightarrow> check" where
  "irrdSet db cred v s =
     (case ParseASN (fst (Cut (set_canon (sName s)) '':'')) of
        None \<Rightarrow> silently (Inr True)
      | Some n \<Rightarrow>
          (case db_lookup db ''aut-num'' (asn_String n) of
             Inl err \<Rightarrow> silently (if errors_Is err ErrNotFound then Inr True else Inl err)
           | Inr autnum \<Rightarrow>
               check_mntners db cred v (''the related aut-num '' @ asn_String n) (values_of (Some autnum) ''mnt-by'') None))"

fun irrdRelated :: "Database \<Rightarrow> Credential \<Rightarrow> Verifier option \<Rightarrow> object \<Rightarrow> check" where
  "irrdRelated db cred v (ORoute t) = irrdRoute db cred v ''route'' ''inetnum'' (rPrefix t)"
| "irrdRelated db cred v (ORoute6 t) = irrdRoute db cred v ''route6'' ''inet6num'' (rPrefix t)"
| "irrdRelated db cred v (OSet k s) = irrdSet db cred v s"
| "irrdRelated db cred v _ = silently (Inr True)"

text \<open>A new version of a maintainer must accept the credential itself.\<close>

definition new_version :: "Credential \<Rightarrow> Verifier option \<Rightarrow> Action \<Rightarrow> object \<Rightarrow> check" where
  "new_version cred v act ob rs =
     (case self_of ob of
        Some m \<Rightarrow>
          if act = Modify
          then (case CheckMntner (Some m) cred v of
                  Inl err \<Rightarrow> abort err rs
                | Inr (ok, _) \<Rightarrow>
                    if ok then (Inr True, rs @ [''the new version's own auth: lines: credential accepted''])
                    else fail ''the new version's own auth: lines: credential rejected'' rs)
          else (Inr True, rs)
      | None \<Rightarrow> (Inr True, rs))"

definition irrd :: "Database \<Rightarrow> Credential \<Rightarrow> Verifier option \<Rightarrow> Action \<Rightarrow> object \<Rightarrow> check" where
  "irrd db cred v act ob =
     (if act = Create \<and> self_of ob \<noteq> None then fail ''a new mntner is an administrator's to create''
      else and_then (check_mntners db cred v ''the submitted object's maintainers'' (values_of (Some ob) ''mnt-by'') None)
        (if act = Create then irrdRelated db cred v ob
         else with_stored db act ob (\<lambda>stored.
           and_then (check_mntners db cred v ''the stored object's maintainers'' (values_of (Some stored) ''mnt-by'') None)
             (new_version cred v act ob))))"

subsection \<open>Authorise\<close>

fun finish :: "(goerror + bool) \<times> string list \<Rightarrow> Decision \<times> goerror option" where
  "finish (Inl err, rs) = (\<lparr>OK = False, Reasons = rs\<rparr>, Some err)"
| "finish (Inr ok, rs) = (\<lparr>OK = ok, Reasons = rs\<rparr>, None)"

definition Authorise :: "Rules \<Rightarrow> Database \<Rightarrow> Update \<Rightarrow> Credential \<Rightarrow> Verifier option \<Rightarrow> Decision \<times> goerror option" where
  "Authorise r db u cred v =
     (case uObject u of
        None \<Rightarrow> finish (fail ''the update carries no object'' [])
      | Some ob \<Rightarrow>
          if object_Raw ob = None then finish (fail ''the update carries no object'' [])
          else case uAction u of
                 OtherAction n \<Rightarrow> finish (fail (''unknown action '' @ Action_String (OtherAction n)) [])
               | act \<Rightarrow> finish (if is_irrd r then irrd db cred v act ob [] else ripe db cred v act ob []))"

end
