(* ===== verification/Auth_Spec.thy ===== *)
theory Auth_Spec
  imports Auth_Rules
begin

text \<open>
  Who may make an update, said without order, reasons or early returns, and the proof that the rules
  decide exactly that: whenever a check ends without an error its answer is the specification's, and an
  error is never consent.
\<close>

subsection \<open>Consent\<close>

definition line_accepts :: "Verifier option \<Rightarrow> Credential \<Rightarrow> Auth \<Rightarrow> bool" where
  "line_accepts v cred a \<longleftrightarrow> (case v of None \<Rightarrow> False | Some verify \<Rightarrow> verify a cred = Inr True)"

definition name_consents :: "MntnerRegistry \<Rightarrow> Credential \<Rightarrow> Verifier option \<Rightarrow> string \<Rightarrow> bool" where
  "name_consents reg cred v n \<longleftrightarrow>
     (case reg n of Inr (Some m) \<Rightarrow> list_ex (line_accepts v cred) (mAuth m) | _ \<Rightarrow> False)"

definition consents :: "MntnerRegistry \<Rightarrow> Credential \<Rightarrow> Verifier option \<Rightarrow> string list \<Rightarrow> bool" where
  "consents reg cred v names \<longleftrightarrow> list_ex (name_consents reg cred v) names"

definition irt_name_consents :: "IrtRegistry \<Rightarrow> Credential \<Rightarrow> Verifier option \<Rightarrow> string \<Rightarrow> bool" where
  "irt_name_consents reg cred v n \<longleftrightarrow>
     (case reg n of Inr (Some irt) \<Rightarrow> list_ex (line_accepts v cred) (irtAuth irt) | _ \<Rightarrow> False)"

definition irt_consents :: "IrtRegistry \<Rightarrow> Credential \<Rightarrow> Verifier option \<Rightarrow> string list \<Rightarrow> bool" where
  "irt_consents reg cred v names \<longleftrightarrow> list_ex (irt_name_consents reg cred v) names"

definition self_consents :: "Credential \<Rightarrow> Verifier option \<Rightarrow> string list \<Rightarrow> Mntner option \<Rightarrow> bool" where
  "self_consents cred v names self \<longleftrightarrow>
     (case self of
        None \<Rightarrow> False
      | Some m \<Rightarrow> list_ex (\<lambda>n. EqualFold (TrimSpace n) (Handle m)) names \<and> list_ex (line_accepts v cred) (mAuth m))"

text \<open>The names not in \<open>had\<close>, each once, by a key.\<close>

fun fresh :: "('a \<Rightarrow> 'k) \<Rightarrow> 'k list \<Rightarrow> 'a list \<Rightarrow> 'a list" where
  "fresh key had [] = []"
| "fresh key had (x # xs) = (if key x \<in> set had then fresh key had xs else x # fresh key (key x # had) xs)"

subsection \<open>Who may do what\<close>

definition address_allows :: "Database \<Rightarrow> Credential \<Rightarrow> Verifier option \<Rightarrow> string \<Rightarrow> addr \<Rightarrow> addr \<Rightarrow> bool" where
  "address_allows db cred v cls lo hi \<longleftrightarrow>
     addr_isValid lo \<and> addr_isValid hi \<and>
     (case check_covering db cls lo hi of
        Inl _ \<Rightarrow> False
      | Inr cov \<Rightarrow>
          (case List.find (\<lambda>p. range_or_zero p \<noteq> (lo, hi)) cov of
             None \<Rightarrow> False
           | Some p \<Rightarrow> consents (dbMntner db) cred v (firstPresent p [''mnt-lower'', ''mnt-by''])))"

definition route_allows :: "Database \<Rightarrow> Credential \<Rightarrow> Verifier option \<Rightarrow> string list \<Rightarrow> prefix \<Rightarrow> bool" where
  "route_allows db cred v classes p \<longleftrightarrow>
     (case prefixRange p of
        None \<Rightarrow> False
      | Some (lo, hi) \<Rightarrow>
          (case firstCovering db lo hi classes of
             Inr (Some parent) \<Rightarrow> consents (dbMntner db) cred v (RouteAuthority (Ptr parent) p)
           | _ \<Rightarrow> False))"

definition domain_allows :: "Database \<Rightarrow> Credential \<Rightarrow> Verifier option \<Rightarrow> Domain \<Rightarrow> bool" where
  "domain_allows db cred v d \<longleftrightarrow>
     (case ReverseRange d of
        None \<Rightarrow> \<not> isReverseName (dName d)
      | Some (lo, hi) \<Rightarrow>
          (case firstCovering db lo hi [domain_class lo] of
             Inr (Some parent) \<Rightarrow>
               consents (dbMntner db) cred v (firstPresent parent
                 (if range_or_zero parent \<noteq> (lo, hi) then [''mnt-domains'', ''mnt-lower'', ''mnt-by'']
                  else [''mnt-domains'', ''mnt-by'']))
           | _ \<Rightarrow> False))"

definition set_allows :: "Database \<Rightarrow> Credential \<Rightarrow> Verifier option \<Rightarrow> set_kind \<Rightarrow> SetObject \<Rightarrow> bool" where
  "set_allows db cred v k s \<longleftrightarrow>
     (let key = set_canon (sName s) in
      CHR '':'' \<in> set key \<longrightarrow>
        (case db_lookup db (parent_class (kind_Class k) (parent_key key)) (parent_key key) of
           Inr parent \<Rightarrow> consents (dbMntner db) cred v (firstPresent parent [''mnt-lower'', ''mnt-by''])
         | Inl _ \<Rightarrow> False))"

definition asblock_allows :: "Database \<Rightarrow> Credential \<Rightarrow> Verifier option \<Rightarrow> asn \<Rightarrow> bool" where
  "asblock_allows db cred v n \<longleftrightarrow>
     (case check_asBlocks db n of
        Inr (b # _) \<Rightarrow> consents (dbMntner db) cred v (firstPresent (OAsBlock b) [''mnt-lower'', ''mnt-by''])
      | _ \<Rightarrow> False)"

fun parent_allows :: "Database \<Rightarrow> Credential \<Rightarrow> Verifier option \<Rightarrow> object \<Rightarrow> bool" where
  "parent_allows db cred v (OInetnum t) = address_allows db cred v ''inetnum'' (inLo t) (inHi t)"
| "parent_allows db cred v (OInet6num t) =
     (case prefixRange (in6Prefix t) of None \<Rightarrow> False | Some (lo, hi) \<Rightarrow> address_allows db cred v ''inet6num'' lo hi)"
| "parent_allows db cred v (OAutNum t) = asblock_allows db cred v (anAS t)"
| "parent_allows db cred v (ORoute t) = route_allows db cred v [''route'', ''inetnum''] (rPrefix t)"
| "parent_allows db cred v (ORoute6 t) = route_allows db cred v [''route6'', ''inet6num''] (rPrefix t)"
| "parent_allows db cred v (ODomain d) = domain_allows db cred v d"
| "parent_allows db cred v (OSet k s) = set_allows db cred v k s"
| "parent_allows db cred v _ = True"

definition reference_allows :: "Database \<Rightarrow> Credential \<Rightarrow> Verifier option \<Rightarrow> object \<Rightarrow> string list \<Rightarrow> string \<Rightarrow> bool" where
  "reference_allows db cred v ob classes name \<longleftrightarrow>
     (case referenced db name classes of
        Inr (Some (ref, cls)) \<Rightarrow>
          (cls = object_Class ob \<and> normalKey cls name = self_key ob) \<or>
          (values_of (Some ref) ''mnt-ref'' = [] \<and> cls \<noteq> ''organisation'') \<or>
          consents (dbMntner db) cred v (values_of (Some ref) ''mnt-ref'')
      | _ \<Rightarrow> True)"

definition references_allow :: "Database \<Rightarrow> Credential \<Rightarrow> Verifier option \<Rightarrow> object option \<Rightarrow> object \<Rightarrow> bool" where
  "references_allow db cred v stored ob \<longleftrightarrow>
     (let added = AddedMntIrt (iface_of stored) (Ptr ob) in added = [] \<or> irt_consents (irtLookup db) cred v added) \<and>
     list_all (\<lambda>(attr, classes).
       list_all (reference_allows db cred v ob classes)
         (fresh ToUpper (map ToUpper (values_of stored attr)) (values_of (Some ob) attr))) referenceAttrs"

definition holder_allows :: "Database \<Rightarrow> Credential \<Rightarrow> Verifier option \<Rightarrow> object \<Rightarrow> bool" where
  "holder_allows db cred v stored \<longleftrightarrow>
     (case stored of
        ODomain d \<Rightarrow>
          (case ReverseRange d of
             None \<Rightarrow> False
           | Some (lo, hi) \<Rightarrow>
               (case check_covering db (domain_class lo) lo hi of
                  Inl _ \<Rightarrow> False
                | Inr cov \<Rightarrow>
                    (case List.find (\<lambda>p. range_or_zero p = (lo, hi) \<and> values_of (Some p) ''mnt-domains'' \<noteq> []) cov of
                       None \<Rightarrow> False
                     | Some p \<Rightarrow> consents (dbMntner db) cred v (values_of (Some p) ''mnt-domains''))))
      | _ \<Rightarrow> False)"

fun ripe_allows :: "Database \<Rightarrow> Credential \<Rightarrow> Verifier option \<Rightarrow> Action \<Rightarrow> object \<Rightarrow> bool" where
  "ripe_allows db cred v Create ob \<longleftrightarrow>
     (self_consents cred v (values_of (Some ob) ''mnt-by'') (self_of ob) \<or>
      consents (dbMntner db) cred v (values_of (Some ob) ''mnt-by'')) \<and>
     parent_allows db cred v ob \<and> references_allow db cred v None ob"
| "ripe_allows db cred v Modify ob \<longleftrightarrow>
     (case check_current db ob of
        Inl _ \<Rightarrow> False
      | Inr stored \<Rightarrow>
          consents (dbMntner db) cred v
            (if values_of (Some stored) ''mnt-by'' = [] then values_of (Some ob) ''mnt-by'' else values_of (Some stored) ''mnt-by'') \<and>
          references_allow db cred v (Some stored) ob)"
| "ripe_allows db cred v Delete ob \<longleftrightarrow>
     (case check_current db ob of
        Inl _ \<Rightarrow> False
      | Inr stored \<Rightarrow>
          consents (dbMntner db) cred v (values_of (Some stored) ''mnt-by'') \<or> holder_allows db cred v stored)"
| "ripe_allows db cred v (OtherAction n) ob \<longleftrightarrow> False"

definition irrd_route_allows :: "Database \<Rightarrow> Credential \<Rightarrow> Verifier option \<Rightarrow> string \<Rightarrow> string \<Rightarrow> prefix \<Rightarrow> bool" where
  "irrd_route_allows db cred v routeClass spaceClass p \<longleftrightarrow>
     (case prefixRange p of
        None \<Rightarrow> False
      | Some (lo, hi) \<Rightarrow>
          (case check_covering db spaceClass lo hi of
             Inr (s # _) \<Rightarrow> consents (dbMntner db) cred v (values_of (Some s) ''mnt-by'')
           | Inr [] \<Rightarrow>
               (case check_covering db routeClass lo hi of
                  Inr cov \<Rightarrow>
                    (case List.find (\<lambda>r. range_or_zero r \<noteq> (lo, hi)) cov of
                       None \<Rightarrow> True
                     | Some r \<Rightarrow> consents (dbMntner db) cred v (values_of (Some r) ''mnt-by''))
                | Inl _ \<Rightarrow> False)
           | Inl _ \<Rightarrow> False))"

fun related_allows :: "Database \<Rightarrow> Credential \<Rightarrow> Verifier option \<Rightarrow> object \<Rightarrow> bool" where
  "related_allows db cred v (ORoute t) = irrd_route_allows db cred v ''route'' ''inetnum'' (rPrefix t)"
| "related_allows db cred v (ORoute6 t) = irrd_route_allows db cred v ''route6'' ''inet6num'' (rPrefix t)"
| "related_allows db cred v (OSet k s) =
     (case ParseASN (fst (Cut (set_canon (sName s)) '':'')) of
        None \<Rightarrow> True
      | Some n \<Rightarrow>
          (case db_lookup db ''aut-num'' (asn_String n) of
             Inr autnum \<Rightarrow> consents (dbMntner db) cred v (values_of (Some autnum) ''mnt-by'')
           | Inl _ \<Rightarrow> True))"
| "related_allows db cred v _ = True"

definition irrd_allows :: "Database \<Rightarrow> Credential \<Rightarrow> Verifier option \<Rightarrow> Action \<Rightarrow> object \<Rightarrow> bool" where
  "irrd_allows db cred v act ob \<longleftrightarrow>
     consents (dbMntner db) cred v (values_of (Some ob) ''mnt-by'') \<and>
     (if act = Create then self_of ob = None \<and> related_allows db cred v ob
      else case check_current db ob of
             Inl _ \<Rightarrow> False
           | Inr stored \<Rightarrow>
               consents (dbMntner db) cred v (values_of (Some stored) ''mnt-by'') \<and>
               (case self_of ob of Some m \<Rightarrow> act = Modify \<longrightarrow> list_ex (line_accepts v cred) (mAuth m) | None \<Rightarrow> True))"

subsection \<open>Checks that decide\<close>

definition decides :: "check \<Rightarrow> bool \<Rightarrow> bool" where
  "decides c P \<longleftrightarrow> (\<forall>rs b rs'. c rs = (Inr b, rs') \<longrightarrow> b = P)"

definition answers :: "check \<Rightarrow> bool" where
  "answers c \<longleftrightarrow> (\<forall>rs. \<not> isl (fst (c rs)))"

named_theorems deciding

lemma decides_fail [deciding]: "decides (fail r) False"
  by (simp add: decides_def fail_def)

lemma decides_silently [deciding]: "decides (silently (Inr b)) b" "decides (silently (Inl err)) P"
  by (simp_all add: decides_def silently_def)

lemma decides_abort [deciding]: "decides (abort err) P"
  by (simp add: decides_def abort_def)

lemma decides_and_then [deciding]: "decides c P \<Longrightarrow> decides c' Q \<Longrightarrow> decides (and_then c c') (P \<and> Q)"
  unfolding decides_def and_then_def by (auto split: prod.splits sum.splits bool.splits)

lemma decides_or_else [deciding]: "decides c P \<Longrightarrow> decides c' Q \<Longrightarrow> decides (or_else c c') (P \<or> Q)"
  unfolding decides_def or_else_def by (auto split: prod.splits sum.splits bool.splits)

lemma answers_basic [deciding]: "answers (fail r)" "answers (silently (Inr b))"
  by (simp_all add: answers_def fail_def silently_def)

lemma answers_and_then [deciding]: "answers c \<Longrightarrow> answers c' \<Longrightarrow> answers (and_then c c')"
  unfolding answers_def and_then_def by (auto split: prod.splits sum.splits bool.splits) (metis fst_conv sum.disc(1))+

lemma answers_or_else [deciding]: "answers c \<Longrightarrow> answers c' \<Longrightarrow> answers (or_else c c')"
  unfolding answers_def or_else_def by (auto split: prod.splits sum.splits bool.splits) (metis fst_conv sum.disc(1))+

subsection \<open>Maintainers\<close>

lemma checkAuth_loop_exact:
  "checkAuth_loop cred v ls u = Inr (ok, u') \<Longrightarrow> ok = list_ex (line_accepts v cred) ls"
  by (induction ls arbitrary: u) (auto simp: line_accepts_def split: option.splits sum.splits if_splits)

lemma name_consents_lookup:
  "name_consents reg cred v n = (case mntner_lookup reg n of Inr m \<Rightarrow> list_ex (line_accepts v cred) (mAuth m) | Inl _ \<Rightarrow> False)"
  by (simp add: name_consents_def mntner_lookup_def split: sum.split option.split)

lemma irt_consents_lookup:
  "irt_name_consents reg cred v n = (case irt_lookup reg n of Inr m \<Rightarrow> list_ex (line_accepts v cred) (irtAuth m) | Inl _ \<Rightarrow> False)"
  by (simp add: irt_name_consents_def irt_lookup_def split: sum.split option.split)

lemma CheckMntners_loop_exact:
  "CheckMntners_loop reg cred v names rs = Inr d \<Longrightarrow> OK d = consents reg cred v names"
proof (induction names arbitrary: rs)
  case (Cons n names)
  then show ?case
    by (cases "mntner_lookup reg n")
      (auto simp: consents_def name_consents_lookup checkAuth_def split: sum.splits if_splits prod.splits dest!: checkAuth_loop_exact)
qed (auto simp: consents_def)

lemma CheckMntners_exact: "CheckMntners reg names cred v = Inr d \<Longrightarrow> OK d = consents reg cred v names"
  by (auto simp: CheckMntners_def consents_def split: if_splits dest!: CheckMntners_loop_exact)

lemma CheckIrts_exact: "CheckIrts reg names cred v = Inr d \<Longrightarrow> OK d = irt_consents reg cred v names"
proof -
  have "CheckIrts_loop reg cred v names rs = Inr d \<Longrightarrow> OK d = irt_consents reg cred v names" for rs
  proof (induction names arbitrary: rs)
    case (Cons n names)
    then show ?case
      by (cases "irt_lookup reg n")
        (auto simp: irt_consents_def irt_consents_lookup checkAuth_def split: sum.splits if_splits prod.splits dest!: checkAuth_loop_exact)
  qed (auto simp: irt_consents_def)
  then show "CheckIrts reg names cred v = Inr d \<Longrightarrow> OK d = irt_consents reg cred v names" by (simp add: CheckIrts_def)
qed

lemma self_loop_exact: "self_loop m cred v names = Inr r \<Longrightarrow> (r \<noteq> None) = self_consents cred v names (Some m)"
  by (induction names)
    (auto simp: self_consents_def checkAuth_def split: sum.splits if_splits prod.splits dest!: checkAuth_loop_exact)

lemma decides_mntners [deciding]:
  "decides (check_mntners db cred v what names self) (self_consents cred v names self \<or> consents (dbMntner db) cred v names)"
proof -
  have "b = (self_consents cred v names self \<or> consents (dbMntner db) cred v names)"
    if "check_mntners db cred v what names self rs = (Inr b, rs')" for rs b rs'
  proof (cases "names = []")
    case True
    then show ?thesis using that by (auto simp: check_mntners_def consents_def self_consents_def split: option.splits)
  next
    case False
    then show ?thesis using that
      by (auto simp: check_mntners_def self_consents_def [of _ _ _ None] split: option.splits sum.splits
          dest!: self_loop_exact CheckMntners_exact)
  qed
  then show ?thesis by (simp add: decides_def)
qed

lemma self_None [simp]: "self_consents cred v names None = False"
  by (simp add: self_consents_def)

subsection \<open>Parents and references\<close>

lemma self_None_simps: "(self_consents cred v names None \<or> P) = P"
  by simp

lemmas decides_names = decides_mntners [where self = None, unfolded self_None_simps]

lemma addressParent_decides: "decides (addressParent db cred v cls lo hi) (address_allows db cred v cls lo hi)"
proof -
  have "decides (addressParent_loop db cred v cls lo hi cov)
      (case List.find (\<lambda>p. range_or_zero p \<noteq> (lo, hi)) cov of
         None \<Rightarrow> False | Some p \<Rightarrow> consents (dbMntner db) cred v (firstPresent p [''mnt-lower'', ''mnt-by'']))" for cov
    by (induction cov) (simp_all add: decides_fail decides_names)
  then show ?thesis
    by (cases "check_covering db cls lo hi"; cases "addr_isValid lo \<and> addr_isValid hi")
      (auto simp: addressParent_def address_allows_def decides_fail decides_silently)
qed

lemma routeParent_decides:
  "decides (routeParent db cred v c1 c2 p) (route_allows db cred v [c1, c2] p)"
proof -
  have "decides (if ns = [] then fail r else check_mntners db cred v w ns None) (consents (dbMntner db) cred v ns)" for ns r w
    by (cases "ns = []") (simp_all add: decides_names decides_fail consents_def [of _ _ _ "[]"])
  then show ?thesis
    unfolding routeParent_def route_allows_def Let_def
    by (auto simp: decides_fail decides_silently simp del: firstCovering.simps split: option.split sum.split)
qed

lemma domainParent_decides: "decides (domainParent db cred v d) (domain_allows db cred v d)"
  unfolding domainParent_def domain_allows_def Let_def
  by (auto simp: decides_fail decides_silently decides_silently(1) [of True, simplified] decides_names split: option.split sum.split)

lemma namedParent_decides: "decides (namedParent db cred v k s) (set_allows db cred v k s)"
  unfolding namedParent_def set_allows_def Let_def
  by (auto simp: decides_fail decides_silently decides_names split: option.split sum.split)

lemma asBlockParent_decides: "decides (asBlockParent db cred v n) (asblock_allows db cred v n)"
  unfolding asBlockParent_def asblock_allows_def
  by (auto simp: decides_fail decides_silently decides_names split: sum.split list.split)

lemma ripeParent_decides [deciding]: "decides (ripeParent db cred v ob) (parent_allows db cred v ob)"
  by (cases ob)
    (auto simp: decides_fail decides_silently addressParent_decides routeParent_decides domainParent_decides
      namedParent_decides asBlockParent_decides split: option.split)

lemma check_reference_decides:
  "decides (check_reference db cred v ob attr classes name) (reference_allows db cred v ob classes name)"
proof (cases "referenced db name classes")
  case (Inr r)
  show ?thesis
  proof (cases r)
    case (Some rc)
    obtain ref cls where rc: "rc = (ref, cls)" by (cases rc)
    define own where "own \<longleftrightarrow> cls = object_Class ob \<and> normalKey cls name = self_key ob"
    define free where "free \<longleftrightarrow> values_of (Some ref) ''mnt-ref'' = [] \<and> cls \<noteq> ''organisation''"
    show ?thesis
      unfolding check_reference_def reference_allows_def Inr Some rc Let_def sum.case option.case prod.case
        own_def [symmetric] free_def [symmetric]
      by (cases own; cases free) (simp_all add: decides_silently decides_names)
  qed (simp add: check_reference_def reference_allows_def Inr decides_silently)
qed (simp add: check_reference_def decides_silently)

lemma check_references_decides:
  "decides (check_references db cred v ob attr classes had names)
     (list_all (reference_allows db cred v ob classes) (fresh ToUpper had names))"
  by (induction names arbitrary: had)
    (auto simp: decides_silently intro: decides_and_then check_reference_decides)

lemma check_irts_decides:
  "decides (check_irts db cred v stored ob)
     (let added = AddedMntIrt (iface_of stored) (Ptr ob) in added = [] \<or> irt_consents (irtLookup db) cred v added)"
  by (auto simp: decides_def check_irts_def Let_def split: sum.splits if_splits dest!: CheckIrts_exact)

lemma ripeReferences_decides [deciding]: "decides (ripeReferences db cred v stored ob) (references_allow db cred v stored ob)"
proof -
  have "decides (check_attrs db cred v stored ob ras)
      (list_all (\<lambda>(attr, classes). list_all (reference_allows db cred v ob classes)
         (fresh ToUpper (map ToUpper (values_of stored attr)) (values_of (Some ob) attr))) ras)" for ras
  proof (induction ras)
    case (Cons ra ras)
    then show ?case by (cases ra) (simp add: decides_and_then check_references_decides)
  qed (simp add: decides_silently)
  then show ?thesis
    unfolding ripeReferences_def references_allow_def by (intro decides_and_then check_irts_decides)
qed

lemma domainHolder_decides [deciding]: "decides (domainHolder db cred v stored) (holder_allows db cred v stored)"
proof -
  have "decides (domainHolder_loop db cred v lo hi cov)
      (case List.find (\<lambda>p. range_or_zero p = (lo, hi) \<and> values_of (Some p) ''mnt-domains'' \<noteq> []) cov of
         None \<Rightarrow> False | Some p \<Rightarrow> consents (dbMntner db) cred v (values_of (Some p) ''mnt-domains''))" for lo hi cov
    by (induction cov) (auto simp: decides_silently decides_names Let_def)
  then have "decides (case ReverseRange d of
             None \<Rightarrow> silently (Inr False)
           | Some (lo, hi) \<Rightarrow>
               (case check_covering db (domain_class lo) lo hi of
                  Inl err \<Rightarrow> silently (Inl err)
                | Inr cov \<Rightarrow> domainHolder_loop db cred v lo hi cov)) (holder_allows db cred v (ODomain d))" for d
    by (cases "ReverseRange d") (simp_all add: holder_allows_def decides_silently split: sum.split prod.split)
  then show ?thesis
    by (cases stored) (simp_all only: domainHolder_def object.case, simp_all add: decides_silently holder_allows_def)
qed

subsection \<open>The rules decide the specification\<close>

lemma with_stored_decides:
  "(\<And>stored. decides (k stored) (P stored)) \<Longrightarrow>
   decides (with_stored db act ob k) (case check_current db ob of Inl _ \<Rightarrow> False | Inr stored \<Rightarrow> P stored)"
  by (auto simp: with_stored_def decides_fail decides_abort split: sum.split)

lemma ripe_decides: "act \<in> {Create, Modify, Delete} \<Longrightarrow> decides (ripe db cred v act ob) (ripe_allows db cred v act ob)"
proof (cases act)
  case Create
  then show ?thesis by (simp add: deciding)
next
  case Modify
  show ?thesis unfolding Modify ripe.simps ripe_allows.simps Let_def
    by (intro with_stored_decides decides_and_then decides_names ripeReferences_decides)
next
  case Delete
  show ?thesis unfolding Delete ripe.simps ripe_allows.simps
    by (intro with_stored_decides decides_or_else decides_names domainHolder_decides)
qed simp

lemma irrdRelated_decides: "decides (irrdRelated db cred v ob) (related_allows db cred v ob)"
proof -
  have ls: "less_specific lo hi cov = List.find (\<lambda>r. range_or_zero r \<noteq> (lo, hi)) cov" for lo hi cov
    by (induction cov) simp_all
  have "decides (irrdRoute db cred v c1 c2 p) (irrd_route_allows db cred v c1 c2 p)" for c1 c2 p
    unfolding irrdRoute_def irrd_route_allows_def
    by (auto simp: ls decides_fail decides_silently decides_names split: option.split sum.split list.split)
  then show ?thesis
    by (cases ob) (auto simp: irrdSet_def decides_silently decides_names split: option.split sum.split)
qed

lemma new_version_decides:
  "decides (new_version cred v act ob) (case self_of ob of Some m \<Rightarrow> act = Modify \<longrightarrow> list_ex (line_accepts v cred) (mAuth m) | None \<Rightarrow> True)"
  by (auto simp: decides_def new_version_def abort_def fail_def checkAuth_def split: option.splits if_splits sum.splits dest!: checkAuth_loop_exact)

lemma irrd_decides: "decides (irrd db cred v act ob) (irrd_allows db cred v act ob)"
proof (cases "act = Create \<and> self_of ob \<noteq> None")
  case True
  then show ?thesis by (auto simp: irrd_def irrd_allows_def decides_fail)
next
  case False
  show ?thesis
  proof (cases "act = Create")
    case True
    then show ?thesis using False decides_and_then [OF decides_names irrdRelated_decides] by (simp add: irrd_def irrd_allows_def)
  next
    case no: False
    have "decides (with_stored db act ob (\<lambda>stored.
           and_then (check_mntners db cred v ''the stored object's maintainers'' (values_of (Some stored) ''mnt-by'') None)
             (new_version cred v act ob)))
        (case check_current db ob of
             Inl _ \<Rightarrow> False
           | Inr stored \<Rightarrow>
               consents (dbMntner db) cred v (values_of (Some stored) ''mnt-by'') \<and>
               (case self_of ob of Some m \<Rightarrow> act = Modify \<longrightarrow> list_ex (line_accepts v cred) (mAuth m) | None \<Rightarrow> True))"
      by (intro with_stored_decides decides_and_then decides_names new_version_decides)
    from decides_and_then [OF decides_names this] show ?thesis using no by (simp add: irrd_def irrd_allows_def)
  qed
qed

end
