(* ===== verification/Auth_Total.thy ===== *)
theory Auth_Total
  imports Auth_Spec
begin

text \<open>
  When authorising answers.  A database whose lookups fail only by not finding, and a verifier that fails
  only on schemes it does not handle, never leave an update without a decision; the database over decoded
  objects is one.
\<close>

definition calm_verifier :: "Verifier option \<Rightarrow> bool" where
  "calm_verifier v \<longleftrightarrow>
     (\<forall>verify a cred err. v = Some verify \<longrightarrow> verify a cred = Inl err \<longrightarrow> errors_Is err ErrUnsupportedMethod)"

lemma checkAuth_answers: "calm_verifier v \<Longrightarrow> \<not> isl (checkAuth_loop cred v ls u)"
  by (induction ls arbitrary: u) (auto simp: calm_verifier_def split: option.split sum.split)

lemma checkAuth_Inr: "calm_verifier v \<Longrightarrow> checkAuth_loop cred v ls u \<noteq> Inl e"
  using checkAuth_answers [of v cred ls u] by auto

lemma self_loop_answers: "calm_verifier v \<Longrightarrow> self_loop m cred v names \<noteq> Inl e"
  by (induction names) (auto simp: checkAuth_def split: sum.splits dest: checkAuth_Inr)

lemma CheckMntners_answers:
  assumes "calm_verifier v" "\<And>n e. reg n = Inl e \<Longrightarrow> errors_Is e ErrNoMntner"
  shows "CheckMntners reg names cred v \<noteq> Inl e"
proof -
  have l: "mntner_lookup reg n = Inl e \<Longrightarrow> errors_Is e ErrNoMntner" for n e
    using assms(2) [of n] by (auto simp: mntner_lookup_def errors_Is_def split: sum.splits option.splits)
  have "CheckMntners_loop reg cred v names rs \<noteq> Inl e" for rs
    using l by (induction names arbitrary: rs) (auto simp: checkAuth_def checkAuth_Inr [OF assms(1)] split: sum.splits)
  then show ?thesis by (simp add: CheckMntners_def)
qed

lemma CheckIrts_answers:
  assumes "calm_verifier v" "\<And>n e. reg n = Inl e \<Longrightarrow> errors_Is e ErrNoIrt"
  shows "CheckIrts reg names cred v \<noteq> Inl e"
proof -
  have l: "irt_lookup reg n = Inl e \<Longrightarrow> errors_Is e ErrNoIrt" for n e
    using assms(2) [of n] by (auto simp: irt_lookup_def errors_Is_def split: sum.splits option.splits)
  have "CheckIrts_loop reg cred v names rs \<noteq> Inl e" for rs
    using l by (induction names arbitrary: rs) (auto simp: checkAuth_def checkAuth_Inr [OF assms(1)] split: sum.splits)
  then show ?thesis by (simp add: CheckIrts_def)
qed

subsection \<open>A database that answers\<close>

locale answering_db =
  fixes db :: Database
  assumes mntner_errors: "dbMntner db n = Inl e \<Longrightarrow> errors_Is e ErrNoMntner"
    and current_errors: "dbCurrent db ob = Inl e \<Longrightarrow> errors_Is e ErrNotFound"
    and object_errors: "dbObject db cls key = Inl e \<Longrightarrow> errors_Is e ErrNotFound"
    and covering_answers: "dbCovering db cls lo hi \<noteq> Inl e"
    and blocks_answer: "dbASBlocks db asn \<noteq> Inl e"
begin

lemma lookup_errors: "db_lookup db cls key = Inl e \<Longrightarrow> errors_Is e ErrNotFound"
  using object_errors by (cases "dbObject db cls key") (auto simp: db_lookup_def errors_Is_def elim: found.elims)

lemma stored_errors: "check_current db ob = Inl e \<Longrightarrow> errors_Is e ErrNotFound"
  using current_errors by (cases "dbCurrent db ob") (auto simp: check_current_def errors_Is_def elim: found.elims)

lemma covering_found: "check_covering db cls lo hi \<noteq> Inl e"
  using covering_answers by (cases "dbCovering db cls lo hi") (auto simp: check_covering_def)

lemma blocks_found: "check_asBlocks db n \<noteq> Inl e"
  using blocks_answer by (cases "dbASBlocks db n") (auto simp: check_asBlocks_def)

lemma firstCovering_found: "firstCovering db lo hi classes \<noteq> Inl e"
  using covering_found by (induction classes) (auto split: sum.split list.split)

lemma referenced_found: "referenced db name classes \<noteq> Inl e"
  using lookup_errors by (induction classes) (auto split: sum.split)

lemma mntners_answers: "calm_verifier v \<Longrightarrow> answers (check_mntners db cred v what names self)"
  using CheckMntners_answers [of v "dbMntner db"] mntner_errors self_loop_answers [of v]
  by (auto simp: answers_def check_mntners_def split: option.split sum.split)

lemma addressParent_answers: "calm_verifier v \<Longrightarrow> answers (addressParent db cred v cls lo hi)"
proof -
  assume v: "calm_verifier v"
  have "answers (addressParent_loop db cred v cls lo hi cov)" for cov
    by (induction cov) (simp_all add: answers_basic mntners_answers [OF v])
  then show ?thesis using covering_found by (auto simp: addressParent_def answers_basic split: sum.split)
qed

lemma ripeParent_answers:
  assumes v: "calm_verifier v"
  shows "answers (ripeParent db cred v ob)"
proof -
  have r: "answers (routeParent db cred v c1 c2 p)" for c1 c2 p
    using firstCovering_found unfolding routeParent_def Let_def
    by (auto simp: answers_basic mntners_answers [OF v] simp del: firstCovering.simps split: option.split sum.split)
  have d: "answers (domainParent db cred v d)" for d
    using firstCovering_found unfolding domainParent_def Let_def
    by (auto simp: answers_basic mntners_answers [OF v] simp del: firstCovering.simps split: option.split sum.split)
  have s: "answers (namedParent db cred v k st)" for k st
    using lookup_errors unfolding namedParent_def Let_def
    by (auto simp: answers_basic mntners_answers [OF v] split: sum.split)
  have b: "answers (asBlockParent db cred v n)" for n
    using blocks_found unfolding asBlockParent_def
    by (auto simp: answers_basic mntners_answers [OF v] split: sum.split list.split)
  show ?thesis
    by (cases ob) (auto simp: answers_basic addressParent_answers [OF v] r d s b split: option.split)
qed

lemma ripeReferences_answers:
  assumes v: "calm_verifier v"
  shows "answers (ripeReferences db cred v stored ob)"
proof -
  have "irtLookup db n = Inl e \<Longrightarrow> errors_Is e ErrNoIrt" for n e
    using lookup_errors [of "''irt''" n] by (auto simp: irtLookup_def errors_Is_def split: sum.splits if_splits object.splits)
  then have i: "answers (check_irts db cred v stored ob)"
    using CheckIrts_answers [OF v, of "irtLookup db"] by (auto simp: answers_def check_irts_def Let_def split: sum.split)
  have "answers (check_reference db cred v ob attr classes name)" for attr classes name
    using referenced_found unfolding check_reference_def Let_def
    by (auto simp: answers_basic mntners_answers [OF v] split: sum.split option.split)
  then have r: "answers (check_references db cred v ob attr classes had names)" for attr classes had names
    by (induction names arbitrary: had) (simp_all add: answers_basic answers_and_then)
  have "answers (check_attrs db cred v stored ob ras)" for ras
  proof (induction ras)
    case (Cons ra ras)
    then show ?case by (cases ra) (simp add: answers_and_then r)
  qed (simp add: answers_basic)
  then show ?thesis unfolding ripeReferences_def by (intro answers_and_then i)
qed

lemma domainHolder_answers:
  assumes v: "calm_verifier v"
  shows "answers (domainHolder db cred v stored)"
proof -
  have "answers (domainHolder_loop db cred v lo hi cov)" for lo hi cov
    by (induction cov) (simp_all add: answers_basic mntners_answers [OF v] Let_def)
  then show ?thesis using covering_found
    by (cases stored) (auto simp: domainHolder_def answers_basic split: option.split sum.split)
qed

lemma with_stored_answers: "(\<And>stored. answers (k stored)) \<Longrightarrow> answers (with_stored db act ob k)"
  using stored_errors by (auto simp: with_stored_def answers_basic split: sum.split)

lemma ripe_answers: "calm_verifier v \<Longrightarrow> answers (ripe db cred v act ob)"
  by (cases act)
    (auto simp: Let_def intro!: with_stored_answers answers_and_then answers_or_else mntners_answers ripeParent_answers
      ripeReferences_answers domainHolder_answers)

lemma irrd_answers:
  assumes v: "calm_verifier v"
  shows "answers (irrd db cred v act ob)"
proof -
  have m: "map_sum id f (check_covering db c lo hi) \<noteq> Inl e" for f :: "object list \<Rightarrow> object option" and c lo hi e
    using covering_found [of c lo hi] by (cases "check_covering db c lo hi") auto
  have r: "answers (irrdRoute db cred v c1 c2 p)" for c1 c2 p
    using covering_found m unfolding irrdRoute_def
    by (auto simp: answers_basic mntners_answers [OF v] split: option.split sum.split list.split)
  have s: "answers (irrdSet db cred v st)" for st
    using lookup_errors unfolding irrdSet_def by (auto simp: answers_basic mntners_answers [OF v] split: option.split sum.split)
  have "answers (irrdRelated db cred v ob)" by (cases ob) (simp_all add: answers_basic r s)
  moreover have "answers (new_version cred v act ob)"
    by (auto simp: answers_def new_version_def fail_def checkAuth_def checkAuth_Inr [OF v] split: option.split sum.split)
  ultimately show ?thesis
    unfolding irrd_def
    by (auto simp: answers_basic intro!: with_stored_answers answers_and_then mntners_answers [OF v])
qed

end

interpretation mem: answering_db "mem_Database m" for m
proof
  fix n e
  show "dbMntner (mem_Database m) n = Inl e \<Longrightarrow> errors_Is e ErrNoMntner"
    by (auto simp: mem_Database_def mem_Mntner_def errors_Is_def split: option.splits object.splits)
next
  fix ob e
  show "dbCurrent (mem_Database m) ob = Inl e \<Longrightarrow> errors_Is e ErrNotFound"
    by (auto simp: mem_Database_def mem_Current_def errors_Is_def split: option.splits)
next
  fix cls key e
  show "dbObject (mem_Database m) cls key = Inl e \<Longrightarrow> errors_Is e ErrNotFound"
    by (auto simp: mem_Database_def mem_Object_def errors_Is_def Let_def split: option.splits)
qed (simp_all add: mem_Database_def mem_Covering_def mem_ASBlocks_def Let_def)

end
