(* ===== verification/Auth_Space.thy ===== *)
theory Auth_Space
  imports Auth_Rules
begin

text \<open>
  What it means for an object's address space to cover a prefix: it holds every address of the prefix.
\<close>

lemma unat_clear_low:
  fixes w :: "'a::len word"
  shows "unat (and w (not (mask k))) = unat w div 2 ^ k * 2 ^ k"
proof -
  have "and w (not (mask k)) = push_bit k (drop_bit k w)"
    by (rule bit_eqI) (auto simp: bit_simps)
  then have "unat (and w (not (mask k))) = take_bit LENGTH('a) (push_bit k (drop_bit k (unat w)))"
    by (simp add: unsigned_push_bit_eq unsigned_drop_bit_eq take_bit_nat_eq_self unsigned_less)
  also have "push_bit k (drop_bit k (unat w)) = unat w div 2 ^ k * 2 ^ k" by (simp add: push_bit_eq_mult drop_bit_eq_div)
  also have "take_bit LENGTH('a) (unat w div 2 ^ k * 2 ^ k) = unat w div 2 ^ k * 2 ^ k"
  proof (rule take_bit_nat_eq_self)
    have "unat w div 2 ^ k * 2 ^ k \<le> unat w" by simp
    also have "unat w < 2 ^ LENGTH('a)" by (rule unsigned_less)
    finally show "unat w div 2 ^ k * 2 ^ k < 2 ^ LENGTH('a)" .
  qed
  finally show ?thesis .
qed

lemma valid_addr: "wf_prefix p \<Longrightarrow> prefix_isValid p \<Longrightarrow> Addr p \<noteq> ZeroAddr \<and> Bits p \<le> BitLen (Addr p) \<and> zone (Addr p) = []"
  by (auto simp: wf_prefix_def prefix_isValid_def)

lemma num_Masked:
  assumes "wf_prefix p" "prefix_isValid p"
  shows "num (Addr (Masked p)) = fst (prefix_block p)" "prefix_block (Masked p) = prefix_block p"
proof -
  note v = valid_addr [OF assms]
  show n: "num (Addr (Masked p)) = fst (prefix_block p)"
    using v assms(2)
    by (cases "Addr p") (auto simp: Masked_def addr_Prefix_def prefix_block_def PrefixFrom_def prefix_isValid_def unat_clear_low Let_def)
  show "prefix_block (Masked p) = prefix_block p"
    using n unfolding prefix_block_def Let_def by (simp add: Masked_valid [OF assms])
qed

lemma Compare_num:
  assumes "BitLen a = BitLen b" "zone a = []" "zone b = []"
  shows "addr_Compare a b > 0 \<longleftrightarrow> num b < num a" "addr_Compare a b < 0 \<longleftrightarrow> num a < num b"
    "addr_Compare a b \<le> 0 \<longleftrightarrow> num a \<le> num b"
  using assms by (auto simp: addr_Compare_def)

text \<open>The objects that hold addresses, in the form decoding gives them.\<close>

fun wf_space :: "object \<Rightarrow> bool" where
  "wf_space (OInetnum t) = (zone (inLo t) = [] \<and> zone (inHi t) = [])"
| "wf_space (OInet6num t) = wf_prefix (in6Prefix t)"
| "wf_space (ORoute t) = wf_prefix (rPrefix t)"
| "wf_space (ORoute6 t) = wf_prefix (rPrefix t)"
| "wf_space _ = True"

definition holds_all :: "addr \<times> addr \<Rightarrow> prefix \<Rightarrow> bool" where
  "holds_all r p \<longleftrightarrow> BitLen (fst r) = BitLen (Addr p) \<and> BitLen (snd r) = BitLen (Addr p) \<and>
     (\<forall>a. prefix_Contains p a \<longrightarrow> num (fst r) \<le> num a \<and> num a \<le> num (snd r))"

lemma less_eq_Suc: "1 \<le> (k::nat) \<Longrightarrow> n < c + k \<longleftrightarrow> n \<le> c + k - 1"
  by linarith

lemma holds_all_ends:
  assumes "wf_prefix p" "prefix_isValid p" "BitLen lo = BitLen (Addr p)" "BitLen hi = BitLen (Addr p)"
  shows "holds_all (lo, hi) p \<longleftrightarrow>
     num lo \<le> fst (prefix_block p) \<and> fst (prefix_block p) + 2 ^ snd (prefix_block p) - 1 \<le> num hi"
proof -
  let ?c = "fst (prefix_block p)" and ?e = "fst (prefix_block p) + 2 ^ snd (prefix_block p) - 1"
  note v = valid_addr [OF assms(1,2)]
  have pos: "(1::nat) \<le> 2 ^ snd (prefix_block p)" by simp
  then have ends: "?c \<le> ?e" by linarith
  have same: "prefix_Contains p a \<Longrightarrow> zone a = [] \<and> BitLen a = BitLen (Addr p)" for a
    using v by (cases "Addr p"; cases a) (auto simp: prefix_Contains_def split: if_splits)
  have C: "zone a = [] \<Longrightarrow> BitLen a = BitLen (Addr p) \<Longrightarrow> prefix_Contains p a \<longleftrightarrow> ?c \<le> num a \<and> num a \<le> ?e" for a
    using prefix_Contains_block [of p a] v assms(2) less_eq_Suc [OF pos] unfolding block_def atLeastLessThan_iff by auto
  have f: "prefix_Contains p (Addr (Masked p))" "num (Addr (Masked p)) = ?c"
    using C [of "Addr (Masked p)"] num_Masked [OF assms(1,2)] Masked_valid [OF assms(1,2)] ends by auto
  have l: "prefix_Contains p (LastAddr p)" "num (LastAddr p) = ?e"
    using C [of "LastAddr p"] LastAddr_num [OF assms(1,2)] ends by auto
  show ?thesis
    unfolding holds_all_def fst_conv snd_conv using assms(3,4) f l C same
    by (metis le_trans)
qed

lemma aligned_inside:
  assumes "2 ^ j dvd s" "2 ^ k dvd c"
  shows "(c \<le> s \<and> s + 2 ^ j - 1 \<le> c + 2 ^ k - 1) \<longleftrightarrow> j \<le> k \<and> s \<in> block (c, k)"
proof
  have p: "(1::nat) \<le> 2 ^ j" "(1::nat) \<le> 2 ^ k" by simp_all
  assume a: "c \<le> s \<and> s + 2 ^ j - 1 \<le> c + 2 ^ k - 1"
  then have "s + 2 ^ j \<le> c + 2 ^ k" using p by linarith
  then have "(2::nat) ^ j \<le> 2 ^ k" "s < c + 2 ^ k" using a p by linarith+
  then have "j \<le> k" by simp
  with \<open>s < c + 2 ^ k\<close> a show "j \<le> k \<and> s \<in> block (c, k)" by (simp add: block_def)
next
  have p: "(1::nat) \<le> 2 ^ j" "(1::nat) \<le> 2 ^ k" by simp_all
  assume a: "j \<le> k \<and> s \<in> block (c, k)"
  have "s \<in> block (s, j)" by (simp add: block_def)
  from blocks_nested [OF assms this] a have "block (s, j) \<subseteq> block (c, k)" by blast
  moreover have "s + 2 ^ j - 1 \<in> block (s, j)" unfolding block_def atLeastLessThan_iff fst_conv snd_conv using p by linarith
  ultimately have "s + 2 ^ j - 1 \<in> block (c, k)" by blast
  then show "c \<le> s \<and> s + 2 ^ j - 1 \<le> c + 2 ^ k - 1" using a p unfolding block_def atLeastLessThan_iff fst_conv snd_conv by linarith
qed

lemma rangeCovers_holds:
  assumes "wf_prefix p" "prefix_isValid p" "Masked p = p" "zone lo = []" "zone hi = []"
  shows "snd (rangeCovers lo hi p) \<longleftrightarrow> holds_all (lo, hi) p"
proof -
  note v = valid_addr [OF assms(1,2)]
  note l = LastAddr_num [OF assms(1,2)]
  have n: "num (Addr p) = fst (prefix_block p)" using num_Masked(1) [OF assms(1,2)] assms(3) by simp
  have nv: "BitLen a = BitLen (Addr p) \<Longrightarrow> addr_isValid a" for a
    using v by (cases "Addr p"; cases a) (auto simp: addr_isValid_def)
  show ?thesis
  proof (cases "BitLen lo = BitLen (Addr p) \<and> BitLen hi = BitLen (Addr p)")
    case True
    then show ?thesis
      using holds_all_ends [OF assms(1,2)] nv v l n assms(4,5)
        Compare_num(1) [of lo "Addr p"] Compare_num(2) [of hi "LastAddr p"]
      by (auto simp: rangeCovers_def Let_def)
  qed (auto simp: rangeCovers_def holds_all_def Let_def)
qed

lemma prefixCovers_holds:
  assumes "wf_prefix p" "prefix_isValid p" "Masked p = p" "wf_prefix q" "prefix_isValid q"
  shows "snd (prefixCovers q p) \<longleftrightarrow> holds_all (Addr (Masked q), LastAddr (Masked q)) p"
proof -
  note v = valid_addr [OF assms(1,2)] and m = Masked_valid [OF assms(4,5)]
  have wm: "wf_prefix (Masked q)" by simp
  note l = LastAddr_num [OF wm m(6)] and bm = num_Masked [OF assms(4,5)]
  have n: "num (Addr p) = fst (prefix_block p)" using num_Masked(1) [OF assms(1,2)] assms(3) by simp
  show ?thesis
  proof (cases "BitLen (Addr q) = BitLen (Addr p)")
    case True
    have k: "snd (prefix_block p) \<le> snd (prefix_block q) \<longleftrightarrow> Bits q \<le> Bits p"
      using True v valid_addr [OF assms(4,5)] by (auto simp: prefix_block_def Let_def)
    have "prefix_Contains (Masked q) (Addr p) \<longleftrightarrow> num (Addr p) \<in> block (prefix_block q)"
      using prefix_Contains_block [OF m(6), of "Addr p"] valid_addr [OF wm m(6)] v True m(5) bm(2) by simp
    then have "snd (prefixCovers q p) \<longleftrightarrow> snd (prefix_block p) \<le> snd (prefix_block q) \<and> fst (prefix_block p) \<in> block (prefix_block q)"
      using m True k n by (auto simp: prefixCovers_def Let_def)
    also have "\<dots> \<longleftrightarrow> fst (prefix_block q) \<le> fst (prefix_block p) \<and>
        fst (prefix_block p) + 2 ^ snd (prefix_block p) - 1 \<le> fst (prefix_block q) + 2 ^ snd (prefix_block q) - 1"
      using aligned_inside [OF prefix_block_aligned [of p] prefix_block_aligned [of q]] by simp
    also have "\<dots> \<longleftrightarrow> holds_all (Addr (Masked q), LastAddr (Masked q)) p"
      using holds_all_ends [OF assms(1,2), of "Addr (Masked q)" "LastAddr (Masked q)"] m(5) l bm True by simp
    finally show ?thesis .
  qed (use m(5) in \<open>auto simp: prefixCovers_def holds_all_def Let_def\<close>)
qed

text \<open>An object covers a prefix exactly when it holds all of its addresses.\<close>

lemma space_covers_holds:
  assumes "wf_prefix p" "wf_space ob"
  shows "snd (space_covers (Ptr ob) p) \<longleftrightarrow>
     prefix_isValid p \<and> (case addressRange ob of None \<Rightarrow> False | Some r \<Rightarrow> holds_all r p)"
proof (cases "prefix_isValid p")
  case True
  have wm: "wf_prefix (Masked p)" "prefix_isValid (Masked p)" "Masked (Masked p) = Masked p"
    using assms(1) True by (simp_all add: Masked_valid)
  have h: "holds_all r (Masked p) \<longleftrightarrow> holds_all r p" for r
    using holds_all_ends [OF wm(1,2), of "fst r" "snd r"] holds_all_ends [OF assms(1) True, of "fst r" "snd r"]
      num_Masked(2) [OF assms(1) True] Masked_valid(5) [OF assms(1) True]
    by (cases r) (auto simp: holds_all_def)
  have z: "snd (prefixCovers q (Masked p)) = False" if "\<not> prefix_isValid q" for q
    using that by (simp add: prefixCovers_def Masked_invalid)
  have pc: "snd (prefixCovers q (Masked p)) \<longleftrightarrow> (case prefixRange q of None \<Rightarrow> False | Some r \<Rightarrow> holds_all r p)" if "wf_prefix q" for q
    using prefixCovers_holds [OF wm that] z [of q] h by (cases "prefix_isValid q") (auto simp: prefixRange_def)
  have rc: "snd (rangeCovers (inLo t) (inHi t) (Masked p)) \<longleftrightarrow>
      (case addressRange (OInetnum t) of None \<Rightarrow> False | Some r \<Rightarrow> holds_all r p)" if "zone (inLo t) = []" "zone (inHi t) = []" for t
    using rangeCovers_holds [OF wm that] h by (auto simp: rangeCovers_def)
  show ?thesis
    using assms(2) pc rc wm(2) True by (cases ob) (simp_all add: z Let_def)
next
  case False
  then show ?thesis by (simp add: Masked_invalid Let_def)
qed

end
