(* ===== verification/Auth_Memory.thy ===== *)
theory Auth_Memory
  imports Auth_Space
begin

text \<open>
  What the database over decoded objects finds: addresses are totally ordered by \<^verbatim>\<open>Compare\<close>, the stable sort
  orders its hits, and a covering search returns exactly the objects that hold the range, none of them
  strictly inside an earlier one.
\<close>

lemma more_specific_order: "more_specific e f \<longleftrightarrow> fst (fst f) < fst (fst e) \<or> (fst (fst f) = fst (fst e) \<and> snd (fst e) < snd (fst f))"
  by (cases e; cases f) (auto simp: Let_def Compare_order split: if_splits)

lemma hits_ordered: "sorted_wrt (\<lambda>a b. \<not> more_specific b a) (SliceStable more_specific es)"
  by (rule SliceStable_ordered) (auto simp: more_specific_order)

subsection \<open>Covering objects\<close>

definition space_of :: "object \<Rightarrow> (string \<times> (addr \<times> addr) \<times> object) list" where
  "space_of ob =
     (case (primaryKey ob, addressRange ob) of (Some (cls, _), Some r) \<Rightarrow> [(cls, r, ob)] | _ \<Rightarrow> [])"

definition present :: "'a option list \<Rightarrow> 'a list" where
  "present os = map the (filter (\<lambda>x. x \<noteq> None) os)"

lemma present_simps [simp]: "present [] = []" "present (None # os) = present os" "present (Some x # os) = x # present os"
  by (simp_all add: present_def)

lemma set_present: "set (present os) = {x. Some x \<in> set os}"
  by (force simp: present_def)

lemma mem_build_spaces: "spaces (mem_build os db) = spaces db @ concat (map space_of (present os))"
proof (induction os arbitrary: db)
  case (Cons x os)
  then show ?case by (cases x) (auto simp: mem_add_def space_of_def split: option.splits)
qed simp

definition holds_range :: "addr \<times> addr \<Rightarrow> addr \<Rightarrow> addr \<Rightarrow> bool" where
  "holds_range r lo hi \<longleftrightarrow> BitLen (fst r) = BitLen lo \<and> fst r \<le> lo \<and> hi \<le> snd r"

definition strictly_inside :: "addr \<times> addr \<Rightarrow> addr \<times> addr \<Rightarrow> bool" where
  "strictly_inside r s \<longleftrightarrow> fst s \<le> fst r \<and> snd r \<le> snd s \<and> r \<noteq> s"

definition covering_hits :: "object option list \<Rightarrow> string \<Rightarrow> addr \<Rightarrow> addr \<Rightarrow> ((addr \<times> addr) \<times> object) list" where
  "covering_hits objs cls lo hi =
     SliceStable more_specific
       (filter (\<lambda>e. holds_range (fst e) lo hi)
         (map snd (filter (\<lambda>e. fst e = ToLower cls) (concat (map space_of (present objs))))))"

lemma mem_Covering_hits: "mem_Covering (NewMemDatabase objs) cls lo hi = Inr (map (\<lambda>e. Ptr (snd e)) (covering_hits objs cls lo hi))"
  by (simp add: mem_Covering_def NewMemDatabase_def mem_build_spaces covering_hits_def holds_range_def Compare_order case_prod_unfold)

lemma in_space_of: "(c, r, ob) \<in> set (space_of x) \<longleftrightarrow> x = ob \<and> addressRange ob = Some r \<and> (\<exists>key. primaryKey ob = Some (c, key))"
  by (cases "primaryKey x"; cases "addressRange x") (auto simp: space_of_def)

lemma set_covering_hits:
  "set (covering_hits objs cls lo hi) =
     {(r, ob). Some ob \<in> set objs \<and> addressRange ob = Some r \<and> holds_range r lo hi \<and> (\<exists>key. primaryKey ob = Some (ToLower cls, key))}"
proof -
  have "(r, ob) \<in> set (covering_hits objs cls lo hi) \<longleftrightarrow>
      (\<exists>x. Some x \<in> set objs \<and> (ToLower cls, r, ob) \<in> set (space_of x)) \<and> holds_range r lo hi" for r ob
  proof -
    have "(r, ob) \<in> snd ` {e \<in> S. fst e = c} \<longleftrightarrow> (c, r, ob) \<in> S" for S :: "(string \<times> (addr \<times> addr) \<times> object) set" and c
      unfolding image_iff Bex_def mem_Collect_eq by (metis fst_conv prod.collapse snd_conv)
    note pick = this [of _ "ToLower cls"]
    show ?thesis
      unfolding covering_hits_def set_SliceStable set_filter set_map set_concat set_present mem_Collect_eq pick fst_conv by auto
  qed
  then show ?thesis by (auto simp: in_space_of)
qed

lemma covering_order:
  "sorted_wrt (\<lambda>a b. \<not> strictly_inside (fst b) (fst a)) (covering_hits objs cls lo hi)"
proof -
  have "strictly_inside (fst b) (fst a) \<Longrightarrow> more_specific b a" for a b :: "(addr \<times> addr) \<times> object"
    by (cases a; cases b) (auto simp: strictly_inside_def more_specific_order)
  then show ?thesis
    unfolding covering_hits_def by (intro sorted_wrt_mono_rel [OF _ hits_ordered]) blast
qed

lemma mem_Covering_exact:
  "\<exists>hits. mem_Covering (NewMemDatabase objs) cls lo hi = Inr (map Ptr hits) \<and>
     set hits = {ob. Some ob \<in> set objs \<and> (\<exists>key r. primaryKey ob = Some (ToLower cls, key) \<and> addressRange ob = Some r \<and> holds_range r lo hi)} \<and>
     sorted_wrt (\<lambda>a b. \<not> strictly_inside (the (addressRange b)) (the (addressRange a))) hits"
proof (intro exI conjI)
  let ?es = "covering_hits objs cls lo hi"
  show "mem_Covering (NewMemDatabase objs) cls lo hi = Inr (map Ptr (map snd ?es))" by (simp add: mem_Covering_hits)
  show "set (map snd ?es) = {ob. Some ob \<in> set objs \<and> (\<exists>key r. primaryKey ob = Some (ToLower cls, key) \<and> addressRange ob = Some r \<and> holds_range r lo hi)}"
    by (force simp: set_covering_hits)
  have "the (addressRange (snd e)) = fst e" if "e \<in> set ?es" for e using that by (auto simp: set_covering_hits)
  then show "sorted_wrt (\<lambda>a b. \<not> strictly_inside (the (addressRange b)) (the (addressRange a))) (map snd ?es)"
    using covering_order [of objs cls lo hi] unfolding sorted_wrt_map by (rule_tac sorted_wrt_mono_rel) auto
qed

subsection \<open>Superseded objects\<close>

lemma stale_space:
  assumes "primaryKey a = Some (cls, key)" "primaryKey b = Some (cls, key)"
    "addressRange a = Some r" "addressRange b = Some r" "ToLower cls = cls"
  shows "mem_Current (NewMemDatabase [Some a, Some b]) a = Inr (Ptr b) \<and>
    mem_Covering (NewMemDatabase [Some a, Some b]) cls (fst r) (snd r) = Inr [Ptr a, Ptr b]"
proof
  show "mem_Current (NewMemDatabase [Some a, Some b]) a = Inr (Ptr b)"
    using assms by (simp add: mem_Current_def NewMemDatabase_def mem_add_def)
  show "mem_Covering (NewMemDatabase [Some a, Some b]) cls (fst r) (snd r) = Inr [Ptr a, Ptr b]"
    using assms unfolding mem_Covering_hits
    by (simp add: covering_hits_def space_of_def holds_range_def SliceStable_def more_specific_order del: more_specific.simps)
qed

end
