(* ===== verification/Auth_Walk.thy ===== *)
theory Auth_Walk
  imports Auth_Check
begin

text \<open>
  The chains \<^verbatim>\<open>ReferralChain\<close> follows: each maintainer is the one the previous refers to, and the last
  refers to none or to itself.
\<close>

definition is_root :: "Mntner \<Rightarrow> bool" where
  "is_root m \<longleftrightarrow> next_referral m = [] \<or> EqualFold (next_referral m) (Handle m)"

fun chain_from :: "MntnerRegistry \<Rightarrow> string \<Rightarrow> Mntner list \<Rightarrow> bool" where
  "chain_from reg name [] = True"
| "chain_from reg name (m # ms) =
     (mntner_lookup reg name = Inr m \<and> (ms = [] \<or> \<not> is_root m \<and> chain_from reg (next_referral m) ms))"

text \<open>The names a walk asks for, in the form that tells a cycle.\<close>

fun asked :: "string \<Rightarrow> Mntner list \<Rightarrow> string list" where
  "asked name [] = []"
| "asked name (m # ms) = ToUpper (TrimSpace name) # asked (next_referral m) ms"

definition depth_bound :: "int \<Rightarrow> nat" where
  "depth_bound maxDepth = (if maxDepth \<le> 0 then 32 else nat maxDepth)"

lemma walk_sound:
  assumes "length acc < D"
  shows "\<exists>ms. fst (referral_walk reg D name seen acc) = acc @ ms \<and> length acc + length ms \<le> D \<and> chain_from reg name ms \<and>
    (snd (referral_walk reg D name seen acc) = None \<longrightarrow>
       ms \<noteq> [] \<and> is_root (last ms) \<and> distinct (asked name ms) \<and> set (asked name ms) \<inter> set seen = {})"
  using assms
proof (induction reg D name seen acc rule: referral_walk.induct)
  case (1 reg D name seen acc)
  let ?key = "ToUpper (TrimSpace name)"
  show ?case
  proof (cases "?key \<in> set seen")
    case True
    then show ?thesis using 1(2) by (subst (1 2) referral_walk.simps) (auto simp: Let_def intro: exI [of _ "[]"])
  next
    case key: False
    show ?thesis
    proof (cases "mntner_lookup reg name")
      case (Inl err)
      then show ?thesis using 1(2) key by (subst (1 2) referral_walk.simps) (auto simp: Let_def intro: exI [of _ "[]"])
    next
      case (Inr m)
      show ?thesis
      proof (cases "is_root m \<or> length (acc @ [m]) \<ge> D")
        case True
        then show ?thesis using 1(2) key Inr
          by (subst (1 2) referral_walk.simps) (auto simp: Let_def is_root_def intro!: exI [of _ "[m]"])
      next
        case False
        then have w: "referral_walk reg D name seen acc = referral_walk reg D (next_referral m) (?key # seen) (acc @ [m])"
          using key Inr by (subst referral_walk.simps) (simp add: Let_def is_root_def)
        from 1(1) [OF refl key Inr refl refl] False obtain ms where
          "fst (referral_walk reg D (next_referral m) (?key # seen) (acc @ [m])) = (acc @ [m]) @ ms"
          "length (acc @ [m]) + length ms \<le> D" "chain_from reg (next_referral m) ms"
          "snd (referral_walk reg D (next_referral m) (?key # seen) (acc @ [m])) = None \<Longrightarrow>
             ms \<noteq> [] \<and> is_root (last ms) \<and> distinct (asked (next_referral m) ms) \<and>
             set (asked (next_referral m) ms) \<inter> set (?key # seen) = {}"
          by (auto simp: is_root_def)
        then show ?thesis using False Inr key by (intro exI [of _ "m # ms"]) (auto simp: w)
      qed
    qed
  qed
qed

lemma walk_complete:
  assumes "ms \<noteq> []" "chain_from reg name ms" "is_root (last ms)" "distinct (asked name ms)"
    "set (asked name ms) \<inter> set seen = {}" "length acc + length ms \<le> D"
  shows "referral_walk reg D name seen acc = (acc @ ms, None)"
  using assms
proof (induction ms arbitrary: name seen acc)
  case (Cons m ms)
  show ?case
  proof (cases "ms = []")
    case True
    then show ?thesis using Cons.prems by (subst referral_walk.simps) (auto simp: Let_def is_root_def)
  next
    case False
    then have "referral_walk reg D name seen acc =
        referral_walk reg D (next_referral m) (ToUpper (TrimSpace name) # seen) (acc @ [m])"
      using Cons.prems by (subst referral_walk.simps) (cases ms; auto simp: Let_def is_root_def)
    then show ?thesis using Cons.IH [of "next_referral m" "ToUpper (TrimSpace name) # seen" "acc @ [m]"] Cons.prems False by auto
  qed
qed simp

lemma ReferralChain_chain:
  "length (fst (ReferralChain reg name maxDepth)) \<le> depth_bound maxDepth \<and>
   chain_from reg name (fst (ReferralChain reg name maxDepth)) \<and>
   (ReferralChain reg name maxDepth = (chain, None) \<longleftrightarrow>
      chain \<noteq> [] \<and> chain_from reg name chain \<and> is_root (last chain) \<and> distinct (asked name chain) \<and>
      length chain \<le> depth_bound maxDepth)"
proof -
  have R: "ReferralChain reg name maxDepth = referral_walk reg (depth_bound maxDepth) name [] []"
    by (simp add: ReferralChain_def depth_bound_def)
  have "length ([]::Mntner list) < depth_bound maxDepth" by (simp add: depth_bound_def)
  from walk_sound [OF this, of reg name "[]"] show ?thesis
    using walk_complete [of chain reg name "[]" "[]" "depth_bound maxDepth"] unfolding R by auto
qed

end
