(* ===== verification/Auth_Reverse.thy ===== *)
theory Auth_Reverse
  imports Typed_Objects
begin

text \<open>
  The addresses of a reverse zone: the name of a block of IPv4 space, written as RFC 1035 and RFC 2317 write
  it, gives back the block's first and last address.
\<close>

definition reverse_name :: "string list \<Rightarrow> string" where
  "reverse_name labels = Join labels ''.'' @ ''.in-addr.arpa''"

definition octet_label :: "u8 \<Rightarrow> string" where
  "octet_label b = Itoa (unat b)"

definition range_label :: "u8 \<Rightarrow> u8 \<Rightarrow> string" where
  "range_label a b = octet_label a @ ''-'' @ octet_label b"

subsection \<open>Labels\<close>

lemma label_bytes: "c \<in> set (octet_label b) \<Longrightarrow> isDigit c"
  using Itoa_digits [of "unat b"] by (simp add: octet_label_def list_all_iff)

lemma Atoi_digits: "s \<noteq> [] \<Longrightarrow> list_all isDigit s \<Longrightarrow> Atoi s = Some (int (dec_val s))"
  by (cases s) (auto simp: Atoi_def isDigit_def)

lemma parseOctet_label: "parseOctet (octet_label b) = Some b"
proof -
  have u: "unat b < 256" using unsigned_less [of b] by simp
  have "Itoa (unat b) \<noteq> []" "length (Itoa (unat b)) \<le> 3" "length (Itoa (unat b)) = 1 \<or> hd (Itoa (unat b)) \<noteq> CHR ''0''"
    using Itoa_length [of "unat b" 2] u Itoa_plain [of "unat b"] by simp_all
  moreover have "Atoi (Itoa (unat b)) = Some (int (unat b))"
    using Atoi_digits [OF Itoa_nonempty Itoa_digits] by simp
  moreover have "\<not> int (unat b) > 255" using u by linarith
  ultimately show ?thesis by (auto simp: parseOctet_def octet_label_def)
qed

lemma Cut_label: "Cut (octet_label b) ''-'' = (octet_label b, [], False)"
  using Itoa_no_dash by (simp add: octet_label_def Cut_none)

lemma Cut_range: "Cut (range_label a b) ''-'' = (octet_label a, octet_label b, True)"
  using Cut_word [OF Itoa_no_dash, of "unat a" "[]" "octet_label b"] by (simp add: range_label_def octet_label_def)

subsection \<open>The loop\<close>

lemma reverseV4_loop_labels:
  assumes "i + length xs = n" "n \<le> length fr" "n \<le> length to"
  shows "reverseV4_loop n i (map octet_label xs) fr to = Some (rev xs @ drop (length xs) fr, rev xs @ drop (length xs) to)"
  using assms
proof (induction xs arbitrary: i fr to)
  case (Cons x xs)
  have d: "drop (length xs) (l[length xs := x]) = x # drop (Suc (length xs)) l" if "n \<le> length l" for l
    using that Cons.prems by (simp add: drop_update_swap [symmetric] Cons_nth_drop_Suc [symmetric])
  have "n - 1 - i = length xs" using Cons.prems by simp
  then show ?case
    using Cons.prems Cons.IH [of "i + 1" "fr[length xs := x]" "to[length xs := x]"] d
    by (simp add: Cut_label parseOctet_label Let_def)
qed simp

lemma reverseV4_labels:
  assumes "os \<noteq> []" "length os \<le> 4"
  shows "reverseV4 (map octet_label (rev os)) =
    Some (AddrFrom4 (os @ replicate (4 - length os) 0), AddrFrom4 (os @ replicate (4 - length os) 255))"
  using assms by (auto simp: reverseV4_def reverseV4_loop_labels Let_def Suc_le_eq)

lemma reverseV4_range:
  assumes "length os = 3" "a \<le> b"
  shows "reverseV4 (range_label a b # map octet_label (rev os)) = Some (AddrFrom4 (os @ [a]), AddrFrom4 (os @ [b]))"
  using assms reverseV4_loop_labels [of 1 "rev os" 4 "[0, 0, 0, a]" "[0, 0, 0, b]"]
  by (simp add: reverseV4_def Cut_range parseOctet_label Let_def numeral_eq_Suc)

subsection \<open>Names\<close>

lemma trim_seqs_id:
  assumes "list_all (\<lambda>p. hd p \<noteq> hd s) seqs"
  shows "trim_seqs seqs s = s"
proof -
  have "\<not> (p \<noteq> [] \<and> HasPrefix s p)" if "p \<in> set seqs" for p
    using assms that by (cases p; cases s) (auto simp: HasPrefix_def list_all_iff)
  then have "List.find (\<lambda>p. p \<noteq> [] \<and> HasPrefix s p) seqs = None" by (simp add: find_None_iff)
  then show ?thesis by (subst trim_seqs.simps) simp
qed

lemma space_heads: "list_all (\<lambda>p. \<not> isDigit (hd p)) space_seqs" "list_all (\<lambda>p. hd p \<noteq> CHR ''a'') (map rev space_seqs)"
  by code_simp+

lemma TrimSpace_name: "isDigit (hd s) \<Longrightarrow> TrimSpace (s @ ''.in-addr.arpa'') = s @ ''.in-addr.arpa''" if "s \<noteq> []"
proof -
  assume "isDigit (hd s)"
  then have "list_all (\<lambda>p. hd p \<noteq> hd (s @ ''.in-addr.arpa'')) space_seqs"
    using space_heads(1) that by (auto simp: list_all_iff)
  moreover have "list_all (\<lambda>p. hd p \<noteq> hd (rev (s @ ''.in-addr.arpa''))) (map rev space_seqs)" using space_heads(2) by simp
  ultimately show ?thesis by (simp add: TrimSpace_def TrimLeftSpace_def TrimRightSpace_def trim_seqs_id del: rev_append)
qed

lemma domain_name_plain:
  assumes "s \<noteq> []" "isDigit (hd s)" "list_all (\<lambda>c. \<not> isUpper c) s"
  shows "domain_name (s @ ''.in-addr.arpa'') = s @ ''.in-addr.arpa''"
proof -
  have "TrimSuffix (s @ ''.in-addr.arpa'') ''.'' = s @ ''.in-addr.arpa''" by (simp add: TrimSuffix_def HasPrefix_def)
  moreover have "ToLower (s @ ''.in-addr.arpa'') = s @ ''.in-addr.arpa''"
  proof -
    have "map lower s = s" using assms(3) by (induction s) (auto simp: lower_id)
    moreover have "map lower ''.in-addr.arpa'' = ''.in-addr.arpa''" by code_simp
    ultimately show ?thesis by (simp add: ToLower_def)
  qed
  ultimately show ?thesis using TrimSpace_name [OF assms(1,2)] by (simp add: domain_name_def)
qed

lemma Join_hd: "x \<noteq> [] \<Longrightarrow> Join (x # xs) sep \<noteq> [] \<and> hd (Join (x # xs) sep) = hd x"
  by (cases xs) auto

lemma set_Join: "set (Join xs sep) \<subseteq> set sep \<union> (\<Union>x\<in>set xs. set x)"
  by (induction xs sep rule: Join.induct) auto

lemma ReverseRange_labels:
  assumes "labels \<noteq> []" "list_all (\<lambda>l. l \<noteq> [] \<and> isDigit (hd l) \<and> (\<forall>c\<in>set l. isDigit c \<or> c = CHR ''-'')) labels"
    "dName d = reverse_name labels"
  shows "ReverseRange d = reverseV4 labels"
proof -
  let ?s = "Join labels ''.''"
  obtain x xs where x: "labels = x # xs" using assms(1) by (cases labels) auto
  then have h: "?s \<noteq> []" "isDigit (hd ?s)" using assms(2) Join_hd [of x xs "''.''"] by auto
  have "isDigit c \<or> c = CHR ''-'' \<or> c = CHR ''.''" if "c \<in> set ?s" for c
    using that set_Join [of labels "''.''"] assms(2) by (auto simp: list_all_iff)
  moreover have "\<not> isUpper c" if "isDigit c \<or> c = CHR ''-'' \<or> c = CHR ''.''" for c
    using that order_trans [of "CHR ''A''" c "CHR ''9''"] by (auto simp: isUpper_def isDigit_def)
  ultimately have "list_all (\<lambda>c. \<not> isUpper c) ?s" unfolding list_all_iff by blast
  from domain_name_plain [OF h this] have n: "domain_name (dName d) = ?s @ ''.in-addr.arpa''"
    by (simp add: assms(3) reverse_name_def)
  have "list_all (\<lambda>l. CHR ''.'' \<notin> set l) labels" using assms(2) by (fastforce simp: list_all_iff isDigit_def)
  then have "Split ?s (CHR ''.'') = labels" by (rule Split_Join [OF assms(1)])
  then show ?thesis by (simp add: ReverseRange_def n HasSuffix_def TrimSuffix_def HasPrefix_def)
qed

lemma ReverseRange_octets:
  "(os \<noteq> [] \<and> length os \<le> 4 \<and> dName d = reverse_name (map octet_label (rev os)) \<longrightarrow>
      ReverseRange d = Some (AddrFrom4 (os @ replicate (4 - length os) 0), AddrFrom4 (os @ replicate (4 - length os) 255))) \<and>
   (length os = 3 \<and> a \<le> b \<and> dName d = reverse_name (range_label a b # map octet_label (rev os)) \<longrightarrow>
      ReverseRange d = Some (AddrFrom4 (os @ [a]), AddrFrom4 (os @ [b])))"
proof -
  have l: "octet_label b \<noteq> [] \<and> isDigit (hd (octet_label b)) \<and> (\<forall>c\<in>set (octet_label b). isDigit c \<or> c = CHR ''-'')" for b
    using label_bytes [of _ b] by (auto simp: octet_label_def Itoa_hd)
  have r: "range_label a b \<noteq> [] \<and> isDigit (hd (range_label a b)) \<and> (\<forall>c\<in>set (range_label a b). isDigit c \<or> c = CHR ''-'')"
    using l by (auto simp: range_label_def)
  show ?thesis
    using ReverseRange_labels [of "map octet_label (rev os)" d] ReverseRange_labels [of "range_label a b # map octet_label (rev os)" d]
      reverseV4_labels [of os] reverseV4_range [of os a b] l r
    by (auto simp: list_all_iff)
qed

text \<open>An octet may carry a sign, which \<^verbatim>\<open>Atoi\<close> accepts and the conversion to a byte wraps.\<close>

lemma parseOctet_sign: "parseOctet ''-5'' = Some 251" "parseOctet ''+5'' = Some 5"
  by code_simp+

end
