(* ===== verification/Auth_Example.thy ===== *)
theory Auth_Example
  imports Auth_Rules
begin

text \<open>
  A small registry: a maintainer, the address space it holds, and a route for that space to be created.
\<close>

definition sample_verifier :: "Verifier option" where
  "sample_verifier = Some (\<lambda>a cred. if authMethod a = AuthMD5 then Inr (authValue a = Password cred) else Inl [ErrUnsupportedMethod])"

definition sample_credential :: "string \<Rightarrow> Credential" where
  "sample_credential pw = \<lparr>Password = pw, Signature = [], Message = [], FromAddr = []\<rparr>"

definition raw_of :: "string list \<Rightarrow> Object option" where
  "raw_of ls = Some (New (Tokenize (Join ls [LF])))"

definition sample_mntner :: Mntner where
  "sample_mntner =
     \<lparr>MntBy = [''FOO-MNT''], osource = ''TEST'', MntLower = [], MntRoutes = [], MntIrt = [],
      oraw = raw_of [''mntner: FOO-MNT'', ''auth: MD5-PW x'', ''mnt-by: FOO-MNT''],
      Handle = ''FOO-MNT'', mAuth = [fst (ParseAuth ''MD5-PW x'')], ReferralBy = []\<rparr>"

definition sample_inetnum :: Inetnum where
  "sample_inetnum =
     \<lparr>MntBy = [''FOO-MNT''], osource = ''TEST'', MntLower = [], MntRoutes = [], MntIrt = [],
      oraw = raw_of [''inetnum: 192.0.2.0 - 192.0.2.255'', ''mnt-by: FOO-MNT''],
      inLo = AddrFrom4 [192, 0, 2, 0], inHi = AddrFrom4 [192, 0, 2, 255]\<rparr>"

definition sample_autnum :: AutNum where
  "sample_autnum =
     \<lparr>MntBy = [''FOO-MNT''], osource = ''TEST'', MntLower = [], MntRoutes = [], MntIrt = [],
      oraw = raw_of [''aut-num: AS64496'', ''mnt-by: FOO-MNT''], anAS = 64496, anMemberOf = []\<rparr>"

definition sample_route :: Route where
  "sample_route =
     \<lparr>MntBy = [''FOO-MNT''], osource = ''TEST'', MntLower = [], MntRoutes = [], MntIrt = [],
      oraw = raw_of [''route: 192.0.2.0/24'', ''origin: AS64496'', ''mnt-by: FOO-MNT''],
      rPrefix = PrefixFrom (AddrFrom4 [192, 0, 2, 0]) 24, rOrigin = 64496, rMemberOf = []\<rparr>"

definition sample_db :: MemDatabase where
  "sample_db = NewMemDatabase [Some (OMntner sample_mntner), None, Some (OInetnum sample_inetnum), Some (OAutNum sample_autnum)]"

definition sample_update :: Update where
  "sample_update = \<lparr>uAction = Create, uObject = Some (ORoute sample_route)\<rparr>"

lemma sample_verdict:
  "Authorise RIPE (mem_Database sample_db) sample_update (sample_credential ''y'') sample_verifier =
     (\<lparr>OK = False, Reasons = [''the object's own maintainers ([FOO-MNT]): refused: FOO-MNT: credential rejected'']\<rparr>, None)"
  by code_simp

lemma sample_accepted:
  "OK (fst (Authorise RIPE (mem_Database sample_db) sample_update (sample_credential ''x'') sample_verifier))"
  by code_simp

text \<open>The request RFC 2725 checks for that route, and a later version of the address space.\<close>

definition sample_request :: RouteRequest where
  "sample_request = RouteRequestFor sample_route (Ptr (OAutNum sample_autnum)) (Ptr (OInetnum sample_inetnum))"

definition later_inetnum :: Inetnum where
  "later_inetnum = sample_inetnum\<lparr>MntBy := [''BAR-MNT'']\<rparr>"

lemma sample_creation:
  "isl (RouteCreation (mem_Mntner sample_db) sample_request (sample_credential ''x'') sample_verifier) = False"
  "(case RouteCreation (mem_Mntner sample_db) sample_request (sample_credential ''x'') sample_verifier of Inr d \<Rightarrow> OK d | Inl _ \<Rightarrow> False)"
  by code_simp+

lemma sample_keys:
  "primaryKey (OInetnum sample_inetnum) = Some (''inetnum'', ''192.0.2.0 - 192.0.2.255'')"
  "primaryKey (OInetnum later_inetnum) = Some (''inetnum'', ''192.0.2.0 - 192.0.2.255'')"
  "addressRange (OInetnum sample_inetnum) = Some (AddrFrom4 [192, 0, 2, 0], AddrFrom4 [192, 0, 2, 255])"
  "addressRange (OInetnum later_inetnum) = Some (AddrFrom4 [192, 0, 2, 0], AddrFrom4 [192, 0, 2, 255])"
  "ToLower ''inetnum'' = ''inetnum''"
  by code_simp+

end
