(* ===== verification/Auth_Properties.thy ===== *)
theory Auth_Properties
  imports Auth_Total Auth_Memory Auth_Walk Auth_Reverse Auth_Example
begin

text \<open>
  What the authorisation model promises: an update is authorised exactly when the maintainers that must
  consent do, an error is never consent, and with the database over decoded objects every update gets an
  answer.
\<close>

definition allows :: "Rules \<Rightarrow> Database \<Rightarrow> Update \<Rightarrow> Credential \<Rightarrow> Verifier option \<Rightarrow> bool" where
  "allows r db u cred v \<longleftrightarrow>
     (case uObject u of
        None \<Rightarrow> False
      | Some ob \<Rightarrow>
          object_Raw ob \<noteq> None \<and> uAction u \<in> {Create, Modify, Delete} \<and>
          (if is_irrd r then irrd_allows db cred v (uAction u) ob else ripe_allows db cred v (uAction u) ob))"

lemma finish_decides:
  assumes "decides c P"
  shows "(OK (fst (finish (c rs))) \<longrightarrow> snd (finish (c rs)) = None) \<and> (snd (finish (c rs)) = None \<longrightarrow> OK (fst (finish (c rs))) = P)"
proof -
  obtain r rs' where c: "c rs = (r, rs')" by (cases "c rs")
  then show ?thesis using assms by (cases r) (auto simp: decides_def)
qed

lemma Authorise_decided:
  "(OK (fst (Authorise r db u cred v)) \<longrightarrow> snd (Authorise r db u cred v) = None) \<and>
   (snd (Authorise r db u cred v) = None \<longrightarrow> OK (fst (Authorise r db u cred v)) = allows r db u cred v)"
proof (cases "uObject u")
  case (Some ob)
  have c: "decides (if is_irrd r then irrd db cred v act ob else ripe db cred v act ob)
      (if is_irrd r then irrd_allows db cred v act ob else ripe_allows db cred v act ob)" if "act \<in> {Create, Modify, Delete}" for act
    using ripe_decides [OF that] irrd_decides by simp
  show ?thesis
  proof (cases "object_Raw ob = None")
    case False
    show ?thesis
    proof (cases "uAction u")
      case (OtherAction n)
      then show ?thesis using Some False by (simp add: Authorise_def allows_def fail_def)
    qed (use Some False finish_decides [OF c, of "uAction u" "[]"] in \<open>simp_all add: Authorise_def allows_def if_distribR split: if_splits\<close>)
  qed (simp add: Authorise_def allows_def Some fail_def)
qed (simp add: Authorise_def allows_def fail_def)

text \<open>The three consents RFC 2725 asks of a new route.\<close>

lemma route_steps_exact:
  assumes "route_steps reg req cred v i ((what, names) # steps) rs = Inr d"
  shows "if ((i = 1 \<and> reqOrigin req = Nil) \<or> (i = 2 \<and> reqSpace req = Nil)) \<or> mismatch i req \<noteq> [] \<or> \<not> consents reg cred v names
    then \<not> OK d else \<exists>rs'. route_steps reg req cred v (i + 1) steps rs' = Inr d"
  using assms
  by (cases "CheckMntners reg names cred v")
    (auto simp: Let_def consents_def split: if_splits dest!: CheckMntners_exact)

lemma mismatch_steps:
  "mismatch 0 req = []"
  "mismatch 1 req = [] \<longleftrightarrow> OriginAS req \<noteq> 0 \<and> autNumAS (reqOrigin req) = Some (OriginAS req)"
  "mismatch 2 req = [] \<longleftrightarrow> snd (space_covers (reqSpace req) (reqPrefix req))"
  by (simp_all add: mismatch_def)

lemma space_covers_Nil: "\<not> snd (space_covers Nil p)"
  by (simp add: prefixCovers_def Masked_invalid Let_def)

lemma RouteCreation_decided:
  assumes "RouteCreation reg req cred v = Inr d"
  shows "OK d \<longleftrightarrow>
    consents reg cred v (reqMntBy req) \<and>
    OriginAS req \<noteq> 0 \<and> autNumAS (reqOrigin req) = Some (OriginAS req) \<and>
    consents reg cred v (RouteAuthority (reqOrigin req) (reqPrefix req)) \<and>
    snd (space_covers (reqSpace req) (reqPrefix req)) \<and>
    consents reg cred v (RouteAuthority (reqSpace req) (reqPrefix req))"
proof -
  note r0 = route_steps_exact [OF assms [unfolded RouteCreation_def]]
  have n: "0 + 1 = (1::nat)" "1 + 1 = (2::nat)" by simp_all
  show ?thesis
  proof (cases "consents reg cred v (reqMntBy req)")
    case True
    with r0 obtain rs1 where "route_steps reg req cred v 1
        [(''the origin AS'', RouteAuthority (reqOrigin req) (reqPrefix req)),
         (''the address space'', RouteAuthority (reqSpace req) (reqPrefix req))] rs1 = Inr d"
      unfolding n by (auto simp: mismatch_steps(1))
    note r1 = route_steps_exact [OF this]
    show ?thesis
    proof (cases "mismatch 1 req = [] \<and> consents reg cred v (RouteAuthority (reqOrigin req) (reqPrefix req))")
      case True2: True
      then have "reqOrigin req \<noteq> Nil" unfolding mismatch_steps by auto
      with r1 True2 obtain rs2 where "route_steps reg req cred v 2
          [(''the address space'', RouteAuthority (reqSpace req) (reqPrefix req))] rs2 = Inr d"
        unfolding n by auto
      from route_steps_exact [OF this] show ?thesis
        using True True2 space_covers_Nil [of "reqPrefix req"] unfolding mismatch_steps by (auto split: if_splits simp del: space_covers.simps)
    qed (use r1 True in \<open>unfold mismatch_steps, auto split: if_splits\<close>)
  qed (use r0 in simp)
qed

text \<open>(C23) Authorise is exact: it authorises an update exactly when the registry's rules allow it, for
  any database and verifier whose lookups end without an error, and an error is never consent.\<close>

theorem Authorise_exact:
  "(OK (fst (Authorise r db u cred v)) \<longrightarrow> snd (Authorise r db u cred v) = None) \<and>
   (snd (Authorise r db u cred v) = None \<longrightarrow> OK (fst (Authorise r db u cred v)) = allows r db u cred v)"
  by (rule Authorise_decided)

text \<open>(C24) With the database over decoded objects and a verifier that fails only on schemes it does not
  handle, Authorise always answers, and its answer is what the rules allow.\<close>

theorem Authorise_answers:
  assumes "calm_verifier v"
  shows "snd (Authorise r (mem_Database m) u cred v) = None \<and>
    OK (fst (Authorise r (mem_Database m) u cred v)) = allows r (mem_Database m) u cred v"
proof -
  have f: "answers c \<Longrightarrow> snd (finish (c rs)) = None" for c rs
    unfolding answers_def by (cases "c rs") (metis finish.simps(2) fst_conv isl_def snd_conv sum.exhaust_sel sum.collapse(2))
  have "snd (Authorise r (mem_Database m) u cred v) = None"
    using f [OF mem.ripe_answers [OF assms]] f [OF mem.irrd_answers [OF assms]]
    by (auto simp: Authorise_def fail_def simp del: ripe.simps split: option.split Action.split)
  then show ?thesis using Authorise_decided [of r "mem_Database m" u cred v] by blast
qed

text \<open>(C25) The route check of RFC 2725 is exact: a new route is authorised exactly when its own maintainers
  consent, the origin given is the aut-num of the route's origin and the maintainers it delegates routing to
  consent, and the address space given covers the prefix and the maintainers it delegates to consent.\<close>

theorem RouteCreation_exact:
  assumes "RouteCreation reg req cred v = Inr d"
  shows "OK d \<longleftrightarrow>
    consents reg cred v (reqMntBy req) \<and>
    OriginAS req \<noteq> 0 \<and> autNumAS (reqOrigin req) = Some (OriginAS req) \<and>
    consents reg cred v (RouteAuthority (reqOrigin req) (reqPrefix req)) \<and>
    snd (space_covers (reqSpace req) (reqPrefix req)) \<and>
    consents reg cred v (RouteAuthority (reqSpace req) (reqPrefix req))"
  by (rule RouteCreation_decided [OF assms])

text \<open>(C26) An object covers a prefix exactly when the prefix is valid and the object's address range, of
  the same family, holds every address of the prefix.\<close>

theorem covers_exact:
  assumes "wf_prefix p" "wf_space ob"
  shows "snd (space_covers (Ptr ob) p) \<longleftrightarrow>
     prefix_isValid p \<and> (case addressRange ob of None \<Rightarrow> False | Some r \<Rightarrow> holds_all r p)"
  by (rule space_covers_holds [OF assms])

text \<open>(C27) ReferralChain ends within its bound for every registry, cyclic ones included; what it returns is
  always a chain of referrals from the name, and it returns a chain without error exactly when that chain
  leads to a root within the bound without asking for a name twice.\<close>

theorem ReferralChain_exact:
  "length (fst (ReferralChain reg name maxDepth)) \<le> depth_bound maxDepth \<and>
   chain_from reg name (fst (ReferralChain reg name maxDepth)) \<and>
   (ReferralChain reg name maxDepth = (chain, None) \<longleftrightarrow>
      chain \<noteq> [] \<and> chain_from reg name chain \<and> is_root (last chain) \<and> distinct (asked name chain) \<and>
      length chain \<le> depth_bound maxDepth)"
  by (rule ReferralChain_chain)

text \<open>(C28) The covering search of the database over decoded objects returns exactly the objects of the class
  that hold the range, and never one strictly inside an earlier one: the most specific come first.\<close>

theorem Covering_exact:
  "\<exists>hits. mem_Covering (NewMemDatabase objs) cls lo hi = Inr (map Ptr hits) \<and>
     set hits = {ob. Some ob \<in> set objs \<and> (\<exists>key r. primaryKey ob = Some (ToLower cls, key) \<and> addressRange ob = Some r \<and> holds_range r lo hi)} \<and>
     sorted_wrt (\<lambda>a b. \<not> strictly_inside (the (addressRange b)) (the (addressRange a))) hits"
  by (rule mem_Covering_exact)

text \<open>(C29) A superseded object keeps its authority: of two objects with one primary key and range the later is
  the stored one, but a covering search finds the earlier first.\<close>

theorem Covering_superseded:
  assumes "primaryKey a = Some (cls, key)" "primaryKey b = Some (cls, key)"
    "addressRange a = Some r" "addressRange b = Some r" "ToLower cls = cls"
  shows "mem_Current (NewMemDatabase [Some a, Some b]) a = Inr (Ptr b) \<and>
    mem_Covering (NewMemDatabase [Some a, Some b]) cls (fst r) (snd r) = Inr [Ptr a, Ptr b]"
  by (rule stale_space [OF assms])

text \<open>(C30) ReverseRange places reverse zones of IPv4 space: the name of a block of one to four octets gives
  the block's first and last address, and an RFC 2317 range label the range it names.\<close>

theorem ReverseRange_blocks:
  "(os \<noteq> [] \<and> length os \<le> 4 \<and> dName d = reverse_name (map octet_label (rev os)) \<longrightarrow>
      ReverseRange d = Some (AddrFrom4 (os @ replicate (4 - length os) 0), AddrFrom4 (os @ replicate (4 - length os) 255))) \<and>
   (length os = 3 \<and> a \<le> b \<and> dName d = reverse_name (range_label a b # map octet_label (rev os)) \<longrightarrow>
      ReverseRange d = Some (AddrFrom4 (os @ [a]), AddrFrom4 (os @ [b])))"
  by (rule ReverseRange_octets)

subsection \<open>Witnesses\<close>

lemma sample_calm: "calm_verifier sample_verifier"
  by (simp add: calm_verifier_def sample_verifier_def errors_Is_def)

theorem Authorise_exact_witness:
  "\<not> allows RIPE (mem_Database sample_db) sample_update (sample_credential ''y'') sample_verifier"
  using Authorise_exact [of RIPE "mem_Database sample_db" sample_update "sample_credential ''y''" sample_verifier]
  by (simp add: sample_verdict)

theorem Authorise_answers_witness:
  "calm_verifier sample_verifier \<and> allows RIPE (mem_Database sample_db) sample_update (sample_credential ''x'') sample_verifier"
  using Authorise_answers [OF sample_calm, of RIPE sample_db sample_update "sample_credential ''x''"] sample_calm sample_accepted
  by simp

theorem RouteCreation_exact_witness:
  "\<exists>d. RouteCreation (mem_Mntner sample_db) sample_request (sample_credential ''x'') sample_verifier = Inr d \<and> OK d \<and>
     snd (space_covers (reqSpace sample_request) (reqPrefix sample_request))"
proof -
  obtain d where "RouteCreation (mem_Mntner sample_db) sample_request (sample_credential ''x'') sample_verifier = Inr d" "OK d"
    using sample_creation by (auto split: sum.splits)
  then show ?thesis using RouteCreation_exact by blast
qed

theorem covers_exact_witness:
  "wf_prefix (rPrefix sample_route) \<and> wf_space (OInetnum sample_inetnum) \<and>
   holds_all (AddrFrom4 [192, 0, 2, 0], AddrFrom4 [192, 0, 2, 255]) (rPrefix sample_route)"
proof -
  have w: "wf_prefix (rPrefix sample_route)" "wf_space (OInetnum sample_inetnum)"
    by (simp_all add: sample_route_def sample_inetnum_def AddrFrom4_def)
  moreover have "snd (space_covers (Ptr (OInetnum sample_inetnum)) (rPrefix sample_route))" by code_simp
  ultimately show ?thesis using covers_exact [OF w] by (simp add: sample_keys del: space_covers.simps addressRange.simps wf_space.simps)
qed

theorem Covering_superseded_witness:
  "mem_Covering (NewMemDatabase [Some (OInetnum sample_inetnum), Some (OInetnum later_inetnum)]) ''inetnum''
     (AddrFrom4 [192, 0, 2, 0]) (AddrFrom4 [192, 0, 2, 255]) = Inr [Ptr (OInetnum sample_inetnum), Ptr (OInetnum later_inetnum)]"
  using Covering_superseded [OF sample_keys] by simp

theorem ReverseRange_blocks_witness:
  "\<exists>d. dName d = ''2.0.192.in-addr.arpa'' \<and>
     ReverseRange d = Some (AddrFrom4 [192, 0, 2, 0], AddrFrom4 [192, 0, 2, 255])"
proof -
  let ?d = "\<lparr>MntBy = [], osource = [], MntLower = [], MntRoutes = [], MntIrt = [], oraw = None, dName = ''2.0.192.in-addr.arpa''\<rparr> :: Domain"
  have "dName ?d = reverse_name (map octet_label (rev [192, 0, 2]))" by code_simp
  then show ?thesis
    using ReverseRange_blocks [of "[192, 0, 2]" ?d 0 0] by (intro exI [of _ ?d]) (simp add: numeral_eq_Suc)
qed

end
