(* ===== verification/Set_Members.thy ===== *)
theory Set_Members
  imports Typed_Objects
begin

text \<open>
  Members of sets (\<^verbatim>\<open>src/object/members.go\<close>, \<^verbatim>\<open>srcmembers.go\<close>, \<^verbatim>\<open>rtrmember.go\<close>, \<^verbatim>\<open>sets.go\<close>): parsing one list item for a
  class of set, and the members a resolver follows when registry-scoped \<^verbatim>\<open>src-members:\<close> are present.
\<close>

subsection \<open>Parsing\<close>

fun member_kind_String :: "MemberKind \<Rightarrow> string" where
  "member_kind_String MemberAS = ''as''"
| "member_kind_String MemberSet = ''set''"
| "member_kind_String MemberPrefixRange = ''prefix-range''"
| "member_kind_String MemberInvalid = ''invalid''"

definition zeroRef :: SetRef where
  "zeroRef = Ref zeroSetName"

definition member_Ref :: "SetMember \<Rightarrow> SetRef" where
  "member_Ref m =
     (if mKind m \<noteq> MemberSet then zeroRef
      else case NewSetRef (mSource m) (mSet m) of None \<Rightarrow> zeroRef | Some r \<Rightarrow> r)"

definition raw_member :: "string \<Rightarrow> SetMember" where
  "raw_member item =
     \<lparr>mKind = MemberInvalid, mAS = 0, mSet = zeroSetName, mSource = [], mRange = zeroRange, mOp = zeroOp, mRaw = item\<rparr>"

definition noLength :: "string \<Rightarrow> bool" where
  "noLength base \<longleftrightarrow> CHR ''/'' \<notin> set base \<and> ParseAddr base \<noteq> None"

definition withLength :: "string \<Rightarrow> string" where
  "withLength t =
     (let (base, oper, hasOp) = Cut t ''^'' in
      if \<not> noLength base then t
      else let bits = (case ParseAddr base of Some a \<Rightarrow> BitLen a | None \<Rightarrow> 0);
               base = base @ ''/'' @ Itoa (nat bits) in
        if hasOp then base @ ''^'' @ oper else base)"

text \<open>The AS number or set name of a member's text, and the member it makes.\<close>

definition named_member :: "string \<Rightarrow> string \<Rightarrow> RangeOperator \<Rightarrow> SetMember option" where
  "named_member item base oper =
     (case ParseASN base of
        Some a \<Rightarrow> Some ((raw_member item)\<lparr>mKind := MemberAS, mAS := a, mOp := oper\<rparr>)
      | None \<Rightarrow>
          (case ParseSetName base of
             Some n \<Rightarrow> Some ((raw_member item)\<lparr>mKind := MemberSet, mSet := n, mOp := oper\<rparr>)
           | None \<Rightarrow> None))"

text \<open>The operator a member's text carries, or none when the part after the caret is not one.\<close>

definition split_op :: "string \<Rightarrow> string \<times> RangeOperator \<times> bool" where
  "split_op s =
     (case Cut s ''^'' of
        (base, opText, hasOp) \<Rightarrow>
          if hasOp then (case ParseRangeOperator opText of Some p \<Rightarrow> (base, p, True) | None \<Rightarrow> ([], zeroOp, False))
          else (base, zeroOp, False))"

text \<open>Both parsers return the member, and whether they failed.\<close>

definition ParseSetMember :: "string \<Rightarrow> SetClass \<Rightarrow> SetMember \<times> bool" where
  "ParseSetMember item container =
     (let s = TrimSpace item; bad = (raw_member item, True); routeSet = (container = ClassRouteSet) in
      if s = [] \<or> space_index s \<noteq> None then bad
      else let (base, oper, hasOp) = split_op s in
        case (if base \<noteq> [] then named_member item base oper else None) of
          Some m \<Rightarrow> if hasOp \<and> \<not> routeSet then bad else (m, False)
        | None \<Rightarrow>
            (case ParsePrefixRange (withLength s) of
               Some pr \<Rightarrow>
                 if \<not> routeSet then bad
                 else ((raw_member item)\<lparr>mKind := MemberPrefixRange, mRange := pr\<rparr>, False)
             | None \<Rightarrow> bad))"

definition member_nestable :: "SetClass \<Rightarrow> SetClass \<Rightarrow> bool" where
  "member_nestable container member =
     (case container of
        ClassRouteSet \<Rightarrow> member = ClassRouteSet \<or> member = ClassAsSet
      | ClassUnknown \<Rightarrow> True
      | _ \<Rightarrow> member = container)"

definition ParseSrcMember :: "string \<Rightarrow> SetClass \<Rightarrow> SetMember \<times> bool" where
  "ParseSrcMember item container =
     (let s = TrimSpace item; bad = (raw_member item, True) in
      if s = [] \<or> space_index s \<noteq> None then bad
      else let routeSet = (container = ClassRouteSet) in
        case ParsePrefixRange (withLength s) of
          Some pr \<Rightarrow>
            if \<not> routeSet then bad
            else ((raw_member item)\<lparr>mKind := MemberPrefixRange, mRange := pr\<rparr>, False)
        | None \<Rightarrow>
            let (base, opText, hasOp) = Cut s ''^'';
                oper = (if hasOp then ParseRangeOperator opText else Some zeroOp) in
            case oper of
              None \<Rightarrow> bad
            | Some oper \<Rightarrow>
                (case ParseASN base of
                   Some a \<Rightarrow> if hasOp then bad else ((raw_member item)\<lparr>mKind := MemberAS, mAS := a\<rparr>, False)
                 | None \<Rightarrow>
                     let (src, name, scoped) = Cut base ''::'' in
                     if \<not> scoped then bad
                     else case ParseSetRef (src @ ''::'' @ name) of
                            None \<Rightarrow> bad
                          | Some ref \<Rightarrow>
                              let cls = set_class (ref_name ref) in
                              if \<not> member_nestable container cls then bad
                              else if hasOp \<and> \<not> (routeSet \<and> cls = ClassRouteSet) then bad
                              else ((raw_member item)\<lparr>mKind := MemberSet, mSet := ref_name ref, mSource := ref_source ref, mOp := oper\<rparr>, False)))"

definition ParseRtrSetMember :: "string \<Rightarrow> RtrSetMember \<times> bool" where
  "ParseRtrSetMember item =
     (let raw = TrimSpace item;
          m = \<lparr>rmKind = RtrMemberInvalid, rmRouter = zeroRouter, rmSet = zeroSetName, rmRaw = raw\<rparr> in
      if raw = [] then (m, True)
      else case ParseSetName raw of
             Some n \<Rightarrow> if set_class n \<noteq> ClassRtrSet then (m, True) else (m\<lparr>rmKind := RtrMemberSet, rmSet := n\<rparr>, False)
           | None \<Rightarrow>
               (case ParseRouterID raw of
                  None \<Rightarrow> (m, True)
                | Some r \<Rightarrow> (m\<lparr>rmKind := RtrMemberRouter, rmRouter := r\<rparr>, False)))"

subsection \<open>The members a resolver follows\<close>

record memberKey =
  keyKind :: MemberKind
  keyAS :: asn
  keySet :: SetName
  keyRange :: PrefixRange

definition keyOf :: "SetMember \<Rightarrow> memberKey option" where
  "keyOf m =
     (case mKind m of
        MemberAS \<Rightarrow> Some \<lparr>keyKind = MemberAS, keyAS = mAS m, keySet = zeroSetName, keyRange = zeroRange\<rparr>
      | MemberSet \<Rightarrow> Some \<lparr>keyKind = MemberSet, keyAS = 0, keySet = mSet m, keyRange = zeroRange\<rparr>
      | MemberPrefixRange \<Rightarrow> Some \<lparr>keyKind = MemberPrefixRange, keyAS = 0, keySet = zeroSetName, keyRange = mRange m\<rparr>
      | MemberInvalid \<Rightarrow> None)"

text \<open>The registries under which a list of members names a set.\<close>

definition registries :: "SetMember list \<Rightarrow> SetName \<Rightarrow> string list" where
  "registries src n = remdups (map mSource (filter (\<lambda>m. mKind m = MemberSet \<and> mSet m = n) src))"

fun src_loop :: "SetMember list \<Rightarrow> memberKey list \<Rightarrow> SetMember list \<Rightarrow> SetMember list \<times> memberKey list" where
  "src_loop src have [] = ([], have)"
| "src_loop src have (m # ms) =
     (if mKind m = MemberSet \<and> length (registries src (mSet m)) > 1 then src_loop src have ms
      else case keyOf m of
             Some k \<Rightarrow>
               if k \<notin> set have then (let (out, have') = src_loop src (k # have) ms in (m # out, have'))
               else src_loop src have ms
           | None \<Rightarrow> src_loop src have ms)"

definition SetMembers :: "SetObject \<Rightarrow> SetMember list" where
  "SetMembers s = sMembers s @ sMpMembers s"

definition DirectMembers :: "SetObject \<Rightarrow> SetMember list" where
  "DirectMembers s =
     (let src = sSrcMembers s; listed = SetMembers s in
      if src = [] then listed
      else let (out, have) = src_loop src [] src in
        out @ filter (\<lambda>m. case keyOf m of Some k \<Rightarrow> k \<notin> set have | None \<Rightarrow> True) listed)"

definition SetRouters :: "SetObject \<Rightarrow> RtrSetMember list" where
  "SetRouters s = sRouters s @ sMpRouters s"

definition SetPeerings :: "SetObject \<Rightarrow> Peering list" where
  "SetPeerings s = sPeerings s @ sMpPeerings s"

fun RefMntners :: "set_kind \<Rightarrow> SetObject \<Rightarrow> string list" where
  "RefMntners PeeringSet s = []"
| "RefMntners FilterSet s = []"
| "RefMntners _ s = sMbrsByRef s"

subsection \<open>Parsed members\<close>

text \<open>A member that parses fits its container, and one that does not parse carries only its text.\<close>

definition fits :: "SetClass \<Rightarrow> SetMember \<Rightarrow> bool" where
  "fits container m \<longleftrightarrow>
     (mKind m = MemberPrefixRange \<longrightarrow> container = ClassRouteSet \<and> wf_range (mRange m)) \<and>
     (\<not> op_IsZero (mOp m) \<longrightarrow> container = ClassRouteSet) \<and> wf_op (mOp m)"

lemma named_member_fits:
  assumes "named_member item base oper = Some m" "wf_op oper" "op_IsZero oper \<or> container = ClassRouteSet"
  shows "fits container m \<and> mKind m \<noteq> MemberInvalid \<and> mRaw m = item"
  using assms by (auto simp: named_member_def fits_def raw_member_def split: option.splits)

lemma raw_member_fits: "fits container (raw_member item) \<and> mKind (raw_member item) = MemberInvalid \<and> mRaw (raw_member item) = item"
  by (simp add: fits_def raw_member_def zeroOp_def wf_op_def op_IsZero_def)

lemma range_member_fits:
  assumes "ParsePrefixRange t = Some pr" "container = ClassRouteSet"
  shows "fits container ((raw_member item)\<lparr>mKind := MemberPrefixRange, mRange := pr\<rparr>)"
  using ParsePrefixRange_wf [OF assms(1)] assms(2) raw_member_fits [of container item] by (simp add: fits_def raw_member_def)

lemma split_op_wf: "split_op s = (base, oper, hasOp) \<Longrightarrow> wf_op oper \<and> (hasOp \<or> op_IsZero oper)"
  using ParseRangeOperator_wf
  by (fastforce simp: split_op_def zeroOp_def wf_op_def op_IsZero_def split: prod.splits if_splits option.splits)

lemma ParseSetMember_fits:
  assumes "ParseSetMember item container = (m, failed)"
  shows "fits container m \<and> mRaw m = item \<and> (failed \<longleftrightarrow> mKind m = MemberInvalid)"
proof (cases "m = raw_member item \<and> failed")
  case True
  then show ?thesis using raw_member_fits by simp
next
  case False
  obtain base oper hasOp where sp: "split_op (TrimSpace item) = (base, oper, hasOp)" by (cases "split_op (TrimSpace item)")
  note wf = split_op_wf [OF sp]
  show ?thesis
  proof (cases "if base \<noteq> [] then named_member item base oper else None")
    case None
    then obtain pr where "ParsePrefixRange (withLength (TrimSpace item)) = Some pr" "container = ClassRouteSet"
        "m = (raw_member item)\<lparr>mKind := MemberPrefixRange, mRange := pr\<rparr>" "\<not> failed"
      using assms False sp by (auto simp: ParseSetMember_def Let_def split: if_splits option.splits)
    then show ?thesis using range_member_fits by (simp add: raw_member_def)
  next
    case (Some m')
    then have "m = m'" "\<not> failed" "hasOp \<longrightarrow> container = ClassRouteSet"
      using assms False sp by (auto simp: ParseSetMember_def Let_def split: if_splits)
    then show ?thesis using Some wf named_member_fits [of item base oper m' container] by (auto split: if_splits)
  qed
qed

end
