(* ===== verification/Op_Stack.thy ===== *)
theory Op_Stack
  imports Prefix_Range
begin

text \<open>
  Stacks of range operators (\<^verbatim>\<open>src/resolve/opstack.go\<close>): the operators met along a path of set members, kept as
  a table of what they do to the lower bound of a range.  Applying the table is applying the operators one
  after the other, innermost first.
\<close>

subsection \<open>Definitions\<close>

definition deleted :: u8 where
  "deleted = 0xFF"

record opStack =
  osSet :: bool
  hi4 :: u8
  hi6 :: u8
  lo4 :: "u8 list"
  lo6 :: "u8 list"

definition zeroStack :: opStack where
  "zeroStack = \<lparr>osSet = False, hi4 = 0, hi6 = 0, lo4 = replicate 33 0, lo6 = replicate 129 0\<rparr>"

definition stack_family :: "opStack \<Rightarrow> bool \<Rightarrow> u8 list \<times> u8 \<times> nat" where
  "stack_family s v6 = (if v6 then (lo6 s, hi6 s, 128) else (lo4 s, hi4 s, 32))"

text \<open>The bounds an operator gives a range whose lower bound is \<open>k\<close>.\<close>

definition push_bounds :: "RangeOperator \<Rightarrow> nat \<Rightarrow> nat \<Rightarrow> int \<times> int" where
  "push_bounds oper maxBits k =
     (let (lo, hi) = (case Op oper of
            RangePlus \<Rightarrow> (int k, int maxBits)
          | RangeMinus \<Rightarrow> (int k + 1, int maxBits)
          | _ \<Rightarrow> (uint (opN oper), uint (opM oper))) in
      (max lo (int k), min hi (int maxBits)))"

definition push_lo :: "opStack \<Rightarrow> RangeOperator \<Rightarrow> bool \<Rightarrow> nat \<Rightarrow> u8" where
  "push_lo s oper v6 k =
     (let (plo, _, maxBits) = stack_family s v6; (lo, hi) = push_bounds oper maxBits k in
      if lo > hi then deleted else if osSet s then plo ! nat lo else of_int lo)"

text \<open>The upper bound is the outermost operator's; every round of the loop over \<open>k\<close> stores the same.\<close>

definition push_hi :: "opStack \<Rightarrow> RangeOperator \<Rightarrow> bool \<Rightarrow> u8" where
  "push_hi s oper v6 =
     (let (_, phi, maxBits) = stack_family s v6 in
      if osSet s then phi else of_int (snd (push_bounds oper maxBits maxBits)))"

definition stack_push :: "opStack \<Rightarrow> RangeOperator \<Rightarrow> opStack" where
  "stack_push s oper =
     (if op_IsZero oper then s
      else \<lparr>osSet = True, hi4 = push_hi s oper False, hi6 = push_hi s oper True,
            lo4 = map (push_lo s oper False) [0..<33], lo6 = map (push_lo s oper True) [0..<129]\<rparr>)"

definition stack_apply :: "opStack \<Rightarrow> PrefixRange \<Rightarrow> PrefixRange option" where
  "stack_apply s r =
     (if range_IsEmpty r then None
      else if \<not> osSet s then Some r
      else let (lo, hi, maxBits) = stack_family s (Is6 (Addr (rprefix r))); k = Lo r in
        if k > int maxBits \<or> lo ! nat k = deleted then None
        else NewPrefixRange (rprefix r) (uint (lo ! nat k)) (uint hi))"

subsection \<open>One operator after the other\<close>

text \<open>The operators of a path, outermost first, applied to a range innermost first.\<close>

fun apply_path :: "RangeOperator list \<Rightarrow> PrefixRange \<Rightarrow> PrefixRange option" where
  "apply_path [] r = Some r"
| "apply_path (oper # ops) r = (case apply_path ops r of None \<Rightarrow> None | Some r' \<Rightarrow> op_Apply oper r')"

lemma apply_path_snoc: "apply_path (ops @ [oper]) r = (case op_Apply oper r of None \<Rightarrow> None | Some r' \<Rightarrow> apply_path ops r')"
  by (induction ops) (auto split: option.splits)

lemma apply_path_zero: "list_all op_IsZero ops \<Longrightarrow> apply_path ops r = Some r"
  by (induction ops) (auto simp: op_Apply_def)

definition stack_of :: "RangeOperator list \<Rightarrow> opStack" where
  "stack_of ops = foldl stack_push zeroStack ops"

lemma stack_of_snoc [simp]: "stack_of (ops @ [oper]) = stack_push (stack_of ops) oper"
  by (simp add: stack_of_def)

lemma stack_of_set: "osSet (stack_of ops) \<longleftrightarrow> \<not> list_all op_IsZero ops"
proof (induction ops rule: rev_induct)
  case Nil
  then show ?case by (simp add: stack_of_def zeroStack_def)
qed (auto simp: stack_push_def)

lemma family_bits:
  assumes "wf_range r" "\<not> range_IsEmpty r"
  shows "BitLen (Addr (rprefix r)) = int (snd (snd (stack_family s (Is6 (Addr (rprefix r))))))"
proof -
  have "Addr (rprefix r) \<noteq> ZeroAddr" using wf_rangeD [OF assms] by (auto simp: wf_prefix_def prefix_isValid_def)
  then show ?thesis by (cases "Addr (rprefix r)") (auto simp: stack_family_def)
qed

lemma op_Apply_bounds:
  assumes "wf_range r" "\<not> range_IsEmpty r" "\<not> op_IsZero oper" "BitLen (Addr (rprefix r)) = int maxBits"
  shows "op_Apply oper r =
    (let (lo, hi) = push_bounds oper maxBits (nat (Lo r)) in if lo > hi then None else NewPrefixRange (rprefix r) lo hi)"
  using assms by (cases "Op oper") (auto simp: op_Apply_def push_bounds_def Let_def op_IsZero_def range_IsEmpty_def max_def)

lemma bounds_hi: "snd (push_bounds oper maxBits k) = snd (push_bounds oper maxBits k')"
  by (simp add: push_bounds_def Let_def split: RangeOp.split)

lemma bounds_in: "push_bounds oper maxBits k = (lo, hi) \<Longrightarrow> int k \<le> lo \<and> hi \<le> int maxBits"
  by (auto simp: push_bounds_def Let_def split: prod.splits)

lemma push_family:
  assumes "\<not> op_IsZero oper" "stack_family s v6 = (plo, phi, maxBits)" "k \<le> maxBits"
  shows "\<exists>clo. stack_family (stack_push s oper) v6 = (clo, push_hi s oper v6, maxBits) \<and> clo ! k = push_lo s oper v6 k"
  using assms by (auto simp: stack_family_def stack_push_def simp del: upt_Suc split: if_splits)

lemma u8_of_small: "0 \<le> i \<Longrightarrow> i \<le> 128 \<Longrightarrow> uint (of_int i :: u8) = i \<and> (of_int i :: u8) \<noteq> deleted"
proof -
  assume "0 \<le> i" "i \<le> 128"
  then have u: "uint (of_int i :: u8) = i" by (simp add: uint_u8_of_int)
  moreover have "uint deleted = 255" by (simp add: deleted_def)
  ultimately show ?thesis using \<open>i \<le> 128\<close> by auto
qed

lemma stack_push_apply:
  assumes r: "wf_range r" "\<not> range_IsEmpty r" and o: "\<not> op_IsZero oper"
  shows "stack_apply (stack_push s oper) r = (case op_Apply oper r of None \<Rightarrow> None | Some r' \<Rightarrow> stack_apply s r')"
proof -
  define v6 where "v6 = Is6 (Addr (rprefix r))"
  obtain plo phi maxBits where f: "stack_family s v6 = (plo, phi, maxBits)" by (cases "stack_family s v6")
  have m: "BitLen (Addr (rprefix r)) = int maxBits" using family_bits [OF r, of s] f by (simp add: v6_def)
  have m128: "maxBits \<le> 128" using f by (auto simp: stack_family_def split: if_splits)
  note d = wf_rangeD [OF r]
  obtain k where k: "Lo r = int k" "k \<le> maxBits" using d m Lo_bounds(1) [of r] by (metis int_nat_eq nat_int of_nat_le_iff order_trans)
  obtain lo hi where b: "push_bounds oper maxBits k = (lo, hi)" by (cases "push_bounds oper maxBits k")
  note bi = bounds_in [OF b]
  have A: "op_Apply oper r = (if lo > hi then None else NewPrefixRange (rprefix r) lo hi)"
    using op_Apply_bounds [OF r o m] by (simp add: k b)
  obtain clo where pf: "stack_family (stack_push s oper) v6 = (clo, push_hi s oper v6, maxBits)" "clo ! k = push_lo s oper v6 k"
    using push_family [OF o f k(2)] by blast
  have L: "stack_apply (stack_push s oper) r =
      (if push_lo s oper v6 k = deleted then None
       else NewPrefixRange (rprefix r) (uint (push_lo s oper v6 k)) (uint (push_hi s oper v6)))"
    unfolding stack_apply_def v6_def [symmetric] pf(1) Let_def prod.case using r o k pf(2)
    by (simp add: stack_push_def)
  show ?thesis
  proof (cases "lo > hi")
    case True
    then show ?thesis by (simp add: L A push_lo_def f b)
  next
    case False
    have pl: "push_lo s oper v6 k = (if osSet s then plo ! nat lo else of_int lo)" using False by (simp add: push_lo_def f b)
    have ph: "push_hi s oper v6 = (if osSet s then phi else of_int hi)"
      using bounds_hi [of oper maxBits maxBits k] by (simp add: push_hi_def f b)
    have lo: "0 \<le> lo" "lo \<le> 128" "0 \<le> hi" "hi \<le> 128" "Bits (rprefix r) \<le> lo" using bi False m128 k d by linarith+
    obtain r' where r': "NewPrefixRange (rprefix r) lo hi = Some r'"
      using NewPrefixRange_None [OF d(1), of lo hi] False d(2) lo bi m by (cases "NewPrefixRange (rprefix r) lo hi") auto
    note n = NewPrefixRange_Some [OF r' d(1)]
    have same: "rprefix r' = rprefix r" "Lo r' = lo" using n d lo by simp_all
    have "stack_apply s r' = (if osSet s then if plo ! nat lo = deleted then None else NewPrefixRange (rprefix r) (uint (plo ! nat lo)) (uint phi) else Some r')"
      using n(6) bi False by (simp add: stack_apply_def same v6_def [symmetric] f)
    then show ?thesis using False A L pl ph r' u8_of_small [of lo] u8_of_small [of hi] lo by simp
  qed
qed

lemma op_Apply_wf:
  assumes "wf_range r" "\<not> range_IsEmpty r" "op_Apply oper r = Some r'"
  shows "wf_range r' \<and> \<not> range_IsEmpty r'"
  using assms NewPrefixRange_Some(5,6) [of "rprefix r" _ _ r'] wf_rangeD(1) [OF assms(1,2)]
  by (auto simp: op_Apply_def Let_def split: if_splits prod.splits)

lemma stack_apply_path:
  assumes "wf_range r"
  shows "stack_apply (stack_of ops) r = (if range_IsEmpty r then None else apply_path ops r)"
  using assms
proof (induction ops arbitrary: r rule: rev_induct)
  case Nil
  then show ?case by (simp add: stack_apply_def stack_of_def zeroStack_def)
next
  case (snoc oper ops)
  show ?case
  proof (cases "range_IsEmpty r")
    case False
    show ?thesis
    proof (cases "op_IsZero oper")
      case True
      then show ?thesis using snoc False by (simp add: stack_push_def apply_path_snoc op_Apply_def)
    next
      case nz: False
      show ?thesis
        using snoc.IH op_Apply_wf [OF snoc.prems False] False
        by (auto simp: stack_push_apply [OF snoc.prems False nz] apply_path_snoc split: option.split)
    qed
  qed (simp add: stack_apply_def)
qed

end
