(* ===== verification/Resolve_Sets.thy ===== *)
theory Resolve_Sets
  imports Set_Members Op_Stack Go_Sort
begin

text \<open>
  What an expansion reads (\<^verbatim>\<open>src/resolve/source.go\<close>, \<^verbatim>\<open>claims.go\<close>, \<^verbatim>\<open>expander.go\<close>): the injected source as a record of
  its lookups, the limits and exclusions of an expander, the nesting of sets, and whose claims of indirect
  membership a set honours.
\<close>

subsection \<open>Sources, limits and errors\<close>

type_synonym NamedSet = "set_kind \<times> SetObject"

text \<open>An error of the source is \<^verbatim>\<open>ErrNotFound\<close>, or one the engine passes on.\<close>

datatype source_error = SrcNotFound | SrcError string

text \<open>The lookups may answer a set that is nil, and objects that are.\<close>

record Source =
  GetSet :: "SetRef \<Rightarrow> source_error + NamedSet option"
  OriginatedRoutes :: "asn \<Rightarrow> AFI \<Rightarrow> source_error + prefix list"
  MembersByRef :: "NamedSet \<Rightarrow> source_error + iface list"

datatype Limit = LimitPrefixes | LimitVisited | LimitDepth | LimitConjuncts

fun Limit_String :: "Limit \<Rightarrow> string" where
  "Limit_String LimitVisited = ''MaxVisited''"
| "Limit_String LimitDepth = ''MaxDepth''"
| "Limit_String LimitConjuncts = ''MaxConjuncts''"
| "Limit_String LimitPrefixes = ''MaxPrefixes''"

datatype resolve_error =
    ErrNotFoundR | ErrSetClass | SetTooLarge SetRef Limit nat nat | AnySet SetName
  | SourceFault string | WrongAnswer SetRef | ClaimsFault SetName

record Exclusion =
  exSets :: "SetName list"
  exASNs :: "asn list"

record Expander =
  Src :: Source
  MaxDepth :: int
  MaxPrefixes :: int
  MaxVisited :: int
  expAFI :: AFI
  Exclude :: Exclusion

definition limit :: "int \<Rightarrow> nat \<Rightarrow> nat" where
  "limit v dflt = (if v = 0 then dflt else if v < 0 then 2 ^ 63 - 1 else nat v)"

definition maxDepth :: "Expander \<Rightarrow> nat" where
  "maxDepth e = limit (MaxDepth e) 32"

definition maxPrefixes :: "Expander \<Rightarrow> nat" where
  "maxPrefixes e = limit (MaxPrefixes e) (2 ^ 20)"

definition maxVisited :: "Expander \<Rightarrow> nat" where
  "maxVisited e = limit (MaxVisited e) (2 ^ 17)"

definition afiAllows :: "Expander \<Rightarrow> prefix \<Rightarrow> bool" where
  "afiAllows e p = (case expAFI e of AFIv4 \<Rightarrow> Is4 (Addr p) | AFIv6 \<Rightarrow> Is6 (Addr p) | _ \<Rightarrow> True)"

definition excluded_set :: "Expander \<Rightarrow> SetName \<Rightarrow> bool" where
  "excluded_set e n \<longleftrightarrow> set_canon n \<in> set (map set_canon (exSets (Exclude e)))"

definition excluded_as :: "Expander \<Rightarrow> asn \<Rightarrow> bool" where
  "excluded_as e a \<longleftrightarrow> a \<in> set (exASNs (Exclude e))"

subsection \<open>Claims of indirect membership\<close>

definition equalFoldASCII :: "string \<Rightarrow> string \<Rightarrow> bool" where
  "equalFoldASCII a b \<longleftrightarrow> length a = length b \<and> lowerASCII a = lowerASCII b"

definition asnDecodes :: "Object option \<Rightarrow> string \<Rightarrow> bool" where
  "asnDecodes raw attr =
     (case raw of
        None \<Rightarrow> True
      | Some _ \<Rightarrow> (case GetFirst raw attr of None \<Rightarrow> False | Some a \<Rightarrow> ParseASN (TrimSpace (aValue a)) \<noteq> None))"

fun claimant :: "iface \<Rightarrow> (SetName list \<times> string list \<times> string) option" where
  "claimant (Ptr (OAutNum t)) =
     (if \<not> asnDecodes (oraw t) ''aut-num'' then None else Some (anMemberOf t, MntBy t, osource t))"
| "claimant (Ptr (ORoute t)) = Some (rMemberOf t, MntBy t, osource t)"
| "claimant (Ptr (OInetRtr t)) = Some (irMemberOf t, MntBy t, osource t)"
| "claimant (Ptr (ORoute6 t)) = Some (rMemberOf t, MntBy t, osource t)"
| "claimant _ = None"

text \<open>The loop over \<^verbatim>\<open>mbrs-by-ref:\<close>; \<open>None\<close> stands for ANY.\<close>

fun allow_loop :: "string list \<Rightarrow> string list \<Rightarrow> string list option" where
  "allow_loop [] allow = Some allow"
| "allow_loop (m # ms) allow =
     (let m = lowerASCII (TrimSpace m) in
      if m = ''any'' then None else allow_loop ms (if m \<noteq> [] then m # allow else allow))"

definition ClaimAllowed :: "iface \<Rightarrow> NamedSet \<Rightarrow> bool" where
  "ClaimAllowed ob s =
     (case claimant ob of
        None \<Rightarrow> False
      | Some (memberOf, mntBy, source) \<Rightarrow>
          if sName (snd s) \<notin> set memberOf \<or> \<not> equalFoldASCII (TrimSpace source) (TrimSpace (osource (snd s))) then False
          else case allow_loop (RefMntners (fst s) (snd s)) [] of
                 None \<Rightarrow> True
               | Some allow \<Rightarrow> list_ex (\<lambda>m. lowerASCII (TrimSpace m) \<in> set allow) mntBy)"

definition claimClassOK :: "NamedSet \<Rightarrow> iface \<Rightarrow> bool" where
  "claimClassOK s ob =
     (case (set_class (sName (snd s)), ob) of
        (ClassAsSet, Ptr (OAutNum _)) \<Rightarrow> True
      | (ClassRouteSet, Ptr (ORoute _)) \<Rightarrow> True
      | (ClassRouteSet, Ptr (ORoute6 _)) \<Rightarrow> True
      | (ClassRtrSet, Ptr (OInetRtr _)) \<Rightarrow> True
      | _ \<Rightarrow> False)"

text \<open>Only sets with \<^verbatim>\<open>mbrs-by-ref:\<close> are asked, and every claim is checked again.\<close>

definition claimsOf :: "Expander \<Rightarrow> NamedSet \<Rightarrow> resolve_error + iface list" where
  "claimsOf e s =
     (if RefMntners (fst s) (snd s) = [] then Inr []
      else case MembersByRef (Src e) s of
             Inl SrcNotFound \<Rightarrow> Inl (ClaimsFault (sName (snd s)))
           | Inl (SrcError m) \<Rightarrow> Inl (SourceFault m)
           | Inr objs \<Rightarrow> Inr (filter (\<lambda>ob. claimClassOK s ob \<and> ClaimAllowed ob s) objs))"

subsection \<open>Nesting\<close>

definition nestable :: "SetClass \<Rightarrow> SetClass \<Rightarrow> bool" where
  "nestable parent child =
     (case parent of
        ClassAsSet \<Rightarrow> child = ClassAsSet
      | ClassRouteSet \<Rightarrow> child = ClassRouteSet \<or> child = ClassAsSet
      | ClassRtrSet \<Rightarrow> child = ClassRtrSet
      | ClassPeeringSet \<Rightarrow> child = ClassPeeringSet
      | _ \<Rightarrow> False)"

fun members :: "NamedSet \<Rightarrow> SetMember list" where
  "members (AsSet, s) = DirectMembers s"
| "members (RouteSet, s) = DirectMembers s"
| "members (_, s) = []"

definition member_refs :: "SetClass \<Rightarrow> SetMember list \<Rightarrow> SetRef list" where
  "member_refs parent ms =
     map member_Ref (filter (\<lambda>m. mKind m = MemberSet \<and> nestable parent (set_class (mSet m)) \<and> \<not> ref_IsZero (member_Ref m)) ms)"

definition router_refs :: "SetClass \<Rightarrow> RtrSetMember list \<Rightarrow> SetRef list" where
  "router_refs parent ms =
     map (\<lambda>m. Ref (rmSet m)) (filter (\<lambda>m. rmKind m = RtrMemberSet \<and> nestable parent (set_class (rmSet m))) ms)"

fun peering_refs :: "SetClass \<Rightarrow> Peering list \<Rightarrow> SetRef list" where
  "peering_refs parent [] = []"
| "peering_refs parent (PeeringSetRef n # ps) = (if nestable parent (set_class n) then Ref n # peering_refs parent ps else peering_refs parent ps)"
| "peering_refs parent (PeeringSpec t # ps) = peering_refs parent ps"

fun nestedRefs :: "NamedSet \<Rightarrow> SetRef list" where
  "nestedRefs (AsSet, s) = member_refs (set_class (sName s)) (DirectMembers s)"
| "nestedRefs (RouteSet, s) = member_refs (set_class (sName s)) (DirectMembers s)"
| "nestedRefs (RtrSet, s) = router_refs (set_class (sName s)) (SetRouters s)"
| "nestedRefs (PeeringSet, s) = peering_refs (set_class (sName s)) (SetPeerings s)"
| "nestedRefs (FilterSet, s) = []"

subsection \<open>Fetching a set\<close>

definition checkSet :: "SetRef \<Rightarrow> NamedSet option \<Rightarrow> resolve_error + NamedSet" where
  "checkSet ref s =
     (case s of
        None \<Rightarrow> Inl ErrNotFoundR
      | Some (k, ob) \<Rightarrow>
          if sName ob \<noteq> ref_name ref then Inl (WrongAnswer ref)
          else if IsScoped ref \<and> \<not> equalFoldASCII (TrimSpace (osource ob)) (ref_source ref) then Inl (WrongAnswer ref)
          else if kind_Class k \<noteq> class_String (set_class (ref_name ref)) then Inl ErrNotFoundR
          else Inr (k, ob))"

definition fetchOne :: "Expander \<Rightarrow> SetRef \<Rightarrow> resolve_error + NamedSet" where
  "fetchOne e ref =
     (case GetSet (Src e) ref of
        Inl SrcNotFound \<Rightarrow> Inl ErrNotFoundR
      | Inl (SrcError m) \<Rightarrow> Inl (SourceFault m)
      | Inr s \<Rightarrow> checkSet ref s)"

end
