(* ===== verification/Resolve_Discover.thy ===== *)
theory Resolve_Discover
  imports Resolve_Sets
begin

text \<open>
  Discovery (\<^verbatim>\<open>discover\<close> of \<^verbatim>\<open>src/resolve/expander.go\<close>): the sets reachable from a set are fetched breadth-first, each
  once, within limits on depth and number.  Contexts are not cancelled, and a level is fetched in the order of
  its references, which is how its answers are read however many fetches run at once.
\<close>

subsection \<open>Definitions\<close>

record setNode =
  ndSet :: NamedSet
  ndClaims :: "iface list"

text \<open>The nodes in the order of their discovery, which is \<^verbatim>\<open>order\<close>.\<close>

record setGraph =
  gTop :: SetRef
  gNodes :: "(SetRef \<times> setNode) list"
  gMissing :: "SetRef list"
  gAny :: "SetRef list"
  gReached :: nat

record visit =
  vSeen :: "SetRef list"
  vNext :: "SetRef list"
  vAnyRef :: "SetRef option"
  vAny :: "SetRef list"

text \<open>A reference that passed the checks: one to AS-ANY is recorded, any other is for the next level.\<close>

definition note_ref :: "bool \<Rightarrow> SetRef \<Rightarrow> visit \<Rightarrow> visit" where
  "note_ref anyLeaf ref v =
     (let v = v\<lparr>vSeen := ref # vSeen v\<rparr> in
      if IsAny (ref_name ref)
      then v\<lparr>vAnyRef := (case vAnyRef v of None \<Rightarrow> Some ref | Some r \<Rightarrow> Some r),
             vAny := (if anyLeaf then vAny v @ [ref] else vAny v)\<rparr>
      else v\<lparr>vNext := vNext v @ [ref]\<rparr>)"

fun visit_refs :: "Expander \<Rightarrow> SetRef \<Rightarrow> bool \<Rightarrow> nat \<Rightarrow> SetRef list \<Rightarrow> visit \<Rightarrow> resolve_error + visit" where
  "visit_refs e start anyLeaf depth [] v = Inr v"
| "visit_refs e start anyLeaf depth (ref # refs) v =
     (if ref \<in> set (vSeen v) \<or> excluded_set e (ref_name ref) then visit_refs e start anyLeaf depth refs v
      else if depth + 1 > maxDepth e then Inl (SetTooLarge start LimitDepth (maxDepth e) (depth + 1))
      else if length (vSeen v) \<ge> maxVisited e
      then Inl (SetTooLarge start LimitVisited (maxVisited e) (length (vSeen v) + 1))
      else visit_refs e start anyLeaf depth refs (note_ref anyLeaf ref v))"

fun visit_level :: "Expander \<Rightarrow> SetRef \<Rightarrow> bool \<Rightarrow> nat \<Rightarrow> SetRef list \<Rightarrow> visit \<Rightarrow> (SetRef \<times> NamedSet) list \<Rightarrow> SetRef list \<Rightarrow>
    resolve_error + visit \<times> (SetRef \<times> NamedSet) list \<times> SetRef list" where
  "visit_level e start anyLeaf depth [] v nodes missing = Inr (v, nodes, missing)"
| "visit_level e start anyLeaf depth (n # level) v nodes missing =
     (case fetchOne e n of
        Inl err \<Rightarrow>
          if err \<noteq> ErrNotFoundR then Inl err
          else if depth = 0 then Inl ErrNotFoundR
          else visit_level e start anyLeaf depth level v nodes (missing @ [n])
      | Inr s \<Rightarrow>
          (case visit_refs e start anyLeaf depth (nestedRefs s) v of
             Inl err \<Rightarrow> Inl err
           | Inr v' \<Rightarrow> visit_level e start anyLeaf depth level v' (nodes @ [(n, s)]) missing))"

definition start_visit :: "SetRef list \<Rightarrow> visit" where
  "start_visit seen = \<lparr>vSeen = seen, vNext = [], vAnyRef = None, vAny = []\<rparr>"

text \<open>A level only follows one that has seen more sets, and those are bounded.\<close>

lemma note_ref_simps [simp]:
  "vSeen (note_ref anyLeaf ref v) = ref # vSeen v"
  "vNext (note_ref anyLeaf ref v) = vNext v @ (if IsAny (ref_name ref) then [] else [ref])"
  "vAnyRef (note_ref anyLeaf ref v) =
     (if IsAny (ref_name ref) then (case vAnyRef v of None \<Rightarrow> Some ref | Some r \<Rightarrow> Some r) else vAnyRef v)"
  by (simp_all add: note_ref_def Let_def)

lemma visit_refs_counts:
  "visit_refs e start anyLeaf depth refs v = Inr v' \<Longrightarrow>
     length (vSeen v) + length (vNext v') \<le> length (vSeen v') + length (vNext v) \<and> length (vSeen v) \<le> length (vSeen v') \<and>
     (length (vSeen v') = length (vSeen v) \<or> length (vSeen v') \<le> maxVisited e)"
proof (induction refs arbitrary: v)
  case (Cons ref refs)
  from Cons.prems Cons.IH [of v] Cons.IH [of "note_ref anyLeaf ref v"] show ?case by (auto split: if_splits)
qed simp

lemma visit_level_counts:
  "visit_level e start anyLeaf depth level v nodes missing = Inr (v', nodes', missing') \<Longrightarrow>
     length (vSeen v) + length (vNext v') \<le> length (vSeen v') + length (vNext v) \<and> length (vSeen v) \<le> length (vSeen v') \<and>
     (length (vSeen v') = length (vSeen v) \<or> length (vSeen v') \<le> maxVisited e)"
proof (induction level arbitrary: v nodes missing)
  case (Cons n level)
  from Cons.prems show ?case
    by (fastforce split: sum.splits if_splits dest!: Cons.IH visit_refs_counts)
qed simp

function discover_loop :: "Expander \<Rightarrow> SetRef \<Rightarrow> bool \<Rightarrow> nat \<Rightarrow> SetRef list \<Rightarrow> SetRef list \<Rightarrow> (SetRef \<times> NamedSet) list \<Rightarrow> SetRef list \<Rightarrow>
    resolve_error + (SetRef \<times> NamedSet) list \<times> SetRef list \<times> SetRef list \<times> SetRef list" where
  "discover_loop e start anyLeaf depth level seen nodes missing =
     (if level = [] then Inr (nodes, missing, [], seen)
      else case visit_level e start anyLeaf depth level (start_visit seen) nodes missing of
             Inl err \<Rightarrow> Inl err
           | Inr (v, nodes', missing') \<Rightarrow>
               (case vAnyRef v of
                  Some r \<Rightarrow> if \<not> anyLeaf then Inl (AnySet (ref_name r)) else Inr (nodes', missing', vAny v, vSeen v)
                | None \<Rightarrow> discover_loop e start anyLeaf (depth + 1) (vNext v) (vSeen v) nodes' missing'))"
  by pat_completeness auto
termination
proof (relation "measure (\<lambda>(e, _, _, _, level, seen, _). (maxVisited e - length seen) + (if level = [] then 0 else 1))", goal_cases)
  case (2 e start anyLeaf depth level seen nodes missing r v y nodes' missing')
  then have "visit_level e start anyLeaf depth level (start_visit seen) nodes missing = Inr (v, nodes', missing')" by simp
  from visit_level_counts [OF this] 2(1) show ?case by (cases "vNext v") (auto simp: start_visit_def)
qed simp

declare discover_loop.simps [simp del]

text \<open>The claims of every node, or the first error in the order of discovery.\<close>

fun fetchClaims :: "Expander \<Rightarrow> (SetRef \<times> NamedSet) list \<Rightarrow> resolve_error + (SetRef \<times> setNode) list" where
  "fetchClaims e [] = Inr []"
| "fetchClaims e ((n, s) # nodes) =
     (case claimsOf e s of
        Inl err \<Rightarrow> Inl err
      | Inr cs \<Rightarrow>
          (case fetchClaims e nodes of
             Inl err \<Rightarrow> Inl err
           | Inr nds \<Rightarrow> Inr ((n, \<lparr>ndSet = s, ndClaims = cs\<rparr>) # nds)))"

definition discover :: "Expander \<Rightarrow> SetRef \<Rightarrow> bool \<Rightarrow> resolve_error + setGraph" where
  "discover e start anyLeaf =
     (if IsAny (ref_name start) then Inl (AnySet (ref_name start))
      else case discover_loop e start anyLeaf 0 [start] [start] [] [] of
             Inl err \<Rightarrow> Inl err
           | Inr (nodes, missing, anys, seen) \<Rightarrow>
               let missing = SliceStable (\<lambda>a b. bytes_less (ref_String a) (ref_String b)) missing in
               if anys = []
               then (case fetchClaims e nodes of
                       Inl err \<Rightarrow> Inl err
                     | Inr nds \<Rightarrow> Inr \<lparr>gTop = start, gNodes = nds, gMissing = missing, gAny = [], gReached = length seen\<rparr>)
               else Inr \<lparr>gTop = start, gNodes = map (\<lambda>(n, s). (n, \<lparr>ndSet = s, ndClaims = []\<rparr>)) nodes,
                         gMissing = missing, gAny = anys, gReached = length seen\<rparr>)"

end
