(* ===== verification/Resolve_Reach.thy ===== *)
theory Resolve_Reach
  imports Resolve_Discover
begin

text \<open>
  What discovery finds: exactly the sets reachable from the named one.  It succeeds exactly when the graph they
  form is within the limits, names no set of the whole registry, and the source answers for each of them.
\<close>

subsection \<open>Reachable sets\<close>

definition succs :: "Expander \<Rightarrow> SetRef \<Rightarrow> SetRef set" where
  "succs e n = {r. \<exists>s. fetchOne e n = Inr s \<and> r \<in> set (nestedRefs s) \<and> \<not> excluded_set e (ref_name r)}"

text \<open>The sets within \<open>k\<close> steps of a set.\<close>

fun within :: "Expander \<Rightarrow> SetRef \<Rightarrow> nat \<Rightarrow> SetRef set" where
  "within e start 0 = {start}"
| "within e start (Suc k) = within e start k \<union> (\<Union>n\<in>within e start k. succs e n)"

definition reachable :: "Expander \<Rightarrow> SetRef \<Rightarrow> SetRef set" where
  "reachable e start = (\<Union>k. within e start k)"

lemma within_mono: "i \<le> j \<Longrightarrow> within e start i \<subseteq> within e start j"
  by (induction j) (auto simp: le_Suc_eq)

lemma within_reachable: "within e start k \<subseteq> reachable e start"
  by (auto simp: reachable_def)

lemma start_within [simp]: "start \<in> within e start k"
  by (induction k) auto

lemma reachable_step: "n \<in> reachable e start \<Longrightarrow> r \<in> succs e n \<Longrightarrow> r \<in> reachable e start"
  unfolding reachable_def by clarsimp (metis UN_I UnI2 within.simps(2))

lemma within_fixed:
  assumes "within e start (Suc k) = within e start k"
  shows "reachable e start = within e start k"
proof -
  have "within e start (k + i) = within e start k" for i
  proof (induction i)
    case (Suc i)
    then show ?case using assms by simp
  qed simp
  then have "within e start j \<subseteq> within e start k" for j
    using within_mono [of j "k + j" e start] by simp
  then show ?thesis by (auto simp: reachable_def)
qed

text \<open>Reachability is closure under steps: the least set that holds the start and its successors.\<close>

lemma reachable_least:
  assumes "start \<in> S" "\<And>n r. n \<in> S \<Longrightarrow> r \<in> succs e n \<Longrightarrow> r \<in> S"
  shows "reachable e start \<subseteq> S"
proof -
  have "within e start k \<subseteq> S" for k using assms by (induction k) auto
  then show ?thesis by (auto simp: reachable_def)
qed

subsection \<open>One level\<close>

text \<open>The state of a level that started with the sets \<open>S\<close> seen.\<close>

definition level_inv :: "SetRef set \<Rightarrow> visit \<Rightarrow> bool" where
  "level_inv S v \<longleftrightarrow>
     distinct (vSeen v) \<and> S \<subseteq> set (vSeen v) \<and>
     (case vAnyRef v of
        None \<Rightarrow> set (vNext v) = set (vSeen v) - S \<and> distinct (vNext v) \<and> list_all (\<lambda>r. \<not> IsAny (ref_name r)) (vNext v)
      | Some r \<Rightarrow> r \<in> set (vSeen v) \<and> IsAny (ref_name r))"

lemma note_ref_inv:
  assumes "level_inv S v" "r \<notin> set (vSeen v)"
  shows "level_inv S (note_ref anyLeaf r v)"
  using assms by (cases "vAnyRef v") (auto simp: level_inv_def)

lemma visit_refs_exact:
  "visit_refs e start anyLeaf depth refs v = Inr v' \<Longrightarrow> level_inv S v \<Longrightarrow>
     level_inv S v' \<and> set (vSeen v') = set (vSeen v) \<union> {r \<in> set refs. \<not> excluded_set e (ref_name r)} \<and>
     (set (vSeen v') = set (vSeen v) \<or> depth < maxDepth e)"
proof (induction refs arbitrary: v)
  case (Cons r refs)
  show ?case
  proof (cases "r \<in> set (vSeen v) \<or> excluded_set e (ref_name r)")
    case True
    then show ?thesis using Cons by auto
  next
    case False
    have g: "visit_refs e start anyLeaf depth refs (note_ref anyLeaf r v) = Inr v'" "depth < maxDepth e"
      using Cons.prems(1) False by (auto split: if_splits)
    have i: "level_inv S (note_ref anyLeaf r v)" using note_ref_inv [OF Cons.prems(2)] False by blast
    show ?thesis using Cons.IH [OF g(1) i] False g(2) by auto
  qed
qed auto

definition fetched :: "Expander \<Rightarrow> SetRef list \<Rightarrow> (SetRef \<times> NamedSet) list" where
  "fetched e ns = concat (map (\<lambda>n. case fetchOne e n of Inr s \<Rightarrow> [(n, s)] | Inl _ \<Rightarrow> []) ns)"

definition absent :: "Expander \<Rightarrow> SetRef list \<Rightarrow> SetRef list" where
  "absent e ns = filter (\<lambda>n. fetchOne e n = Inl ErrNotFoundR) ns"

definition answered :: "Expander \<Rightarrow> SetRef \<Rightarrow> bool" where
  "answered e n \<longleftrightarrow> fetchOne e n = Inl ErrNotFoundR \<or> \<not> isl (fetchOne e n)"

lemma fetched_simps [simp]:
  "fetched e [] = []" "fetched e (n # ns) = (case fetchOne e n of Inr s \<Rightarrow> [(n, s)] | Inl _ \<Rightarrow> []) @ fetched e ns"
  "fetched e (xs @ ys) = fetched e xs @ fetched e ys"
  by (simp_all add: fetched_def)

lemma absent_simps [simp]:
  "absent e [] = []" "absent e (n # ns) = (if fetchOne e n = Inl ErrNotFoundR then n # absent e ns else absent e ns)"
  "absent e (xs @ ys) = absent e xs @ absent e ys"
  by (simp_all add: absent_def)

lemma visit_level_exact:
  "visit_level e start anyLeaf depth ns v nodes missing = Inr (v', nodes', missing') \<Longrightarrow> level_inv S v \<Longrightarrow>
     level_inv S v' \<and> set (vSeen v') = set (vSeen v) \<union> (\<Union>n\<in>set ns. succs e n) \<and>
     (set (vSeen v') = set (vSeen v) \<or> depth < maxDepth e) \<and>
     nodes' = nodes @ fetched e ns \<and> missing' = missing @ absent e ns \<and>
     list_all (answered e) ns \<and> (depth = 0 \<longrightarrow> list_all (\<lambda>n. \<not> isl (fetchOne e n)) ns)"
proof (induction ns arbitrary: v nodes missing)
  case (Cons n ns)
  show ?case
  proof (cases "fetchOne e n")
    case (Inl err)
    then have g: "visit_level e start anyLeaf depth ns v nodes (missing @ [n]) = Inr (v', nodes', missing')" "err = ErrNotFoundR" "depth \<noteq> 0"
      using Cons.prems(1) by (auto split: if_splits)
    have "succs e n = {}" using Inl by (auto simp: succs_def)
    then have "(\<Union>m\<in>set (n # ns). succs e m) = (\<Union>m\<in>set ns. succs e m)" by simp
    then show ?thesis using Cons.IH [OF g(1) Cons.prems(2)] Inl g(2,3) by (auto simp: answered_def)
  next
    case (Inr s)
    then obtain v1 where v1: "visit_refs e start anyLeaf depth (nestedRefs s) v = Inr v1"
      "visit_level e start anyLeaf depth ns v1 (nodes @ [(n, s)]) missing = Inr (v', nodes', missing')"
      using Cons.prems(1) by (auto split: sum.splits)
    have su: "succs e n = {r \<in> set (nestedRefs s). \<not> excluded_set e (ref_name r)}" using Inr by (auto simp: succs_def)
    note a = visit_refs_exact [OF v1(1) Cons.prems(2)]
    show ?thesis using Cons.IH [OF v1(2)] a Inr by (auto simp: su answered_def)
  qed
qed auto

subsection \<open>The loop\<close>

text \<open>The invariant of the loop: the sets of the levels before are \<open>past\<close>.\<close>

definition loop_inv :: "Expander \<Rightarrow> SetRef \<Rightarrow> nat \<Rightarrow> SetRef list \<Rightarrow> SetRef list \<Rightarrow> SetRef list \<Rightarrow> bool" where
  "loop_inv e start depth level seen past \<longleftrightarrow>
     set seen = within e start depth \<and> distinct seen \<and> set (past @ level) = set seen \<and> distinct (past @ level) \<and>
     (\<Union>n\<in>set past. succs e n) \<subseteq> set seen \<and> list_all (answered e) past \<and>
     list_all (\<lambda>r. \<not> IsAny (ref_name r)) seen \<and>
     (if depth = 0 then past = [] \<and> level = [start] else \<not> isl (fetchOne e start)) \<and>
     set seen \<subseteq> within e start (maxDepth e) \<and> length seen \<le> maxVisited e"

text \<open>What a finished discovery has found, in the order \<open>past\<close>.\<close>

definition discovered :: "Expander \<Rightarrow> SetRef \<Rightarrow> SetRef list \<Rightarrow> bool" where
  "discovered e start past \<longleftrightarrow>
     set past = reachable e start \<and> distinct past \<and> list_all (answered e) past \<and>
     list_all (\<lambda>r. \<not> IsAny (ref_name r)) past \<and> \<not> isl (fetchOne e start) \<and>
     set past \<subseteq> within e start (maxDepth e) \<and> length past \<le> maxVisited e"

lemma start_inv: "distinct seen \<Longrightarrow> level_inv (set seen) (start_visit seen)"
  by (simp add: level_inv_def start_visit_def)

lemma loop_end:
  assumes "loop_inv e start depth [] seen past"
  shows "discovered e start past \<and> length seen = length past"
proof -
  have s: "set seen = set past" "distinct past" "distinct seen" using assms by (auto simp: loop_inv_def)
  have "set seen = within e start depth" "(\<Union>n\<in>set past. succs e n) \<subseteq> set seen"
    using assms unfolding loop_inv_def by blast+
  then have c: "(\<Union>n\<in>set past. succs e n) \<subseteq> set past" "start \<in> set past"
    using s(1) start_within [of start e depth] by blast+
  have "reachable e start \<subseteq> set past" by (rule reachable_least [OF c(2)]) (use c(1) in blast)
  moreover have "set past \<subseteq> reachable e start"
    using assms s(1) within_reachable [of e start depth] by (auto simp: loop_inv_def)
  moreover have "length seen = length past" using s by (metis distinct_card)
  ultimately show ?thesis using assms s(1) by (auto simp: loop_inv_def discovered_def list_all_iff split: if_splits)
qed

lemma loop_step:
  assumes "loop_inv e start depth level seen past" "level \<noteq> []"
    "visit_level e start anyLeaf depth level (start_visit seen) nodes missing = Inr (v, nodes', missing')" "vAnyRef v = None"
  shows "loop_inv e start (depth + 1) (vNext v) (vSeen v) (past @ level)"
proof -
  have d: "distinct seen" and w: "set seen = within e start depth" and pl: "set (past @ level) = set seen"
    using assms(1) by (auto simp: loop_inv_def)
  note x = visit_level_exact [OF assms(3) start_inv [OF d]] and c = visit_level_counts [OF assms(3)]
  have lv: "level_inv (set seen) v" and vs: "set (vSeen v) = set seen \<union> (\<Union>n\<in>set level. succs e n)"
    using x by (auto simp: start_visit_def)
  have n: "set (vNext v) = set (vSeen v) - set seen" "distinct (vNext v)" "distinct (vSeen v)"
    "list_all (\<lambda>r. \<not> IsAny (ref_name r)) (vNext v)"
    using lv assms(4) by (auto simp: level_inv_def)
  have P: "(\<Union>n\<in>set past. succs e n) \<subseteq> set seen" using assms(1) unfolding loop_inv_def by blast
  have "within e start (Suc depth) = set seen \<union> (\<Union>n\<in>set (past @ level). succs e n)" using w pl by simp
  then have W: "set (vSeen v) = within e start (Suc depth)" using vs P by auto
  have "length (vSeen v) \<le> maxVisited e" using c assms(1) by (auto simp: loop_inv_def start_visit_def)
  moreover have "set (vSeen v) \<subseteq> within e start (maxDepth e)"
  proof (cases "set (vSeen v) = set seen")
    case True
    then show ?thesis using assms(1) unfolding loop_inv_def by blast
  next
    case False
    then have "Suc depth \<le> maxDepth e" using x by (auto simp: start_visit_def)
    then show ?thesis using W within_mono by blast
  qed
  moreover have "\<not> isl (fetchOne e start)" using assms(1) x by (auto simp: loop_inv_def split: if_splits)
  moreover have "list_all (\<lambda>r. \<not> IsAny (ref_name r)) (vSeen v)"
    using n assms(1) by (auto simp: list_all_iff loop_inv_def)
  moreover have "set (past @ level @ vNext v) = set (vSeen v)" "distinct (past @ level @ vNext v)"
    using n pl vs assms(1) by (auto simp: loop_inv_def)
  moreover have "(\<Union>n\<in>set (past @ level). succs e n) \<subseteq> set (vSeen v)" using P vs by auto
  moreover have "list_all (answered e) (past @ level)" using assms(1) x by (simp add: loop_inv_def)
  ultimately show ?thesis using n W by (simp add: loop_inv_def)
qed

lemma discover_loop_sound:
  assumes "discover_loop e start False depth level seen nodes missing = Inr (nodes', missing', anys, seen')"
    "loop_inv e start depth level seen past" "nodes = fetched e past" "missing = absent e past"
  shows "\<exists>past'. discovered e start past' \<and> nodes' = fetched e past' \<and> missing' = absent e past' \<and> anys = [] \<and> length seen' = length past'"
  using assms
proof (induction e start "False" depth level seen nodes missing arbitrary: past rule: discover_loop.induct)
  case (1 e start depth level seen nodes missing)
  show ?case
  proof (cases "level = []")
    case True
    then show ?thesis using 1(2-5) loop_end by (fastforce simp: discover_loop.simps [of e start False depth "[]"])
  next
    case False
    then obtain v n1 m1 where v: "visit_level e start False depth level (start_visit seen) nodes missing = Inr (v, n1, m1)" "vAnyRef v = None"
      "discover_loop e start False (depth + 1) (vNext v) (vSeen v) n1 m1 = Inr (nodes', missing', anys, seen')"
      using 1(2) unfolding discover_loop.simps [of e start False depth level] by (auto split: sum.splits option.splits prod.splits)
    have d: "distinct seen" using 1(3) by (simp add: loop_inv_def)
    note x = visit_level_exact [OF v(1) start_inv [OF d]]
    show ?thesis
      using 1(1) [OF False v(1) refl refl v(2,3) loop_step [OF 1(3) False v(1,2)]] x 1(4,5) by simp
  qed
qed

lemma limit_pos: "0 < d \<Longrightarrow> 0 < limit v d"
  by (auto simp: limit_def)

lemma visited_pos: "0 < maxVisited e"
  by (simp add: maxVisited_def limit_pos)

lemma loop_start: "\<not> IsAny (ref_name start) \<Longrightarrow> loop_inv e start 0 [start] [start] []"
  using visited_pos [of e] by (simp add: loop_inv_def Suc_le_eq)

subsection \<open>When discovery succeeds\<close>

definition explorable :: "Expander \<Rightarrow> SetRef \<Rightarrow> bool" where
  "explorable e start \<longleftrightarrow>
     reachable e start \<subseteq> within e start (maxDepth e) \<and> finite (reachable e start) \<and> card (reachable e start) \<le> maxVisited e \<and>
     (\<forall>n\<in>reachable e start. \<not> IsAny (ref_name n) \<and> answered e n) \<and> \<not> isl (fetchOne e start)"

lemma discovered_explorable: "discovered e start past \<Longrightarrow> explorable e start"
  by (auto simp: discovered_def explorable_def list_all_iff distinct_card [symmetric] intro: finite_subset)

lemma visit_refs_total:
  assumes "explorable e start" "{r \<in> set refs. \<not> excluded_set e (ref_name r)} \<subseteq> reachable e start"
    "set (vSeen v) \<subseteq> reachable e start" "within e start depth \<subseteq> set (vSeen v)" "distinct (vSeen v)"
  shows "\<not> isl (visit_refs e start anyLeaf depth refs v)"
  using assms(2-)
proof (induction refs arbitrary: v)
  case (Cons r refs)
  show ?case
  proof (cases "r \<in> set (vSeen v) \<or> excluded_set e (ref_name r)")
    case True
    then show ?thesis using Cons by auto
  next
    case False
    then have r: "r \<in> reachable e start" using Cons.prems(1) by auto
    have "\<not> maxDepth e \<le> depth"
      using within_mono [of "maxDepth e" depth e start] assms(1) r False Cons.prems(3) by (auto simp: explorable_def)
    moreover have "length (vSeen v) < maxVisited e"
    proof -
      have "card (set (vSeen v)) < card (reachable e start)"
        using r False Cons.prems(2) assms(1) by (intro psubset_card_mono) (auto simp: explorable_def)
      then show ?thesis using Cons.prems(4) assms(1) by (simp add: distinct_card explorable_def)
    qed
    ultimately show ?thesis using False r Cons.prems Cons.IH [of "note_ref anyLeaf r v"] by auto
  qed
qed simp

lemma visit_level_total:
  assumes "explorable e start" "set ns \<subseteq> reachable e start" "level_inv S v"
    "set (vSeen v) \<subseteq> reachable e start" "within e start depth \<subseteq> set (vSeen v)" "depth = 0 \<longrightarrow> set ns \<subseteq> {start}"
  shows "\<not> isl (visit_level e start anyLeaf depth ns v nodes missing)"
  using assms(2-)
proof (induction ns arbitrary: v nodes missing)
  case (Cons n ns)
  have a: "answered e n" using assms(1) Cons.prems(1) by (auto simp: explorable_def)
  show ?case
  proof (cases "fetchOne e n")
    case (Inl err)
    then have "err = ErrNotFoundR" "depth \<noteq> 0" using a Cons.prems(5) assms(1) by (auto simp: answered_def explorable_def)
    then show ?thesis using Inl Cons by simp
  next
    case (Inr s)
    have su: "{r \<in> set (nestedRefs s). \<not> excluded_set e (ref_name r)} \<subseteq> reachable e start"
      using Inr Cons.prems(1) reachable_step [of n e start] by (auto simp: succs_def)
    have d: "distinct (vSeen v)" using Cons.prems(2) by (simp add: level_inv_def)
    obtain v1 where v1: "visit_refs e start anyLeaf depth (nestedRefs s) v = Inr v1"
      using visit_refs_total [OF assms(1) su Cons.prems(3,4) d, of anyLeaf] by (auto simp: isl_def split: sum.splits) (metis sum.exhaust)
    note x = visit_refs_exact [OF v1 Cons.prems(2)]
    have "within e start depth \<subseteq> set (vSeen v1)" "set (vSeen v1) \<subseteq> reachable e start"
      using x su Cons.prems(3,4) by blast+
    then show ?thesis using Cons.IH [of v1 "nodes @ [(n, s)]" missing] x Cons.prems Inr v1 by simp
  qed
qed simp

lemma discover_loop_total:
  assumes "explorable e start" "loop_inv e start depth level seen past"
  shows "\<not> isl (discover_loop e start False depth level seen nodes missing)"
  using assms
proof (induction e start "False" depth level seen nodes missing arbitrary: past rule: discover_loop.induct)
  case (1 e start depth level seen nodes missing)
  show ?case
  proof (cases "level = []")
    case True
    then show ?thesis by (simp add: discover_loop.simps)
  next
    case False
    have i: "distinct seen" "set seen = within e start depth" "set level \<subseteq> set seen" "depth = 0 \<longrightarrow> set level \<subseteq> {start}"
      using 1(3) by (auto simp: loop_inv_def)
    have r: "set seen \<subseteq> reachable e start" using i(2) within_reachable by blast
    have "\<not> isl (visit_level e start False depth level (start_visit seen) nodes missing)"
      using i r by (intro visit_level_total [OF 1(2) _ start_inv]) (auto simp: start_visit_def)
    then obtain v n1 m1 where v: "visit_level e start False depth level (start_visit seen) nodes missing = Inr (v, n1, m1)"
      by (cases "visit_level e start False depth level (start_visit seen) nodes missing") auto
    note x = visit_level_exact [OF v start_inv [OF i(1)]]
    have "set (vSeen v) \<subseteq> reachable e start"
      using x r i(3) reachable_step by (fastforce simp: start_visit_def)
    moreover have "level_inv (set seen) v" using x by blast
    ultimately have "vAnyRef v = None" using 1(2) unfolding level_inv_def explorable_def by (cases "vAnyRef v") auto
    then show ?thesis
      using 1(1) [OF False v refl refl \<open>vAnyRef v = None\<close> 1(2) loop_step [OF 1(3) False v]] False v by (subst discover_loop.simps) simp
  qed
qed

lemma discover_loop_exact:
  assumes "\<not> IsAny (ref_name start)"
  shows "\<not> isl (discover_loop e start False 0 [start] [start] [] []) \<longleftrightarrow> explorable e start"
proof
  assume "explorable e start"
  then show "\<not> isl (discover_loop e start False 0 [start] [start] [] [])" using discover_loop_total loop_start [OF assms] by blast
next
  assume "\<not> isl (discover_loop e start False 0 [start] [start] [] [])"
  then obtain a b c d where "discover_loop e start False 0 [start] [start] [] [] = Inr (a, b, c, d)"
    by (cases "discover_loop e start False 0 [start] [start] [] []") auto
  from discover_loop_sound [OF this loop_start [OF assms]] show "explorable e start"
    using discovered_explorable by auto
qed

end
