(* ===== verification/Resolve_Expand.thy ===== *)
theory Resolve_Expand
  imports Resolve_Discover Range_Enum
begin

text \<open>
  Expansion (\<^verbatim>\<open>src/resolve/expander.go\<close>, \<^verbatim>\<open>expand_more.go\<close>, \<^verbatim>\<open>result.go\<close>): AS numbers, routers and peerings of the sets a
  discovery found, and the prefix ranges of the walk over (set, operators) states.  A map used as a set is a
  list without repetition.
\<close>

subsection \<open>Results\<close>

record ASNSet =
  asM :: "asn list"
  asMissing :: "SetRef list"
  asAny :: bool

definition NewAnyASNSet :: ASNSet where
  "NewAnyASNSet = \<lparr>asM = [], asMissing = [], asAny = True\<rparr>"

definition newASSet :: ASNSet where
  "newASSet = \<lparr>asM = [], asMissing = [], asAny = False\<rparr>"

definition add_key :: "'a \<Rightarrow> 'a list \<Rightarrow> 'a list" where
  "add_key x xs = (if x \<in> set xs then xs else xs @ [x])"

definition asnset_add :: "ASNSet \<Rightarrow> asn \<Rightarrow> ASNSet" where
  "asnset_add s a = s\<lparr>asM := add_key a (asM s)\<rparr>"

definition NewASNSet :: "asn list \<Rightarrow> ASNSet" where
  "NewASNSet asns = foldl asnset_add newASSet asns"

definition asnset_Has :: "ASNSet \<Rightarrow> asn \<Rightarrow> bool" where
  "asnset_Has s a \<longleftrightarrow> (if asAny s then True else a \<in> set (asM s))"

definition asnset_List :: "ASNSet \<Rightarrow> asn list" where
  "asnset_List s = SliceStable (<) (asM s)"

record RangeSet =
  rsM :: "PrefixRange list"
  rsMissing :: "SetRef list"

definition range_less :: "PrefixRange \<Rightarrow> PrefixRange \<Rightarrow> bool" where
  "range_less a b =
     (let c = addr_Compare (Addr (rprefix a)) (Addr (rprefix b)) in
      if c \<noteq> 0 then c < 0
      else if Bits (rprefix a) \<noteq> Bits (rprefix b) then Bits (rprefix a) < Bits (rprefix b)
      else if Lo a \<noteq> Lo b then Lo a < Lo b
      else Hi a < Hi b)"

definition rangeset_List :: "RangeSet \<Rightarrow> PrefixRange list" where
  "rangeset_List s = SliceStable range_less (rsM s)"

record PrefixSet =
  psM :: "prefix list"
  psMissing :: "SetRef list"

record Routers =
  rtM :: "RouterID list"
  rtMissing :: "SetRef list"

record Peerings =
  peList :: "Peering list"
  peMissing :: "SetRef list"

subsection \<open>AS numbers, routers and peerings\<close>

fun claim_ases :: "Expander \<Rightarrow> iface list \<Rightarrow> asn list" where
  "claim_ases e [] = []"
| "claim_ases e (Ptr (OAutNum t) # cs) = (if excluded_as e (anAS t) then claim_ases e cs else anAS t # claim_ases e cs)"
| "claim_ases e (_ # cs) = claim_ases e cs"

text \<open>The AS numbers of a node: its members, then its claims.\<close>

definition node_ases :: "Expander \<Rightarrow> setNode \<Rightarrow> asn list" where
  "node_ases e nd =
     map mAS (filter (\<lambda>m. mKind m = MemberAS \<and> \<not> excluded_as e (mAS m)) (members (ndSet nd))) @ claim_ases e (ndClaims nd)"

definition expandAS :: "Expander \<Rightarrow> SetRef \<Rightarrow> bool \<Rightarrow> resolve_error + ASNSet \<times> nat" where
  "expandAS e ref anyLeaf =
     (if set_class (ref_name ref) \<noteq> ClassAsSet then Inl ErrSetClass
      else case discover e ref anyLeaf of
             Inl err \<Rightarrow> Inl err
           | Inr g \<Rightarrow>
               if gAny g \<noteq> [] then Inr (NewAnyASNSet, gReached g)
               else Inr ((foldl asnset_add newASSet (concat (map (\<lambda>(n, nd). node_ases e nd) (gNodes g))))\<lparr>asMissing := gMissing g\<rparr>,
                         gReached g))"

text \<open>\<^verbatim>\<open>ExpandAS\<close> without a memo.\<close>

definition ExpandAS :: "Expander \<Rightarrow> SetRef \<Rightarrow> resolve_error + ASNSet" where
  "ExpandAS e ref = map_sum id fst (expandAS e ref False)"

definition ordered :: "setGraph \<Rightarrow> (SetRef \<times> setNode) list" where
  "ordered g =
     filter (\<lambda>nd. fst nd = gTop g) (gNodes g) @
     SliceStable (\<lambda>a b. bytes_less (ref_String (fst a)) (ref_String (fst b))) (filter (\<lambda>nd. fst nd \<noteq> gTop g) (gNodes g))"

fun claim_routers :: "iface list \<Rightarrow> RouterID list" where
  "claim_routers [] = []"
| "claim_routers (Ptr (OInetRtr t) # cs) = (case ParseRouterID (irName t) of Some r \<Rightarrow> r # claim_routers cs | None \<Rightarrow> claim_routers cs)"
| "claim_routers (_ # cs) = claim_routers cs"

fun node_routers :: "setNode \<Rightarrow> RouterID list" where
  "node_routers nd =
     (case ndSet nd of
        (RtrSet, s) \<Rightarrow> map rmRouter (filter (\<lambda>m. rmKind m = RtrMemberRouter) (SetRouters s)) @ claim_routers (ndClaims nd)
      | _ \<Rightarrow> [])"

definition ExpandRouters :: "Expander \<Rightarrow> SetRef \<Rightarrow> resolve_error + Routers" where
  "ExpandRouters e ref =
     (if set_class (ref_name ref) \<noteq> ClassRtrSet then Inl ErrSetClass
      else case discover e ref False of
             Inl err \<Rightarrow> Inl err
           | Inr g \<Rightarrow>
               Inr \<lparr>rtM = foldl (\<lambda>out r. if router_IsZero r then out else add_key r out) []
                           (concat (map (\<lambda>(n, nd). node_routers nd) (gNodes g))),
                    rtMissing = gMissing g\<rparr>)"

fun peeringText :: "Peering \<Rightarrow> string" where
  "peeringText (PeeringSetRef n) = set_canon n"
| "peeringText (PeeringSpec t) = t"

fun add_peering :: "Peering list \<Rightarrow> Peering \<Rightarrow> Peering list" where
  "add_peering out p = (if peeringText p \<in> set (map peeringText out) then out else out @ [p])"

fun node_peerings :: "setNode \<Rightarrow> Peering list" where
  "node_peerings nd =
     (case ndSet nd of
        (PeeringSet, s) \<Rightarrow> filter (\<lambda>p. case p of PeeringSetRef _ \<Rightarrow> False | PeeringSpec _ \<Rightarrow> True) (SetPeerings s)
      | _ \<Rightarrow> [])"

definition ExpandPeerings :: "Expander \<Rightarrow> SetRef \<Rightarrow> resolve_error + Peerings" where
  "ExpandPeerings e ref =
     (if set_class (ref_name ref) \<noteq> ClassPeeringSet then Inl ErrSetClass
      else case discover e ref False of
             Inl err \<Rightarrow> Inl err
           | Inr g \<Rightarrow>
               Inr \<lparr>peList = foldl add_peering [] (concat (map (\<lambda>(n, nd). node_peerings nd) (ordered g))), peMissing = gMissing g\<rparr>)"

subsection \<open>Routes\<close>

type_synonym routes = "(asn \<times> prefix list) list"

fun fetch_each :: "Expander \<Rightarrow> asn list \<Rightarrow> resolve_error + routes" where
  "fetch_each e [] = Inr []"
| "fetch_each e (a # as) =
     (case OriginatedRoutes (Src e) a (expAFI e) of
        Inl SrcNotFound \<Rightarrow> Inl ErrNotFoundR
      | Inl (SrcError m) \<Rightarrow> Inl (SourceFault m)
      | Inr ps \<Rightarrow> (case fetch_each e as of Inl err \<Rightarrow> Inl err | Inr rs \<Rightarrow> Inr ((a, ps) # rs)))"

definition fetchRoutes :: "Expander \<Rightarrow> setGraph \<Rightarrow> resolve_error + routes" where
  "fetchRoutes e g = fetch_each e (foldl (\<lambda>need a. add_key a need) [] (concat (map (\<lambda>(n, nd). node_ases e nd) (ordered g))))"

definition routes_of :: "routes \<Rightarrow> asn \<Rightarrow> prefix list" where
  "routes_of rs a = (case map_of rs a of None \<Rightarrow> [] | Some ps \<Rightarrow> ps)"

subsection \<open>Evaluation\<close>

record evaluator =
  evOut :: "PrefixRange list"
  evDone :: "(SetRef \<times> opStack) list"
  evVisits :: nat

text \<open>What an evaluation does not change: the expander, the graph, its routes and the cap on ranges.\<close>

record evalEnv =
  envE :: Expander
  envG :: setGraph
  envRoutes :: routes
  envMax :: nat

definition eval_add :: "evalEnv \<Rightarrow> opStack \<Rightarrow> PrefixRange \<Rightarrow> evaluator \<Rightarrow> resolve_error + evaluator" where
  "eval_add env ops r v =
     (case stack_apply ops r of
        None \<Rightarrow> Inr v
      | Some r' \<Rightarrow>
          if \<not> afiAllows (envE env) (rprefix r') then Inr v
          else let out = add_key r' (evOut v) in
            if length out > envMax env then Inl (SetTooLarge (gTop (envG env)) LimitPrefixes (envMax env) (length out))
            else Inr (v\<lparr>evOut := out\<rparr>))"

definition exact_range :: "prefix \<Rightarrow> PrefixRange" where
  "exact_range p =
     (let p = Masked p in case NewPrefixRange p (Bits p) (Bits p) of Some r \<Rightarrow> r | None \<Rightarrow> zeroRange)"

fun addRoutes :: "evalEnv \<Rightarrow> opStack \<Rightarrow> prefix list \<Rightarrow> evaluator \<Rightarrow> resolve_error + evaluator" where
  "addRoutes env ops [] v = Inr v"
| "addRoutes env ops (p # ps) v =
     (if \<not> prefix_isValid p then addRoutes env ops ps v
      else case eval_add env ops (exact_range p) v of
             Inl err \<Rightarrow> Inl err
           | Inr v' \<Rightarrow> addRoutes env ops ps v')"

text \<open>One member, with the walk of a nested set as a parameter.  A walk that runs out of fuel is \<open>None\<close>.\<close>

type_synonym walker = "SetRef \<Rightarrow> opStack \<Rightarrow> evaluator \<Rightarrow> (resolve_error + evaluator) option"

definition walk_member :: "walker \<Rightarrow> evalEnv \<Rightarrow> SetRef \<Rightarrow> opStack \<Rightarrow> SetMember \<Rightarrow> evaluator \<Rightarrow> (resolve_error + evaluator) option" where
  "walk_member w env ref ops m v =
     (case mKind m of
        MemberPrefixRange \<Rightarrow> Some (eval_add env ops (mRange m) v)
      | MemberAS \<Rightarrow> Some (addRoutes env (stack_push ops (mOp m)) (routes_of (envRoutes env) (mAS m)) v)
      | MemberSet \<Rightarrow>
          if \<not> nestable (set_class (ref_name ref)) (set_class (mSet m)) then Some (Inr v)
          else if excluded_set (envE env) (mSet m) then Some (Inr v)
          else let child = member_Ref m in
            if map_of (gNodes (envG env)) child = None then Some (Inr v)
            else let nxt = stack_push ops (mOp m) in
              if (child, nxt) \<in> set (evDone v) then Some (Inr v) else w child nxt v
      | MemberInvalid \<Rightarrow> Some (Inr v))"

fun walk_members :: "walker \<Rightarrow> evalEnv \<Rightarrow> SetRef \<Rightarrow> opStack \<Rightarrow> SetMember list \<Rightarrow> evaluator \<Rightarrow> (resolve_error + evaluator) option" where
  "walk_members w env ref ops [] v = Some (Inr v)"
| "walk_members w env ref ops (m # ms) v =
     (case walk_member w env ref ops m v of
        Some (Inr v') \<Rightarrow> walk_members w env ref ops ms v'
      | r \<Rightarrow> r)"

fun claim_prefixes :: "evalEnv \<Rightarrow> iface \<Rightarrow> prefix list" where
  "claim_prefixes env (Ptr (ORoute t)) = [rPrefix t]"
| "claim_prefixes env (Ptr (ORoute6 t)) = [rPrefix t]"
| "claim_prefixes env (Ptr (OAutNum t)) = routes_of (envRoutes env) (anAS t)"
| "claim_prefixes env _ = []"

fun walk_claims :: "evalEnv \<Rightarrow> opStack \<Rightarrow> iface list \<Rightarrow> evaluator \<Rightarrow> resolve_error + evaluator" where
  "walk_claims env ops [] v = Inr v"
| "walk_claims env ops (c # cs) v =
     (case addRoutes env ops (claim_prefixes env c) v of
        Inl err \<Rightarrow> Inl err
      | Inr v' \<Rightarrow> walk_claims env ops cs v')"

text \<open>A set that is not a node of the graph is never walked.\<close>

fun walk :: "nat \<Rightarrow> evalEnv \<Rightarrow> walker" where
  "walk 0 env ref ops v = None"
| "walk (Suc fuel) env ref ops v =
     (let v = v\<lparr>evDone := (ref, ops) # evDone v, evVisits := evVisits v + 1\<rparr> in
      if evVisits v > maxVisited (envE env)
      then Some (Inl (SetTooLarge (gTop (envG env)) LimitVisited (maxVisited (envE env)) (evVisits v)))
      else case map_of (gNodes (envG env)) ref of
             None \<Rightarrow> Some (Inr v)
           | Some nd \<Rightarrow>
               (case walk_members (walk fuel env) env ref ops (members (ndSet nd)) v of
                  Some (Inr v') \<Rightarrow> Some (walk_claims env ops (ndClaims nd) v')
                | r \<Rightarrow> r))"

definition start_eval :: evaluator where
  "start_eval = \<lparr>evOut = [], evDone = [], evVisits = 0\<rparr>"

text \<open>Every walk is a visit, so one unit of fuel more than the visits allowed is enough.\<close>

definition expandRanges :: "Expander \<Rightarrow> SetRef \<Rightarrow> nat \<Rightarrow> (resolve_error + RangeSet \<times> nat) option" where
  "expandRanges e ref maxRanges =
     (if set_class (ref_name ref) \<noteq> ClassAsSet \<and> set_class (ref_name ref) \<noteq> ClassRouteSet then Some (Inl ErrSetClass)
      else case discover e ref False of
             Inl err \<Rightarrow> Some (Inl err)
           | Inr g \<Rightarrow>
               (case fetchRoutes e g of
                  Inl err \<Rightarrow> Some (Inl err)
                | Inr rs \<Rightarrow>
                    (case walk (maxVisited e + 1) \<lparr>envE = e, envG = g, envRoutes = rs, envMax = maxRanges\<rparr> ref zeroStack start_eval of
                       None \<Rightarrow> None
                     | Some (Inl err) \<Rightarrow> Some (Inl err)
                     | Some (Inr v) \<Rightarrow> Some (Inr (\<lparr>rsM = evOut v, rsMissing = gMissing g\<rparr>, gReached g)))))"

definition ExpandPrefixRanges :: "Expander \<Rightarrow> SetRef \<Rightarrow> (resolve_error + RangeSet) option" where
  "ExpandPrefixRanges e ref = map_option (map_sum id fst) (expandRanges e ref (maxPrefixes e))"

text \<open>The prefixes of the ranges in turn, none counted twice, until there are more than the limit.\<close>

fun add_prefixes :: "SetRef \<Rightarrow> nat \<Rightarrow> prefix list \<Rightarrow> prefix list \<Rightarrow> resolve_error + prefix list" where
  "add_prefixes ref mx [] out = Inr out"
| "add_prefixes ref mx (p # ps) out =
     (let out = add_key p out in
      if length out > mx then Inl (SetTooLarge ref LimitPrefixes mx (length out)) else add_prefixes ref mx ps out)"

definition maxInt :: nat where
  "maxInt = 2 ^ 63 - 1"

definition ExpandPrefixes :: "Expander \<Rightarrow> SetRef \<Rightarrow> (resolve_error + PrefixSet) option" where
  "ExpandPrefixes e ref =
     (case expandRanges e ref maxInt of
        None \<Rightarrow> None
      | Some (Inl err) \<Rightarrow> Some (Inl err)
      | Some (Inr (ranges, _)) \<Rightarrow>
          (case add_prefixes ref (maxPrefixes e) (concat (map range_All (rangeset_List ranges))) [] of
             Inl err \<Rightarrow> Some (Inl err)
           | Inr ps \<Rightarrow> Some (Inr \<lparr>psM = ps, psMissing = rsMissing ranges\<rparr>)))"

end
