(* ===== verification/Resolve_Eval.thy ===== *)
theory Resolve_Eval
  imports Resolve_Expand
begin

text \<open>
  What the walk over (set, operators) states collects: the ranges of every state reachable from the first, each
  walked once, in whatever shape the sets refer to each other.
\<close>

subsection \<open>States and what they add\<close>

definition kept :: "evalEnv \<Rightarrow> opStack \<Rightarrow> PrefixRange \<Rightarrow> PrefixRange set" where
  "kept env ops r =
     (case stack_apply ops r of None \<Rightarrow> {} | Some r' \<Rightarrow> if afiAllows (envE env) (rprefix r') then {r'} else {})"

definition route_out :: "evalEnv \<Rightarrow> opStack \<Rightarrow> prefix list \<Rightarrow> PrefixRange set" where
  "route_out env ops ps = (\<Union>p\<in>{p \<in> set ps. prefix_isValid p}. kept env ops (exact_range p))"

definition member_out :: "evalEnv \<Rightarrow> opStack \<Rightarrow> SetMember \<Rightarrow> PrefixRange set" where
  "member_out env ops m =
     (case mKind m of
        MemberPrefixRange \<Rightarrow> kept env ops (mRange m)
      | MemberAS \<Rightarrow> route_out env (stack_push ops (mOp m)) (routes_of (envRoutes env) (mAS m))
      | _ \<Rightarrow> {})"

definition follows :: "evalEnv \<Rightarrow> SetRef \<Rightarrow> SetMember \<Rightarrow> bool" where
  "follows env ref m \<longleftrightarrow>
     mKind m = MemberSet \<and> nestable (set_class (ref_name ref)) (set_class (mSet m)) \<and> \<not> excluded_set (envE env) (mSet m) \<and>
     map_of (gNodes (envG env)) (member_Ref m) \<noteq> None"

definition member_next :: "evalEnv \<Rightarrow> SetRef \<Rightarrow> opStack \<Rightarrow> SetMember \<Rightarrow> (SetRef \<times> opStack) set" where
  "member_next env ref ops m = (if follows env ref m then {(member_Ref m, stack_push ops (mOp m))} else {})"

definition contrib :: "evalEnv \<Rightarrow> SetRef \<times> opStack \<Rightarrow> PrefixRange set" where
  "contrib env x =
     (case map_of (gNodes (envG env)) (fst x) of
        None \<Rightarrow> {}
      | Some nd \<Rightarrow>
          (\<Union>m\<in>set (members (ndSet nd)). member_out env (snd x) m) \<union>
          (\<Union>c\<in>set (ndClaims nd). route_out env (snd x) (claim_prefixes env c)))"

definition nexts :: "evalEnv \<Rightarrow> SetRef \<times> opStack \<Rightarrow> (SetRef \<times> opStack) set" where
  "nexts env x =
     (case map_of (gNodes (envG env)) (fst x) of
        None \<Rightarrow> {}
      | Some nd \<Rightarrow> (\<Union>m\<in>set (members (ndSet nd)). member_next env (fst x) (snd x) m))"

definition steps :: "evalEnv \<Rightarrow> ((SetRef \<times> opStack) \<times> (SetRef \<times> opStack)) set" where
  "steps env = {(x, y). y \<in> nexts env x}"

subsection \<open>Adding ranges\<close>

lemma set_add_key [simp]: "set (add_key x xs) = insert x (set xs)"
  by (auto simp: add_key_def)

lemma distinct_add_key [simp]: "distinct (add_key x xs) = distinct xs"
  by (auto simp: add_key_def)

definition added :: "PrefixRange set \<Rightarrow> evaluator \<Rightarrow> evaluator \<Rightarrow> bool" where
  "added R v v' \<longleftrightarrow>
     set (evOut v') = set (evOut v) \<union> R \<and> evDone v' = evDone v \<and> evVisits v' = evVisits v \<and>
     (distinct (evOut v) \<longrightarrow> distinct (evOut v'))"

lemma added_trans: "added R v v' \<Longrightarrow> added R' v' v'' \<Longrightarrow> added (R \<union> R') v v''"
  by (auto simp: added_def)

lemma added_refl: "added {} v v"
  by (simp add: added_def)

lemma eval_add_added: "eval_add env ops r v = Inr v' \<Longrightarrow> added (kept env ops r) v v'"
  by (auto simp: eval_add_def kept_def added_def Let_def split: option.splits if_splits)

lemma addRoutes_added: "addRoutes env ops ps v = Inr v' \<Longrightarrow> added (route_out env ops ps) v v'"
proof (induction ps arbitrary: v)
  case (Cons p ps)
  show ?case
  proof (cases "prefix_isValid p")
    case True
    then obtain v1 where v1: "eval_add env ops (exact_range p) v = Inr v1" "addRoutes env ops ps v1 = Inr v'"
      using Cons.prems by (auto split: sum.splits)
    have "route_out env ops (p # ps) = kept env ops (exact_range p) \<union> route_out env ops ps"
      using True by (auto simp: route_out_def)
    then show ?thesis using added_trans [OF eval_add_added [OF v1(1)] Cons.IH [OF v1(2)]] by simp
  next
    case False
    then have "route_out env ops (p # ps) = route_out env ops ps" by (auto simp: route_out_def)
    then show ?thesis using Cons False by simp
  qed
qed (simp add: route_out_def added_refl)

lemma walk_claims_added:
  "walk_claims env ops cs v = Inr v' \<Longrightarrow> added (\<Union>c\<in>set cs. route_out env ops (claim_prefixes env c)) v v'"
proof (induction cs arbitrary: v)
  case (Cons c cs)
  then obtain v1 where v1: "addRoutes env ops (claim_prefixes env c) v = Inr v1" "walk_claims env ops cs v1 = Inr v'"
    by (auto split: sum.splits)
  show ?case using added_trans [OF addRoutes_added [OF v1(1)] Cons.IH [OF v1(2)]] by simp
qed (simp add: added_refl)

subsection \<open>The walk\<close>

text \<open>
  From \<open>v\<close> to \<open>v'\<close> the states done have grown; every new one has added its ranges, has its successors done
  and is reachable from the state \<open>x\<close>; nothing else was added but \<open>R\<close>.
\<close>

definition grown :: "evalEnv \<Rightarrow> SetRef \<times> opStack \<Rightarrow> PrefixRange set \<Rightarrow> evaluator \<Rightarrow> evaluator \<Rightarrow> bool" where
  "grown env x R v v' \<longleftrightarrow>
     set (evDone v) \<subseteq> set (evDone v') \<and> set (evOut v) \<subseteq> set (evOut v') \<and> R \<subseteq> set (evOut v') \<and>
     (\<forall>y\<in>set (evDone v') - set (evDone v). contrib env y \<subseteq> set (evOut v') \<and> nexts env y \<subseteq> set (evDone v') \<and> (x, y) \<in> (steps env)\<^sup>*) \<and>
     set (evOut v') \<subseteq> set (evOut v) \<union> R \<union> (\<Union>y\<in>set (evDone v') - set (evDone v). contrib env y) \<and>
     (distinct (evOut v) \<longrightarrow> distinct (evOut v'))"

lemma grown_added: "added R v v' \<Longrightarrow> grown env x R v v'"
  by (auto simp: added_def grown_def)

lemma grownD:
  assumes "grown env x R v v'"
  shows "set (evDone v) \<subseteq> set (evDone v')" "set (evOut v) \<subseteq> set (evOut v')" "R \<subseteq> set (evOut v')"
    "y \<in> set (evDone v') \<Longrightarrow> y \<notin> set (evDone v) \<Longrightarrow> contrib env y \<subseteq> set (evOut v')"
    "y \<in> set (evDone v') \<Longrightarrow> y \<notin> set (evDone v) \<Longrightarrow> nexts env y \<subseteq> set (evDone v')"
    "y \<in> set (evDone v') \<Longrightarrow> y \<notin> set (evDone v) \<Longrightarrow> (x, y) \<in> (steps env)\<^sup>*"
    "r \<in> set (evOut v') \<Longrightarrow> r \<in> set (evOut v) \<or> r \<in> R \<or> (\<exists>y\<in>set (evDone v') - set (evDone v). r \<in> contrib env y)"
    "distinct (evOut v) \<Longrightarrow> distinct (evOut v')"
  using assms unfolding grown_def by blast+

lemma grown_trans:
  assumes "grown env x R v v'" "grown env x R' v' v''"
  shows "grown env x (R \<union> R') v v''"
proof -
  note a = grownD [OF assms(1)] and b = grownD [OF assms(2)]
  have "contrib env y \<subseteq> set (evOut v'') \<and> nexts env y \<subseteq> set (evDone v'') \<and> (x, y) \<in> (steps env)\<^sup>*"
    if "y \<in> set (evDone v'') - set (evDone v)" for y
  proof (cases "y \<in> set (evDone v')")
    case True
    then show ?thesis using that a(4-6) [of y] b(1,2) by blast
  qed (use that b(4-6) [of y] in blast)
  moreover have "r \<in> set (evOut v) \<union> (R \<union> R') \<union> (\<Union>y\<in>set (evDone v'') - set (evDone v). contrib env y)" if "r \<in> set (evOut v'')" for r
    using b(7) [OF that]
  proof (elim disjE)
    assume "r \<in> set (evOut v')"
    from a(7) [OF this] show ?thesis using b(1) by blast
  qed (use a(1) in blast)+
  moreover have "set (evDone v) \<subseteq> set (evDone v'')" "set (evOut v) \<subseteq> set (evOut v'')" "R \<union> R' \<subseteq> set (evOut v'')"
    using a(1-3) b(1-3) by blast+
  ultimately show ?thesis using a(8) b(8) by (simp add: grown_def subset_iff)
qed

definition walker_ok :: "evalEnv \<Rightarrow> walker \<Rightarrow> bool" where
  "walker_ok env w \<longleftrightarrow>
     (\<forall>ref ops v v'. w ref ops v = Some (Inr v') \<longrightarrow> (ref, ops) \<notin> set (evDone v) \<longrightarrow>
        grown env (ref, ops) {} v v' \<and> (ref, ops) \<in> set (evDone v'))"

lemma grown_from:
  assumes "grown env y R v v'" "(x, y) \<in> steps env"
  shows "grown env x R v v'"
  using assms by (auto simp: grown_def intro: converse_rtrancl_into_rtrancl)

lemma walk_member_grown:
  assumes "walker_ok env w" "walk_member w env ref ops m v = Some (Inr v')"
    "map_of (gNodes (envG env)) ref = Some nd" "m \<in> set (members (ndSet nd))"
  shows "grown env (ref, ops) (member_out env ops m) v v' \<and> member_next env ref ops m \<subseteq> set (evDone v')"
proof (cases "mKind m = MemberSet")
  case False
  then show ?thesis
    using assms(2)
    by (cases "mKind m")
      (auto simp: walk_member_def member_out_def member_next_def follows_def
        intro: grown_added eval_add_added addRoutes_added grown_added [OF added_refl])
next
  case True
  let ?y = "(member_Ref m, stack_push ops (mOp m))"
  have o: "member_out env ops m = {}" using True by (simp add: member_out_def)
  show ?thesis
  proof (cases "follows env ref m \<and> ?y \<notin> set (evDone v)")
    case y: True
    then have "w (member_Ref m) (stack_push ops (mOp m)) v = Some (Inr v')"
      using assms(2) True by (auto simp: walk_member_def follows_def split: if_splits)
    then have g: "grown env ?y {} v v'" "?y \<in> set (evDone v')" using assms(1) y by (auto simp: walker_ok_def)
    have "((ref, ops), ?y) \<in> steps env"
      using assms(3,4) y by (auto simp: steps_def nexts_def member_next_def)
    then show ?thesis using grown_from [OF g(1)] g(2) o y by (simp add: member_next_def)
  next
    case n: False
    then have "v' = v" using assms(2) True by (auto simp: walk_member_def follows_def Let_def split: if_splits)
    then show ?thesis using n o by (auto simp: member_next_def grown_added [OF added_refl])
  qed
qed

lemma walk_members_grown:
  assumes "walker_ok env w" "map_of (gNodes (envG env)) ref = Some nd" "set ms \<subseteq> set (members (ndSet nd))"
    "walk_members w env ref ops ms v = Some (Inr v')"
  shows "grown env (ref, ops) (\<Union>m\<in>set ms. member_out env ops m) v v' \<and> (\<Union>m\<in>set ms. member_next env ref ops m) \<subseteq> set (evDone v')"
  using assms(3,4)
proof (induction ms arbitrary: v)
  case (Cons m ms)
  then obtain v1 where v1: "walk_member w env ref ops m v = Some (Inr v1)" "walk_members w env ref ops ms v1 = Some (Inr v')"
    by (auto split: option.splits sum.splits)
  have in_nd: "m \<in> set (members (ndSet nd))" "set ms \<subseteq> set (members (ndSet nd))" using Cons.prems(1) by auto
  note a = walk_member_grown [OF assms(1) v1(1) assms(2) in_nd(1)] and b = Cons.IH [OF in_nd(2) v1(2)]
  have "set (evDone v1) \<subseteq> set (evDone v')" by (rule grownD(1) [OF conjunct1 [OF b]])
  moreover have "grown env (ref, ops) (\<Union>m\<in>set (m # ms). member_out env ops m) v v'"
    using grown_trans [OF conjunct1 [OF a] conjunct1 [OF b]] by simp
  ultimately show ?case using a b by auto
qed (simp add: grown_added [OF added_refl])

lemma walk_ok: "walker_ok env (walk fuel env)"
proof (induction fuel)
  case 0
  then show ?case by (simp add: walker_ok_def)
next
  case (Suc fuel)
  have "grown env (ref, ops) {} v v' \<and> (ref, ops) \<in> set (evDone v')"
    if w: "walk (Suc fuel) env ref ops v = Some (Inr v')" and n: "(ref, ops) \<notin> set (evDone v)" for ref ops v v'
  proof -
    let ?x = "(ref, ops)" and ?v = "v\<lparr>evDone := (ref, ops) # evDone v, evVisits := evVisits v + 1\<rparr>"
    have "\<exists>R. grown env ?x R ?v v' \<and> R = contrib env ?x \<and> nexts env ?x \<subseteq> set (evDone v')"
    proof (cases "map_of (gNodes (envG env)) ref")
      case None
      then have "v' = ?v" using w by (auto simp: Let_def split: if_splits)
      then show ?thesis using None grown_added [OF added_refl] by (auto simp: contrib_def nexts_def)
    next
      case (Some nd)
      then obtain v1 where v1: "walk_members (walk fuel env) env ref ops (members (ndSet nd)) ?v = Some (Inr v1)"
        "walk_claims env ops (ndClaims nd) v1 = Inr v'"
        using w by (auto simp: Let_def split: if_splits option.splits sum.splits)
      note a = walk_members_grown [OF Suc.IH Some order_refl v1(1)] and b = walk_claims_added [OF v1(2)]
      have "set (evDone v') = set (evDone v1)" using b by (simp add: added_def)
      then show ?thesis using grown_trans [OF conjunct1 [OF a] grown_added [OF b]] a Some by (auto simp: contrib_def nexts_def)
    qed
    then have g: "grown env ?x (contrib env ?x) ?v v'" "nexts env ?x \<subseteq> set (evDone v')" by auto
    have d: "set (evDone v') - set (evDone v) = insert ?x (set (evDone v') - set (evDone ?v))"
      using g n by (auto simp: grown_def)
    show ?thesis using g unfolding grown_def d by auto
  qed
  then show ?case by (simp add: walker_ok_def)
qed

text \<open>A walk from nothing collects the ranges of exactly the reachable states.\<close>

lemma walk_collects:
  assumes "walk fuel env ref ops start_eval = Some (Inr v)"
  shows "set (evDone v) = (steps env)\<^sup>* `` {(ref, ops)} \<and> set (evOut v) = (\<Union>y\<in>set (evDone v). contrib env y) \<and> distinct (evOut v)"
proof -
  have g: "grown env (ref, ops) {} start_eval v" "(ref, ops) \<in> set (evDone v)"
    using walk_ok [of env fuel] assms by (auto simp: walker_ok_def start_eval_def)
  have cl: "y \<in> set (evDone v)" if "((ref, ops), y) \<in> (steps env)\<^sup>*" for y
    using that
  proof induction
    case (step y z)
    then show ?case using g(1) by (auto simp: grown_def start_eval_def steps_def)
  qed (rule g(2))
  show ?thesis using g(1) cl by (auto simp: grown_def start_eval_def)
qed

subsection \<open>The walk ends\<close>

text \<open>Visits only grow, stay within the limit, and fuel for those that are left is enough.\<close>

definition walker_ends :: "nat \<Rightarrow> nat \<Rightarrow> walker \<Rightarrow> bool" where
  "walker_ends mx fuel w \<longleftrightarrow>
     (\<forall>ref ops v. evVisits v \<le> mx \<longrightarrow> mx < fuel + evVisits v \<longrightarrow> w ref ops v \<noteq> None) \<and>
     (\<forall>ref ops v v'. evVisits v \<le> mx \<longrightarrow> w ref ops v = Some (Inr v') \<longrightarrow> evVisits v \<le> evVisits v' \<and> evVisits v' \<le> mx)"

lemma walk_member_ends:
  assumes "walker_ends mx fuel w" "evVisits v \<le> mx"
  shows "mx < fuel + evVisits v \<Longrightarrow> walk_member w env ref ops m v \<noteq> None"
    "walk_member w env ref ops m v = Some (Inr v') \<Longrightarrow> evVisits v \<le> evVisits v' \<and> evVisits v' \<le> mx"
proof -
  show "mx < fuel + evVisits v \<Longrightarrow> walk_member w env ref ops m v \<noteq> None"
    using assms by (auto simp: walk_member_def walker_ends_def Let_def split: MemberKind.split)
  show "walk_member w env ref ops m v = Some (Inr v') \<Longrightarrow> evVisits v \<le> evVisits v' \<and> evVisits v' \<le> mx"
    using assms
    by (auto simp: walk_member_def walker_ends_def Let_def added_def split: MemberKind.splits if_splits
        dest!: eval_add_added addRoutes_added)
qed

lemma walk_members_ends:
  assumes "walker_ends mx fuel w"
  shows "evVisits v \<le> mx \<Longrightarrow> mx < fuel + evVisits v \<Longrightarrow> walk_members w env ref ops ms v \<noteq> None"
    "evVisits v \<le> mx \<Longrightarrow> walk_members w env ref ops ms v = Some (Inr v') \<Longrightarrow> evVisits v \<le> evVisits v' \<and> evVisits v' \<le> mx"
proof -
  show "evVisits v \<le> mx \<Longrightarrow> mx < fuel + evVisits v \<Longrightarrow> walk_members w env ref ops ms v \<noteq> None"
  proof (induction ms arbitrary: v)
    case (Cons m ms)
    obtain r where r: "walk_member w env ref ops m v = Some r" using walk_member_ends(1) [OF assms Cons.prems] by blast
    show ?case
    proof (cases r)
      case (Inr v1)
      then show ?thesis using r walk_member_ends(2) [OF assms Cons.prems(1), of env ref ops m v1] Cons by simp
    qed (simp add: r)
  qed simp
  show "evVisits v \<le> mx \<Longrightarrow> walk_members w env ref ops ms v = Some (Inr v') \<Longrightarrow> evVisits v \<le> evVisits v' \<and> evVisits v' \<le> mx"
  proof (induction ms arbitrary: v)
    case (Cons m ms)
    then obtain v1 where v1: "walk_member w env ref ops m v = Some (Inr v1)" "walk_members w env ref ops ms v1 = Some (Inr v')"
      by (auto split: option.splits sum.splits)
    show ?case using walk_member_ends(2) [OF assms Cons.prems(1) v1(1)] Cons.IH [OF _ v1(2)] by simp
  qed simp
qed

lemma walk_ends: "walker_ends (maxVisited (envE env)) fuel (walk fuel env)"
proof (induction fuel)
  case 0
  then show ?case by (simp add: walker_ends_def)
next
  case (Suc fuel)
  note m = walk_members_ends [OF Suc.IH]
  have "walk (Suc fuel) env ref ops v \<noteq> None" if "maxVisited (envE env) < Suc fuel + evVisits v" for ref ops v
  proof (cases "map_of (gNodes (envG env)) ref")
    case (Some nd)
    then show ?thesis
      using that m(1) [of "v\<lparr>evDone := (ref, ops) # evDone v, evVisits := evVisits v + 1\<rparr>" env ref ops "members (ndSet nd)"]
      by (auto simp: Let_def not_less split: option.split sum.split)
  qed (simp add: Let_def)
  moreover have "evVisits v \<le> evVisits v' \<and> evVisits v' \<le> maxVisited (envE env)"
    if "walk (Suc fuel) env ref ops v = Some (Inr v')" for ref ops v v'
    using that m(2) [of "v\<lparr>evDone := (ref, ops) # evDone v, evVisits := evVisits v + 1\<rparr>"]
    by (fastforce simp: Let_def added_def split: if_splits option.splits sum.splits dest!: walk_claims_added)
  ultimately show ?case by (simp add: walker_ends_def)
qed

lemma walk_total: "walk (maxVisited (envE env) + 1) env ref ops start_eval \<noteq> None"
  using walk_ends [of env "maxVisited (envE env) + 1"] unfolding walker_ends_def by (simp add: start_eval_def del: walk.simps)

end
