(* ===== verification/Resolve_Graph.thy ===== *)
theory Resolve_Graph
  imports Resolve_Reach Resolve_Eval
begin

text \<open>
  The graph a discovery returns, and what an expansion of it denotes: the AS numbers of the reachable sets, and
  the prefix ranges found along every path of members, under the operators of the path.
\<close>

subsection \<open>The graph\<close>

declare split_paired_Ex [simp del] split_paired_All [simp del]

lemma in_fetched: "(n, s) \<in> set (fetched e ns) \<longleftrightarrow> n \<in> set ns \<and> fetchOne e n = Inr s"
proof (induction ns)
  case (Cons m ns)
  then show ?case by (cases "fetchOne e m") auto
qed simp

lemma distinct_fetched: "distinct ns \<Longrightarrow> distinct (map fst (fetched e ns))"
proof (induction ns)
  case (Cons n ns)
  have "n \<notin> fst ` set (fetched e ns)" using Cons.prems by (force simp: in_fetched)
  then show ?case using Cons by (cases "fetchOne e n") auto
qed simp

lemma fetchClaims_nodes:
  "fetchClaims e nodes = Inr nds \<Longrightarrow>
     map fst nds = map fst nodes \<and>
     set nds = {(n, nd). (n, ndSet nd) \<in> set nodes \<and> claimsOf e (ndSet nd) = Inr (ndClaims nd)}"
proof (induction nodes arbitrary: nds)
  case (Cons p nodes)
  obtain n s where p: "p = (n, s)" by (cases p)
  then obtain cs nds1 where c: "claimsOf e s = Inr cs" "fetchClaims e nodes = Inr nds1" "nds = (n, \<lparr>ndSet = s, ndClaims = cs\<rparr>) # nds1"
    using Cons.prems by (auto split: sum.splits)
  have "nd = \<lparr>ndSet = s, ndClaims = cs\<rparr> \<longleftrightarrow> ndSet nd = s \<and> claimsOf e (ndSet nd) = Inr (ndClaims nd)" for nd
    using c(1) by (cases nd) auto
  then show ?case using Cons.IH [OF c(2)] c(3) p by auto
qed simp

lemma fetchClaims_total: "\<not> isl (fetchClaims e nodes) \<longleftrightarrow> (\<forall>(n, s)\<in>set nodes. \<not> isl (claimsOf e s))"
proof (induction nodes)
  case (Cons p nodes)
  obtain n s where p: "p = (n, s)" by (cases p)
  then show ?case using Cons by (cases "claimsOf e s"; cases "fetchClaims e nodes") auto
qed simp

definition graph_ok :: "Expander \<Rightarrow> SetRef \<Rightarrow> setGraph \<Rightarrow> bool" where
  "graph_ok e start g \<longleftrightarrow>
     gTop g = start \<and> gAny g = [] \<and> distinct (map fst (gNodes g)) \<and>
     set (gNodes g) = {(n, nd). n \<in> reachable e start \<and> fetchOne e n = Inr (ndSet nd) \<and> claimsOf e (ndSet nd) = Inr (ndClaims nd)} \<and>
     (\<forall>n\<in>reachable e start. \<forall>s. fetchOne e n = Inr s \<longrightarrow> n \<in> fst ` set (gNodes g)) \<and>
     set (gMissing g) = {n \<in> reachable e start. fetchOne e n = Inl ErrNotFoundR} \<and>
     gReached g = card (reachable e start) \<and> gReached g \<le> maxVisited e"

definition claims_answered :: "Expander \<Rightarrow> SetRef \<Rightarrow> bool" where
  "claims_answered e start \<longleftrightarrow> (\<forall>n\<in>reachable e start. \<forall>s. fetchOne e n = Inr s \<longrightarrow> \<not> isl (claimsOf e s))"

lemma discover_sound:
  assumes "discover e start False = Inr g"
  shows "graph_ok e start g \<and> explorable e start \<and> claims_answered e start"
proof -
  have na: "\<not> IsAny (ref_name start)" using assms by (auto simp: discover_def)
  obtain nodes missing anys seen where l: "discover_loop e start False 0 [start] [start] [] [] = Inr (nodes, missing, anys, seen)"
    using assms na by (auto simp: discover_def split: sum.splits)
  obtain past where p: "discovered e start past" "nodes = fetched e past" "missing = absent e past" "anys = []" "length seen = length past"
    using discover_loop_sound [OF l loop_start [OF na]] by auto
  obtain nds where n: "fetchClaims e nodes = Inr nds" "gNodes g = nds" "gTop g = start" "gAny g = []" "gReached g = length past"
    "gMissing g = SliceStable (\<lambda>a b. bytes_less (ref_String a) (ref_String b)) missing"
    using assms na l p by (auto simp: discover_def Let_def split: sum.splits)
  have past: "set past = reachable e start" "distinct past" "length past \<le> maxVisited e" using p(1) by (auto simp: discovered_def)
  note c = fetchClaims_nodes [OF n(1)]
  have "fst ` set nds = fst ` set nodes" using c by (metis set_map)
  moreover have "n \<in> fst ` set nodes" if "n \<in> reachable e start" "fetchOne e n = Inr s" for n s
  proof -
    have "(n, s) \<in> set nodes" using that p(2) past(1) in_fetched by simp
    then show ?thesis by (rule image_eqI [rotated]) simp
  qed
  ultimately have "\<forall>n\<in>reachable e start. \<forall>s. fetchOne e n = Inr s \<longrightarrow> n \<in> fst ` set nds" by auto
  moreover have "length past = card (reachable e start)" using past by (metis distinct_card)
  moreover have "distinct (map fst nds)" using c p(2) distinct_fetched [OF past(2)] by simp
  ultimately have "graph_ok e start g"
    using n p past c by (auto simp: graph_ok_def in_fetched absent_def)
  moreover have "claims_answered e start"
  proof -
    have "\<not> isl (fetchClaims e nodes)" using n(1) by simp
    then have "\<not> isl (claimsOf e s)" if "(n, s) \<in> set nodes" for n s
      unfolding fetchClaims_total using that by blast
    then show ?thesis unfolding claims_answered_def using p(2) past(1) in_fetched by blast
  qed
  ultimately show ?thesis using discovered_explorable [OF p(1)] by blast
qed

lemma discover_total:
  assumes "explorable e start" "claims_answered e start"
  shows "\<exists>g. discover e start False = Inr g"
proof -
  have "start \<in> reachable e start" using within_reachable start_within by blast
  then have na: "\<not> IsAny (ref_name start)" using assms(1) by (auto simp: explorable_def)
  obtain nodes missing anys seen where l: "discover_loop e start False 0 [start] [start] [] [] = Inr (nodes, missing, anys, seen)"
    using discover_loop_exact [OF na, of e] assms(1) by (cases "discover_loop e start False 0 [start] [start] [] []") auto
  obtain past where p: "discovered e start past" "nodes = fetched e past" "anys = []"
    using discover_loop_sound [OF l loop_start [OF na]] by auto
  have "\<not> isl (fetchClaims e nodes)"
    unfolding fetchClaims_total using assms(2) p(1,2) by (auto simp: claims_answered_def in_fetched discovered_def)
  then show ?thesis using na l p(3) by (cases "fetchClaims e nodes") (auto simp: discover_def Let_def)
qed

lemma graph_node:
  "graph_ok e start g \<Longrightarrow> (n, nd) \<in> set (gNodes g) \<longleftrightarrow>
     n \<in> reachable e start \<and> fetchOne e n = Inr (ndSet nd) \<and> claimsOf e (ndSet nd) = Inr (ndClaims nd)"
  unfolding graph_ok_def by auto

lemma graph_has:
  assumes "graph_ok e start g" "n \<in> reachable e start" "fetchOne e n = Inr s"
  shows "\<exists>nd. (n, nd) \<in> set (gNodes g) \<and> ndSet nd = s"
proof -
  obtain nd where "(n, nd) \<in> set (gNodes g)" using assms unfolding graph_ok_def by fastforce
  then show ?thesis using graph_node [OF assms(1)] assms(3) by fastforce
qed

lemma graph_lookup:
  assumes "graph_ok e start g"
  shows "map_of (gNodes g) n = Some nd \<longleftrightarrow>
    n \<in> reachable e start \<and> fetchOne e n = Inr (ndSet nd) \<and> claimsOf e (ndSet nd) = Inr (ndClaims nd)"
proof -
  have "map_of (gNodes g) n = Some nd \<longleftrightarrow> (n, nd) \<in> set (gNodes g)" using assms by (simp add: graph_ok_def)
  then show ?thesis using assms by (auto simp: graph_ok_def)
qed

lemma graph_lookup_None:
  assumes "graph_ok e start g" "n \<in> reachable e start" "fetchOne e n = Inr s"
  shows "map_of (gNodes g) n \<noteq> None"
  using assms by (auto simp: graph_ok_def map_of_eq_None_iff)

subsection \<open>AS numbers\<close>

text \<open>The claims of indirect membership that a set honours.\<close>

definition honoured :: "Expander \<Rightarrow> NamedSet \<Rightarrow> iface \<Rightarrow> bool" where
  "honoured e s c \<longleftrightarrow>
     RefMntners (fst s) (snd s) \<noteq> [] \<and> claimClassOK s c \<and> ClaimAllowed c s \<and>
     (\<exists>objs. MembersByRef (Src e) s = Inr objs \<and> c \<in> set objs)"

lemma claimsOf_honoured: "claimsOf e s = Inr cs \<Longrightarrow> c \<in> set cs \<longleftrightarrow> honoured e s c"
  by (auto simp: claimsOf_def honoured_def split: if_splits sum.splits source_error.splits)

definition lists_as :: "Expander \<Rightarrow> NamedSet \<Rightarrow> asn \<Rightarrow> bool" where
  "lists_as e s a \<longleftrightarrow>
     \<not> excluded_as e a \<and>
     ((\<exists>m\<in>set (members s). mKind m = MemberAS \<and> mAS m = a) \<or> (\<exists>t. honoured e s (Ptr (OAutNum t)) \<and> anAS t = a))"

lemma set_claim_ases: "set (claim_ases e cs) = {anAS t |t. Ptr (OAutNum t) \<in> set cs \<and> \<not> excluded_as e (anAS t)}"
  by (induction e cs rule: claim_ases.induct) auto

lemma set_node_ases: "claimsOf e (ndSet nd) = Inr (ndClaims nd) \<Longrightarrow> set (node_ases e nd) = {a. lists_as e (ndSet nd) a}"
  by (auto simp: node_ases_def lists_as_def set_claim_ases claimsOf_honoured)

definition denoted_ases :: "Expander \<Rightarrow> SetRef \<Rightarrow> asn set" where
  "denoted_ases e start = {a. \<exists>n\<in>reachable e start. \<exists>s. fetchOne e n = Inr s \<and> lists_as e s a}"

lemma graph_ases:
  assumes "graph_ok e start g"
  shows "set (concat (map (\<lambda>(n, nd). node_ases e nd) (gNodes g))) = denoted_ases e start"
proof -
  have "a \<in> denoted_ases e start" if "(n, nd) \<in> set (gNodes g)" "a \<in> set (node_ases e nd)" for n nd a
    using that graph_node [OF assms, of n nd] set_node_ases [of e nd] unfolding denoted_ases_def by blast
  moreover have "\<exists>n nd. (n, nd) \<in> set (gNodes g) \<and> a \<in> set (node_ases e nd)" if den: "a \<in> denoted_ases e start" for a
  proof -
    obtain n s where n: "n \<in> reachable e start" "fetchOne e n = Inr s" "lists_as e s a" using den unfolding denoted_ases_def by blast
    then obtain nd where nd: "(n, nd) \<in> set (gNodes g)" "ndSet nd = s" using graph_has [OF assms] by blast
    then show ?thesis using n graph_node [OF assms, of n nd] set_node_ases [of e nd] by blast
  qed
  ultimately show ?thesis by fastforce
qed

lemma foldl_add_key: "set (foldl (\<lambda>s a. add_key a s) xs as) = set xs \<union> set as \<and> (distinct xs \<longrightarrow> distinct (foldl (\<lambda>s a. add_key a s) xs as))"
  by (induction as arbitrary: xs) auto

lemma asM_foldl: "asM (foldl asnset_add s as) = foldl (\<lambda>xs a. add_key a xs) (asM s) as"
  "asAny (foldl asnset_add s as) = asAny s"
  by (induction as arbitrary: s) (simp_all add: asnset_add_def)

lemma ExpandAS_denotes:
  assumes "ExpandAS e ref = Inr out"
  shows "set (asM out) = denoted_ases e ref \<and> distinct (asM out) \<and> \<not> asAny out \<and>
    set (asMissing out) = {n \<in> reachable e ref. fetchOne e n = Inl ErrNotFoundR}"
proof -
  obtain g where g: "discover e ref False = Inr g" using assms by (auto simp: ExpandAS_def expandAS_def split: sum.splits if_splits)
  then have ok: "graph_ok e ref g" using discover_sound by blast
  then have "gAny g = []" by (simp add: graph_ok_def)
  then have out: "out = (foldl asnset_add newASSet (concat (map (\<lambda>(n, nd). node_ases e nd) (gNodes g))))\<lparr>asMissing := gMissing g\<rparr>"
    using assms g by (auto simp: ExpandAS_def expandAS_def split: if_splits)
  define as where "as = concat (map (\<lambda>(n, nd). node_ases e nd) (gNodes g))"
  have "set as = denoted_ases e ref" using graph_ases [OF ok] by (simp only: as_def)
  moreover have "set (gMissing g) = {n \<in> reachable e ref. fetchOne e n = Inl ErrNotFoundR}" using ok by (simp add: graph_ok_def)
  ultimately show ?thesis
    using foldl_add_key [of "[]" as] by (simp add: out asM_foldl newASSet_def as_def [symmetric])
qed

lemma ExpandAS_when:
  "\<not> isl (ExpandAS e ref) \<longleftrightarrow> set_class (ref_name ref) = ClassAsSet \<and> explorable e ref \<and> claims_answered e ref"
proof
  assume "\<not> isl (ExpandAS e ref)"
  then obtain g where "discover e ref False = Inr g" "set_class (ref_name ref) = ClassAsSet"
    by (auto simp: ExpandAS_def expandAS_def split: sum.splits if_splits)
  then show "set_class (ref_name ref) = ClassAsSet \<and> explorable e ref \<and> claims_answered e ref" using discover_sound by blast
next
  assume a: "set_class (ref_name ref) = ClassAsSet \<and> explorable e ref \<and> claims_answered e ref"
  then obtain g where "discover e ref False = Inr g" using discover_total by blast
  then show "\<not> isl (ExpandAS e ref)" using a by (simp add: ExpandAS_def expandAS_def)
qed

end
