(* ===== verification/Resolve_Ranges.thy ===== *)
theory Resolve_Ranges
  imports Resolve_Graph
begin

text \<open>
  What a prefix expansion denotes (RFC 2622, section 5.2): the ranges listed along every path of members, each
  under the operators of its path.  The walk over operator tables finds exactly those.
\<close>

subsection \<open>Denotation\<close>

definition originates :: "Expander \<Rightarrow> asn \<Rightarrow> prefix \<Rightarrow> bool" where
  "originates e a p \<longleftrightarrow> (\<exists>ps. OriginatedRoutes (Src e) a (expAFI e) = Inr ps \<and> p \<in> set ps \<and> prefix_isValid p)"

text \<open>The ranges a set lists itself, with the operator of the member that lists them.\<close>

inductive lists_range :: "Expander \<Rightarrow> NamedSet \<Rightarrow> PrefixRange \<Rightarrow> RangeOperator list \<Rightarrow> bool" for e s where
  lists_member: "m \<in> set (members s) \<Longrightarrow> mKind m = MemberPrefixRange \<Longrightarrow> lists_range e s (mRange m) []"
| lists_as_routes: "m \<in> set (members s) \<Longrightarrow> mKind m = MemberAS \<Longrightarrow> \<not> excluded_as e (mAS m) \<Longrightarrow> originates e (mAS m) p \<Longrightarrow>
    lists_range e s (exact_range p) [mOp m]"
| lists_route: "honoured e s (Ptr (ORoute t)) \<Longrightarrow> prefix_isValid (rPrefix t) \<Longrightarrow> lists_range e s (exact_range (rPrefix t)) []"
| lists_route6: "honoured e s (Ptr (ORoute6 t)) \<Longrightarrow> prefix_isValid (rPrefix t) \<Longrightarrow> lists_range e s (exact_range (rPrefix t)) []"
| lists_autnum: "honoured e s (Ptr (OAutNum t)) \<Longrightarrow> \<not> excluded_as e (anAS t) \<Longrightarrow> originates e (anAS t) p \<Longrightarrow>
    lists_range e s (exact_range p) []"

text \<open>The paths of members from a set, with the operators met, outermost first.\<close>

inductive path_to :: "Expander \<Rightarrow> SetRef \<Rightarrow> SetRef \<Rightarrow> RangeOperator list \<Rightarrow> bool" for e start where
  path_start: "path_to e start start []"
| path_step: "path_to e start n ops \<Longrightarrow> fetchOne e n = Inr s \<Longrightarrow> m \<in> set (members s) \<Longrightarrow> mKind m = MemberSet \<Longrightarrow>
    nestable (set_class (ref_name n)) (set_class (mSet m)) \<Longrightarrow> \<not> excluded_set e (mSet m) \<Longrightarrow> \<not> ref_IsZero (member_Ref m) \<Longrightarrow>
    path_to e start (member_Ref m) (ops @ [mOp m])"

definition denoted_ranges :: "Expander \<Rightarrow> SetRef \<Rightarrow> PrefixRange set" where
  "denoted_ranges e start =
     {r'. \<exists>n ops s r os. path_to e start n ops \<and> fetchOne e n = Inr s \<and> lists_range e s r os \<and> \<not> range_IsEmpty r \<and>
        apply_path (ops @ os) r = Some r' \<and> afiAllows e (rprefix r')}"

text \<open>Listed ranges are well formed, as parsing makes them.\<close>

definition tidy :: "Expander \<Rightarrow> SetRef \<Rightarrow> bool" where
  "tidy e start \<longleftrightarrow>
     (\<forall>n\<in>reachable e start. \<forall>s r os. fetchOne e n = Inr s \<longrightarrow> lists_range e s r os \<longrightarrow> wf_range r)"

subsection \<open>Paths and states\<close>

lemma fetchOne_name: "fetchOne e n = Inr (k, ob) \<Longrightarrow> sName ob = ref_name n"
  by (auto simp: fetchOne_def checkSet_def split: sum.splits source_error.splits option.splits if_splits)

lemma member_Ref_name: "\<not> ref_IsZero (member_Ref m) \<Longrightarrow> ref_name (member_Ref m) = mSet m"
  by (auto simp: member_Ref_def NewSetRef_def Ref_def zeroRef_def ref_IsZero_def setname_IsZero_def zeroSetName_def
      split: if_splits option.splits)

lemma zeroRef_absent: "fetchOne e zeroRef \<noteq> Inr s"
proof
  assume "fetchOne e zeroRef = Inr s"
  then obtain k where "kind_Class k = class_String ClassUnknown"
    by (auto simp: fetchOne_def checkSet_def zeroRef_def Ref_def zeroSetName_def split: sum.splits source_error.splits option.splits if_splits)
  then show False by (cases k) auto
qed

lemma fetched_nonzero: "fetchOne e (member_Ref m) = Inr s \<Longrightarrow> \<not> ref_IsZero (member_Ref m)"
  using zeroRef_absent [of e s]
  by (auto simp: member_Ref_def NewSetRef_def ref_IsZero_def Ref_def split: if_splits option.splits)

lemma members_kind: "m \<in> set (members (k, ob)) \<Longrightarrow> (k = AsSet \<or> k = RouteSet) \<and> m \<in> set (DirectMembers ob)"
  by (cases k) auto

lemma path_reachable: "path_to e start n ops \<Longrightarrow> n \<in> reachable e start"
proof (induction rule: path_to.induct)
  case path_start
  show ?case using within_reachable start_within by blast
next
  case (path_step n ops s m)
  obtain k ob where s: "s = (k, ob)" by (cases s)
  have "member_Ref m \<in> set (nestedRefs s)"
    using path_step members_kind [of m k ob] fetchOne_name [of e n k ob] by (auto simp: s member_refs_def)
  then have "member_Ref m \<in> succs e n"
    using path_step member_Ref_name [of m] by (auto simp: succs_def)
  then show ?case using reachable_step [OF path_step.IH] by blast
qed

definition env_of :: "Expander \<Rightarrow> setGraph \<Rightarrow> routes \<Rightarrow> nat \<Rightarrow> evalEnv" where
  "env_of e g rs mx = \<lparr>envE = e, envG = g, envRoutes = rs, envMax = mx\<rparr>"

lemma env_simps [simp]:
  "envE (env_of e g rs mx) = e" "envG (env_of e g rs mx) = g" "envRoutes (env_of e g rs mx) = rs" "envMax (env_of e g rs mx) = mx"
  by (simp_all add: env_of_def)

lemma nexts_graph:
  assumes "graph_ok e start g"
  shows "(c, st) \<in> nexts (env_of e g rs mx) (n, t) \<longleftrightarrow>
    n \<in> reachable e start \<and>
    (\<exists>s m. fetchOne e n = Inr s \<and> m \<in> set (members s) \<and> follows (env_of e g rs mx) n m \<and> c = member_Ref m \<and> st = stack_push t (mOp m))"
proof (cases "map_of (gNodes g) n")
  case None
  then have "\<not> (n \<in> reachable e start \<and> (\<exists>s. fetchOne e n = Inr s))" using graph_lookup_None [OF assms] by blast
  then show ?thesis using None by (auto simp: nexts_def)
next
  case (Some nd)
  then show ?thesis using graph_lookup [OF assms, of n nd] by (auto simp: nexts_def member_next_def)
qed

lemma states_are_paths:
  assumes ok: "graph_ok e start g" and s0: "fetchOne e start = Inr s0"
  shows "((start, zeroStack), (n, st)) \<in> (steps (env_of e g rs mx))\<^sup>* \<longleftrightarrow>
    (\<exists>ops s. st = stack_of ops \<and> path_to e start n ops \<and> fetchOne e n = Inr s)"
proof
  assume "((start, zeroStack), (n, st)) \<in> (steps (env_of e g rs mx))\<^sup>*"
  then show "\<exists>ops s. st = stack_of ops \<and> path_to e start n ops \<and> fetchOne e n = Inr s"
  proof (induction "(n, st)" arbitrary: n st rule: rtrancl_induct)
    case base
    show ?case using s0 path_start by (intro exI [of _ "[]"]) (auto simp: stack_of_def)
  next
    case (step y n st)
    obtain c t where y: "y = (c, t)" by (cases y)
    obtain ops s where p: "t = stack_of ops" "path_to e start c ops" "fetchOne e c = Inr s" using step.hyps(3) y by blast
    obtain m where m: "m \<in> set (members s)" "follows (env_of e g rs mx) c m" "n = member_Ref m" "st = stack_push t (mOp m)"
      using step.hyps(2) y p(3) nexts_graph [OF ok] by (auto simp: steps_def)
    obtain nd where "map_of (gNodes g) n = Some nd" using m by (auto simp: follows_def)
    then have f: "fetchOne e n = Inr (ndSet nd)" using graph_lookup [OF ok] by blast
    have "path_to e start n (ops @ [mOp m])"
      unfolding m(3) using m(2) fetched_nonzero [of e m] f m(3) by (intro path_step [OF p(2,3) m(1)]) (auto simp: follows_def)
    moreover have "st = stack_of (ops @ [mOp m])" using m(4) p(1) by simp
    ultimately show ?case using f by blast
  qed
next
  assume "\<exists>ops s. st = stack_of ops \<and> path_to e start n ops \<and> fetchOne e n = Inr s"
  then obtain ops s where st: "st = stack_of ops" and p: "path_to e start n ops" and s: "fetchOne e n = Inr s" by blast
  from p s have "((start, zeroStack), (n, stack_of ops)) \<in> (steps (env_of e g rs mx))\<^sup>*"
  proof (induction arbitrary: s rule: path_to.induct)
    case path_start
    then show ?case by (simp add: stack_of_def)
  next
    case (path_step n ops s m s')
    have r: "member_Ref m \<in> reachable e start" "n \<in> reachable e start"
      using path_reachable [OF path_to.path_step [OF path_step.hyps]] path_reachable [OF path_step.hyps(1)] by auto
    have "follows (env_of e g rs mx) n m"
      using path_step graph_lookup_None [OF ok r(1) path_step.prems] by (auto simp: follows_def)
    then have "(member_Ref m, stack_push (stack_of ops) (mOp m)) \<in> nexts (env_of e g rs mx) (n, stack_of ops)"
      unfolding nexts_graph [OF ok] using r(2) path_step by blast
    then show ?case using path_step.IH [OF path_step.hyps(2)] by (auto simp: steps_def intro: rtrancl_into_rtrancl)
  qed
  then show "((start, zeroStack), (n, st)) \<in> (steps (env_of e g rs mx))\<^sup>*" using st by simp
qed

subsection \<open>Routes\<close>

lemma fetch_each_routes:
  "fetch_each e as = Inr rs \<Longrightarrow>
     map fst rs = as \<and> (\<forall>a\<in>set as. \<exists>ps. OriginatedRoutes (Src e) a (expAFI e) = Inr ps \<and> map_of rs a = Some ps)"
proof (induction as arbitrary: rs)
  case (Cons a as)
  then show ?case by (fastforce split: sum.splits source_error.splits)
qed simp

lemma set_ordered: "set (ordered g) = set (gNodes g)"
  by (auto simp: ordered_def)

lemma fetched_routes:
  assumes "fetchRoutes e g = Inr rs" "graph_ok e start g"
  shows "p \<in> set (routes_of rs a) \<and> prefix_isValid p \<longleftrightarrow> a \<in> denoted_ases e start \<and> originates e a p"
proof -
  define need where "need = foldl (\<lambda>need a. add_key a need) [] (concat (map (\<lambda>(n, nd). node_ases e nd) (ordered g)))"
  have "set need = set (concat (map (\<lambda>(n, nd). node_ases e nd) (gNodes g)))"
    by (simp add: need_def foldl_add_key set_ordered)
  then have need: "set need = denoted_ases e start" using graph_ases [OF assms(2)] by simp
  have f: "map fst rs = need" "\<forall>a\<in>set need. \<exists>ps. OriginatedRoutes (Src e) a (expAFI e) = Inr ps \<and> map_of rs a = Some ps"
    using fetch_each_routes [of e need rs] assms(1) by (simp_all add: fetchRoutes_def need_def)
  show ?thesis
  proof (cases "a \<in> set need")
    case True
    then show ?thesis using f(2) need by (fastforce simp: routes_of_def originates_def)
  next
    case False
    then have "map_of rs a = None" using f(1) by (metis map_of_eq_None_iff set_map)
    then show ?thesis using False need by (simp add: routes_of_def)
  qed
qed

subsection \<open>Contributions\<close>

lemma kept_iff: "r' \<in> kept env st r \<longleftrightarrow> stack_apply st r = Some r' \<and> afiAllows (envE env) (rprefix r')"
  by (auto simp: kept_def split: option.splits)

lemma route_out_iff: "r' \<in> route_out env st ps \<longleftrightarrow> (\<exists>p\<in>set ps. prefix_isValid p \<and> r' \<in> kept env st (exact_range p))"
  by (auto simp: route_out_def)

lemma denoted_listed:
  "n \<in> reachable e start \<Longrightarrow> fetchOne e n = Inr s \<Longrightarrow> lists_as e s a \<Longrightarrow> a \<in> denoted_ases e start"
  unfolding denoted_ases_def by blast

lemma denoted_not_excluded: "a \<in> denoted_ases e start \<Longrightarrow> \<not> excluded_as e a"
  unfolding denoted_ases_def lists_as_def by blast

lemma member_lists:
  assumes ok: "graph_ok e start g" and rs: "fetchRoutes e g = Inr rs"
    and m: "m \<in> set (members s)" "r' \<in> member_out (env_of e g rs mx) (stack_of ops) m"
  shows "\<exists>r os. lists_range e s r os \<and> r' \<in> kept (env_of e g rs mx) (stack_of (ops @ os)) r"
proof (cases "mKind m")
  case MemberPrefixRange
  then show ?thesis using m lists_member [OF m(1)] by (intro exI [of _ "mRange m"] exI [of _ "[]"]) (simp add: member_out_def)
next
  case MemberAS
  then obtain p where p: "p \<in> set (routes_of rs (mAS m))" "prefix_isValid p"
      "r' \<in> kept (env_of e g rs mx) (stack_push (stack_of ops) (mOp m)) (exact_range p)"
    using m(2) by (auto simp: member_out_def route_out_iff)
  then have "mAS m \<in> denoted_ases e start \<and> originates e (mAS m) p" using fetched_routes [OF rs ok] by blast
  then have "lists_range e s (exact_range p) [mOp m]" using lists_as_routes [OF m(1) MemberAS] denoted_not_excluded by blast
  then show ?thesis using p(3) by (intro exI [of _ "exact_range p"] exI [of _ "[mOp m]"]) simp
qed (use m in \<open>simp_all add: member_out_def\<close>)

lemma claim_lists:
  assumes ok: "graph_ok e start g" and rs: "fetchRoutes e g = Inr rs"
    and c: "honoured e s c" "r' \<in> route_out (env_of e g rs mx) st (claim_prefixes (env_of e g rs mx) c)"
  shows "\<exists>r. lists_range e s r [] \<and> r' \<in> kept (env_of e g rs mx) st r"
proof -
  obtain p where p: "p \<in> set (claim_prefixes (env_of e g rs mx) c)" "prefix_isValid p" "r' \<in> kept (env_of e g rs mx) st (exact_range p)"
    using c(2) by (auto simp: route_out_iff)
  have "lists_range e s (exact_range p) []"
  proof (cases "\<exists>t. c = Ptr (OAutNum t)")
    case True
    then obtain t where t: "c = Ptr (OAutNum t)" "p \<in> set (routes_of rs (anAS t))" using p(1) by auto
    then have "anAS t \<in> denoted_ases e start \<and> originates e (anAS t) p" using fetched_routes [OF rs ok] p(2) by blast
    then show ?thesis using lists_autnum c(1) t(1) denoted_not_excluded by blast
  next
    case False
    then show ?thesis using p(1,2) c(1)
      by (cases "(env_of e g rs mx, c)" rule: claim_prefixes.cases) (auto intro: lists_route lists_route6)
  qed
  then show ?thesis using p(3) by blast
qed

lemma lists_out:
  assumes ok: "graph_ok e start g" and rs: "fetchRoutes e g = Inr rs"
    and n: "n \<in> reachable e start" "fetchOne e n = Inr s"
    and l: "lists_range e s r os" and k: "r' \<in> kept (env_of e g rs mx) (stack_of (ops @ os)) r"
  shows "(\<exists>m\<in>set (members s). r' \<in> member_out (env_of e g rs mx) (stack_of ops) m) \<or>
    (\<exists>c. honoured e s c \<and> r' \<in> route_out (env_of e g rs mx) (stack_of ops) (claim_prefixes (env_of e g rs mx) c))"
  using l
proof cases
  case (lists_member m)
  then have "r' \<in> member_out (env_of e g rs mx) (stack_of ops) m" using k by (simp add: member_out_def)
  then show ?thesis using lists_member by blast
next
  case (lists_as_routes m p)
  then have "mAS m \<in> denoted_ases e start" using denoted_listed [OF n] unfolding lists_as_def by blast
  then have "r' \<in> member_out (env_of e g rs mx) (stack_of ops) m"
    using k lists_as_routes fetched_routes [OF rs ok, of p] by (auto simp: member_out_def route_out_iff)
  then show ?thesis using lists_as_routes by blast
next
  case (lists_route t)
  then show ?thesis using k by (intro disjI2 exI [of _ "Ptr (ORoute t)"]) (simp add: route_out_iff)
next
  case (lists_route6 t)
  then show ?thesis using k by (intro disjI2 exI [of _ "Ptr (ORoute6 t)"]) (simp add: route_out_iff)
next
  case (lists_autnum t p)
  then have "anAS t \<in> denoted_ases e start" using denoted_listed [OF n] unfolding lists_as_def by blast
  then show ?thesis
    using k lists_autnum fetched_routes [OF rs ok, of p] by (intro disjI2 exI [of _ "Ptr (OAutNum t)"]) (auto simp: route_out_iff)
qed

lemma contrib_lists:
  assumes ok: "graph_ok e start g" and rs: "fetchRoutes e g = Inr rs"
    and n: "n \<in> reachable e start" "fetchOne e n = Inr s"
  shows "r' \<in> contrib (env_of e g rs mx) (n, stack_of ops) \<longleftrightarrow>
    (\<exists>r os. lists_range e s r os \<and> r' \<in> kept (env_of e g rs mx) (stack_of (ops @ os)) r)"
proof -
  obtain nd where nd: "map_of (gNodes g) n = Some nd" using graph_lookup_None [OF ok n] by auto
  then have s: "ndSet nd = s" "claimsOf e s = Inr (ndClaims nd)" using graph_lookup [OF ok, of n nd] n(2) by auto
  have "r' \<in> contrib (env_of e g rs mx) (n, stack_of ops) \<longleftrightarrow>
      (\<exists>m\<in>set (members s). r' \<in> member_out (env_of e g rs mx) (stack_of ops) m) \<or>
      (\<exists>c. honoured e s c \<and> r' \<in> route_out (env_of e g rs mx) (stack_of ops) (claim_prefixes (env_of e g rs mx) c))"
    using nd s claimsOf_honoured [OF s(2)] by (auto simp: contrib_def)
  then show ?thesis
    using member_lists [OF ok rs] claim_lists [OF ok rs] lists_out [OF ok rs n] by (metis append_Nil2)
qed

subsection \<open>Expansion\<close>

text \<open>The sets reached, each with the effect of the operators it is reached under.\<close>

definition path_states :: "Expander \<Rightarrow> SetRef \<Rightarrow> (SetRef \<times> opStack) set" where
  "path_states e start = {(n, stack_of ops) |n ops. path_to e start n ops \<and> \<not> isl (fetchOne e n)}"

lemma steps_path_states:
  assumes ok: "graph_ok e start g" and s0: "fetchOne e start = Inr s0"
  shows "(steps (env_of e g rs mx))\<^sup>* `` {(start, zeroStack)} = path_states e start"
proof -
  have "x \<in> (steps (env_of e g rs mx))\<^sup>* `` {(start, zeroStack)} \<longleftrightarrow> x \<in> path_states e start" for x
  proof (cases x)
    case (Pair n st)
    have "\<not> isl (fetchOne e n) \<longleftrightarrow> (\<exists>s. fetchOne e n = Inr s)" by (cases "fetchOne e n") auto
    then show ?thesis using states_are_paths [OF ok s0, of n st rs mx] Pair by (auto simp: path_states_def)
  qed
  then show ?thesis by blast
qed

lemma contrib_denoted:
  assumes ok: "graph_ok e start g" and rs: "fetchRoutes e g = Inr rs" and tidy: "tidy e start"
  shows "(\<Union>x\<in>path_states e start. contrib (env_of e g rs mx) x) = denoted_ranges e start"
proof -
  have "r' \<in> (\<Union>x\<in>path_states e start. contrib (env_of e g rs mx) x) \<longleftrightarrow> r' \<in> denoted_ranges e start" for r'
  proof -
    have f: "\<not> isl (fetchOne e n) \<longleftrightarrow> (\<exists>s. fetchOne e n = Inr s)" for n by (cases "fetchOne e n") auto
    have "r' \<in> (\<Union>x\<in>path_states e start. contrib (env_of e g rs mx) x) \<longleftrightarrow>
        (\<exists>n ops s. path_to e start n ops \<and> fetchOne e n = Inr s \<and> r' \<in> contrib (env_of e g rs mx) (n, stack_of ops))"
      unfolding path_states_def f by blast
    also have "\<dots> \<longleftrightarrow> (\<exists>n ops s r os. path_to e start n ops \<and> fetchOne e n = Inr s \<and> lists_range e s r os \<and>
        r' \<in> kept (env_of e g rs mx) (stack_of (ops @ os)) r)"
      using contrib_lists [OF ok rs] path_reachable by blast
    also have "\<dots> \<longleftrightarrow> r' \<in> denoted_ranges e start"
    proof -
      have "wf_range r" if "path_to e start n ops" "fetchOne e n = Inr s" "lists_range e s r os" for n ops s r os
        using tidy path_reachable [OF that(1)] that unfolding tidy_def by blast
      then show ?thesis
        unfolding denoted_ranges_def mem_Collect_eq kept_iff env_simps by (metis stack_apply_path option.distinct(1))
    qed
    finally show ?thesis .
  qed
  then show ?thesis by blast
qed

text \<open>The ranges of an expansion are those its paths denote.\<close>

lemma expandRanges_denotes:
  assumes e: "expandRanges e start mx = Some (Inr (out, reached))" and tidy: "tidy e start"
  shows "set (rsM out) = denoted_ranges e start \<and> distinct (rsM out) \<and>
    set (rsMissing out) = {n \<in> reachable e start. fetchOne e n = Inl ErrNotFoundR} \<and>
    reached = card (reachable e start)"
proof -
  obtain g rs v where g: "discover e start False = Inr g" "fetchRoutes e g = Inr rs"
      "walk (maxVisited e + 1) (env_of e g rs mx) start zeroStack start_eval = Some (Inr v)"
    and out: "out = \<lparr>rsM = evOut v, rsMissing = gMissing g\<rparr>" "reached = gReached g"
    using e by (auto simp: expandRanges_def env_of_def split: if_splits sum.splits option.splits simp del: walk.simps)
  have ok: "graph_ok e start g" and x: "explorable e start" using discover_sound [OF g(1)] by blast+
  obtain s0 where s0: "fetchOne e start = Inr s0" using x by (cases "fetchOne e start") (auto simp: explorable_def)
  have "set (evOut v) = denoted_ranges e start \<and> distinct (evOut v)"
    using walk_collects [OF g(3)] steps_path_states [OF ok s0] contrib_denoted [OF ok g(2) tidy] by metis
  then show ?thesis using out ok by (simp add: graph_ok_def)
qed

lemma expandRanges_total: "expandRanges e start mx \<noteq> None"
proof -
  have "walk (maxVisited e + 1) \<lparr>envE = e, envG = g, envRoutes = rs, envMax = mx\<rparr> start zeroStack start_eval \<noteq> None" for g rs
    using walk_total [of "\<lparr>envE = e, envG = g, envRoutes = rs, envMax = mx\<rparr>"] by simp
  then show ?thesis
    unfolding expandRanges_def by (auto split: sum.split option.split simp del: walk.simps not_None_eq)
qed

lemma add_prefixes_set:
  "add_prefixes ref mx ps out = Inr out' \<Longrightarrow>
     set out' = set out \<union> set ps \<and> (distinct out \<longrightarrow> distinct out') \<and> (length out \<le> mx \<longrightarrow> length out' \<le> mx)"
proof (induction ps arbitrary: out)
  case (Cons p ps)
  then show ?case using Cons.IH [of "add_key p out"] by (auto simp: Let_def split: if_splits)
qed simp

end
