(* ===== verification/Resolve_Limits.thy ===== *)
theory Resolve_Limits
  imports Resolve_Ranges
begin

text \<open>
  When an expansion answers: the limits are met exactly when what there is to visit and to collect fits them.
\<close>

subsection \<open>An evaluation inside its limits\<close>

text \<open>\<open>S\<close> bounds the states walked, \<open>R\<close> the ranges collected.\<close>

definition good :: "evalEnv \<Rightarrow> (SetRef \<times> opStack) set \<Rightarrow> PrefixRange set \<Rightarrow> evaluator \<Rightarrow> bool" where
  "good env S R v \<longleftrightarrow>
     distinct (evDone v) \<and> evVisits v = length (evDone v) \<and> evVisits v \<le> maxVisited (envE env) \<and> set (evDone v) \<subseteq> S \<and>
     distinct (evOut v) \<and> length (evOut v) \<le> envMax env \<and> set (evOut v) \<subseteq> R"

definition room :: "evalEnv \<Rightarrow> (SetRef \<times> opStack) set \<Rightarrow> PrefixRange set \<Rightarrow> bool" where
  "room env S R \<longleftrightarrow> finite S \<and> card S \<le> maxVisited (envE env) \<and> finite R \<and> card R \<le> envMax env"

definition closed :: "evalEnv \<Rightarrow> (SetRef \<times> opStack) set \<Rightarrow> PrefixRange set \<Rightarrow> bool" where
  "closed env S R \<longleftrightarrow> (\<forall>x\<in>S. contrib env x \<subseteq> R \<and> nexts env x \<subseteq> S)"

text \<open>A result stays inside the limits, and is an error only when there is no room.\<close>

fun fitting :: "evalEnv \<Rightarrow> (SetRef \<times> opStack) set \<Rightarrow> PrefixRange set \<Rightarrow> resolve_error + evaluator \<Rightarrow> bool" where
  "fitting env S R (Inl err) \<longleftrightarrow> \<not> room env S R"
| "fitting env S R (Inr v) \<longleftrightarrow> good env S R v"

definition fits_opt :: "evalEnv \<Rightarrow> (SetRef \<times> opStack) set \<Rightarrow> PrefixRange set \<Rightarrow> (resolve_error + evaluator) option \<Rightarrow> bool" where
  "fits_opt env S R res \<longleftrightarrow> (\<forall>r. res = Some r \<longrightarrow> fitting env S R r)"

lemma fits_opt_simps [simp]: "fits_opt env S R None" "fits_opt env S R (Some r) = fitting env S R r"
  by (simp_all add: fits_opt_def)

lemma subset_length: "distinct xs \<Longrightarrow> set xs \<subseteq> A \<Longrightarrow> finite A \<Longrightarrow> length xs \<le> card A"
  by (metis card_mono distinct_card)

lemma eval_add_fits:
  assumes "good env S R v" "kept env ops r \<subseteq> R"
  shows "fitting env S R (eval_add env ops r v)"
proof (cases "stack_apply ops r")
  case None
  then show ?thesis using assms by (simp add: eval_add_def)
next
  case (Some r')
  show ?thesis
  proof (cases "afiAllows (envE env) (rprefix r')")
    case True
    then have "set (add_key r' (evOut v)) \<subseteq> R" "distinct (add_key r' (evOut v))" using assms Some by (auto simp: kept_def good_def)
    then show ?thesis
      using assms(1) Some True subset_length [of "add_key r' (evOut v)" R] by (auto simp: eval_add_def Let_def good_def room_def)
  qed (use assms Some in \<open>simp add: eval_add_def\<close>)
qed

lemma addRoutes_fits:
  "good env S R v \<Longrightarrow> route_out env ops ps \<subseteq> R \<Longrightarrow> fitting env S R (addRoutes env ops ps v)"
proof (induction ps arbitrary: v)
  case (Cons p ps)
  have rest: "route_out env ops ps \<subseteq> R" using Cons.prems(2) by (auto simp: route_out_def)
  show ?case
  proof (cases "prefix_isValid p")
    case True
    then have "kept env ops (exact_range p) \<subseteq> R" using Cons.prems(2) by (auto simp: route_out_def)
    then have "fitting env S R (eval_add env ops (exact_range p) v)" by (rule eval_add_fits [OF Cons.prems(1)])
    then show ?thesis using Cons.IH [OF _ rest] True by (auto split: sum.split)
  qed (use Cons.IH [OF Cons.prems(1) rest] in simp)
qed simp

lemma walk_claims_fits:
  "good env S R v \<Longrightarrow> (\<Union>c\<in>set cs. route_out env ops (claim_prefixes env c)) \<subseteq> R \<Longrightarrow> fitting env S R (walk_claims env ops cs v)"
proof (induction cs arbitrary: v)
  case (Cons c cs)
  have "fitting env S R (addRoutes env ops (claim_prefixes env c) v)" using Cons.prems by (intro addRoutes_fits) auto
  then show ?case using Cons by (auto split: sum.split)
qed simp

definition walker_fits :: "evalEnv \<Rightarrow> (SetRef \<times> opStack) set \<Rightarrow> PrefixRange set \<Rightarrow> walker \<Rightarrow> bool" where
  "walker_fits env S R w \<longleftrightarrow>
     (\<forall>ref ops v. good env S R v \<longrightarrow> (ref, ops) \<in> S - set (evDone v) \<longrightarrow> fits_opt env S R (w ref ops v))"

lemma walk_member_fits:
  assumes w: "walker_fits env S R w" and v: "good env S R v"
    and m: "member_out env ops m \<subseteq> R" "member_next env ref ops m \<subseteq> S"
  shows "fits_opt env S R (walk_member w env ref ops m v)"
proof (cases "mKind m")
  case MemberSet
  show ?thesis
  proof (cases "follows env ref m \<and> (member_Ref m, stack_push ops (mOp m)) \<notin> set (evDone v)")
    case True
    then have "(member_Ref m, stack_push ops (mOp m)) \<in> S - set (evDone v)" using m(2) by (simp add: member_next_def)
    then have "fits_opt env S R (w (member_Ref m) (stack_push ops (mOp m)) v)" using w v by (simp add: walker_fits_def)
    then show ?thesis using True MemberSet v by (simp add: walk_member_def follows_def Let_def)
  qed (use MemberSet v in \<open>auto simp: walk_member_def follows_def Let_def\<close>)
qed (use v m in \<open>auto simp: walk_member_def member_out_def intro: eval_add_fits addRoutes_fits\<close>)

lemma walk_members_fits:
  assumes w: "walker_fits env S R w"
  shows "good env S R v \<Longrightarrow> (\<Union>m\<in>set ms. member_out env ops m) \<subseteq> R \<Longrightarrow> (\<Union>m\<in>set ms. member_next env ref ops m) \<subseteq> S \<Longrightarrow>
    fits_opt env S R (walk_members w env ref ops ms v)"
proof (induction ms arbitrary: v)
  case (Cons m ms)
  have "fits_opt env S R (walk_member w env ref ops m v)" using Cons.prems by (intro walk_member_fits [OF w]) auto
  then show ?case using Cons by (auto split: option.split sum.split)
qed simp

lemma walk_fits:
  assumes "closed env S R"
  shows "walker_fits env S R (walk fuel env)"
proof (induction fuel)
  case (Suc fuel)
  have "fits_opt env S R (walk (Suc fuel) env ref ops v)" if v: "good env S R v" and x: "(ref, ops) \<in> S - set (evDone v)" for ref ops v
  proof -
    define v1 where "v1 = v\<lparr>evDone := (ref, ops) # evDone v, evVisits := evVisits v + 1\<rparr>"
    note walk_v1 = walk.simps(2) [of fuel env ref ops v, folded v1_def, unfolded Let_def, folded v1_def]
    have d: "distinct (evDone v1)" "set (evDone v1) \<subseteq> S" "evVisits v1 = length (evDone v1)" using v x by (auto simp: v1_def good_def)
    have cl: "contrib env (ref, ops) \<subseteq> R" "nexts env (ref, ops) \<subseteq> S" using assms x by (auto simp: closed_def)
    show ?thesis
    proof (cases "evVisits v1 > maxVisited (envE env)")
      case True
      then have "\<not> room env S R" using subset_length [OF d(1,2)] d(3) by (auto simp: room_def)
      then show ?thesis unfolding walk_v1 using True by simp
    next
      case False
      then have g: "good env S R v1" using v d by (simp add: good_def v1_def)
      show ?thesis
      proof (cases "map_of (gNodes (envG env)) ref")
        case None
        then show ?thesis unfolding walk_v1 using False g by simp
      next
        case (Some nd)
        have "fits_opt env S R (walk_members (walk fuel env) env ref ops (members (ndSet nd)) v1)"
          using cl Some by (intro walk_members_fits [OF Suc g]) (auto simp: contrib_def nexts_def)
        moreover have "fitting env S R (walk_claims env ops (ndClaims nd) v')" if "good env S R v'" for v'
          using cl(1) Some by (intro walk_claims_fits [OF that]) (auto simp: contrib_def)
        ultimately show ?thesis unfolding walk_v1 using False Some by (auto split: option.split sum.split)
      qed
    qed
  qed
  then show ?case by (simp add: walker_fits_def del: walk.simps)
qed (simp add: walker_fits_def)

subsection \<open>When an expansion answers\<close>

definition routes_answered :: "Expander \<Rightarrow> SetRef \<Rightarrow> bool" where
  "routes_answered e start \<longleftrightarrow> (\<forall>a\<in>denoted_ases e start. \<not> isl (OriginatedRoutes (Src e) a (expAFI e)))"

lemma fetch_each_total: "\<not> isl (fetch_each e as) \<longleftrightarrow> (\<forall>a\<in>set as. \<not> isl (OriginatedRoutes (Src e) a (expAFI e)))"
proof (induction as)
  case (Cons a as)
  then show ?case
    by (cases "OriginatedRoutes (Src e) a (expAFI e)"; cases "fetch_each e as") (auto split: source_error.split)
qed simp

lemma fetchRoutes_total:
  assumes "graph_ok e start g"
  shows "\<not> isl (fetchRoutes e g) \<longleftrightarrow> routes_answered e start"
proof -
  have "set (foldl (\<lambda>need a. add_key a need) [] (concat (map (\<lambda>(n, nd). node_ases e nd) (ordered g)))) =
      set (concat (map (\<lambda>(n, nd). node_ases e nd) (gNodes g)))"
    by (simp add: foldl_add_key set_ordered)
  then show ?thesis unfolding fetchRoutes_def fetch_each_total routes_answered_def using graph_ases [OF assms] by simp
qed

lemma fits_start: "good env S R start_eval"
  by (simp add: good_def start_eval_def)

text \<open>The limits an expansion is held to.\<close>

definition within_limits :: "Expander \<Rightarrow> SetRef \<Rightarrow> nat \<Rightarrow> bool" where
  "within_limits e start mx \<longleftrightarrow>
     finite (path_states e start) \<and> card (path_states e start) \<le> maxVisited e \<and>
     finite (denoted_ranges e start) \<and> card (denoted_ranges e start) \<le> mx"

lemma walk_answers:
  assumes ok: "graph_ok e start g" and rs: "fetchRoutes e g = Inr rs" and tidy: "tidy e start" and s0: "fetchOne e start = Inr s0"
  shows "(\<exists>v. walk (maxVisited e + 1) (env_of e g rs mx) start zeroStack start_eval = Some (Inr v)) \<longleftrightarrow> within_limits e start mx"
proof -
  let ?env = "env_of e g rs mx" and ?S = "path_states e start" and ?R = "denoted_ranges e start"
  have S: "(steps ?env)\<^sup>* `` {(start, zeroStack)} = ?S" by (rule steps_path_states [OF ok s0])
  have R: "(\<Union>x\<in>?S. contrib ?env x) = ?R" by (rule contrib_denoted [OF ok rs tidy])
  have "nexts ?env x \<subseteq> ?S" if "x \<in> ?S" for x
    using that unfolding S [symmetric] by (auto simp: steps_def intro: rtrancl_into_rtrancl)
  then have "closed ?env ?S ?R" unfolding closed_def using R by blast
  moreover have "(start, zeroStack) \<in> ?S" using S by blast
  ultimately have f: "fits_opt ?env ?S ?R (walk (maxVisited e + 1) ?env start zeroStack start_eval)"
    using walk_fits [of ?env ?S ?R "maxVisited e + 1"] fits_start by (auto simp: walker_fits_def start_eval_def simp del: walk.simps)
  obtain r where r: "walk (maxVisited e + 1) ?env start zeroStack start_eval = Some r"
    using walk_total [of ?env start zeroStack] by (auto simp del: walk.simps)
  show ?thesis
  proof (cases r)
    case (Inl err)
    then show ?thesis using f r by (simp add: within_limits_def room_def del: walk.simps)
  next
    case (Inr v)
    have c: "set (evDone v) = ?S" "set (evOut v) = ?R" using walk_collects [OF r [unfolded Inr]] unfolding S R [symmetric] by auto
    have "good ?env ?S ?R v" using f r Inr by (simp del: walk.simps)
    then have "card ?S \<le> maxVisited e" "card ?R \<le> mx" unfolding good_def c [symmetric] by (simp_all add: distinct_card)
    then show ?thesis using c r Inr unfolding within_limits_def by (metis List.finite_set)
  qed
qed

lemma expandRanges_when:
  assumes tidy: "tidy e start"
  shows "(\<exists>out. expandRanges e start mx = Some (Inr out)) \<longleftrightarrow>
    set_class (ref_name start) \<in> {ClassAsSet, ClassRouteSet} \<and> explorable e start \<and> claims_answered e start \<and>
    routes_answered e start \<and> within_limits e start mx" (is "?L \<longleftrightarrow> ?R")
proof
  assume ?L
  then obtain g rs v where g: "discover e start False = Inr g" "fetchRoutes e g = Inr rs"
      "walk (maxVisited e + 1) (env_of e g rs mx) start zeroStack start_eval = Some (Inr v)"
      "set_class (ref_name start) \<in> {ClassAsSet, ClassRouteSet}"
    by (auto simp: expandRanges_def env_of_def split: if_splits sum.splits option.splits simp del: walk.simps)
  have ok: "graph_ok e start g" "explorable e start" "claims_answered e start" using discover_sound [OF g(1)] by blast+
  then obtain s0 where s0: "fetchOne e start = Inr s0" by (cases "fetchOne e start") (auto simp: explorable_def)
  have "routes_answered e start" using fetchRoutes_total [OF ok(1)] g(2) by simp
  then show ?R using walk_answers [OF ok(1) g(2) tidy s0] g(3,4) ok by blast
next
  assume r: ?R
  then obtain g where g: "discover e start False = Inr g" using discover_total by blast
  then have ok: "graph_ok e start g" using discover_sound by blast
  obtain rs where rs: "fetchRoutes e g = Inr rs" using fetchRoutes_total [OF ok] r by (cases "fetchRoutes e g") auto
  obtain s0 where s0: "fetchOne e start = Inr s0" using r by (cases "fetchOne e start") (auto simp: explorable_def)
  obtain v where "walk (maxVisited e + 1) (env_of e g rs mx) start zeroStack start_eval = Some (Inr v)"
    using walk_answers [OF ok rs tidy s0, of mx] r by blast
  then show ?L using r g rs by (auto simp: expandRanges_def env_of_def simp del: walk.simps)
qed

lemma ExpandPrefixRanges_Some: "ExpandPrefixRanges e ref = Some (Inr out) \<longleftrightarrow> (\<exists>n. expandRanges e ref (maxPrefixes e) = Some (Inr (out, n)))"
proof (cases "expandRanges e ref (maxPrefixes e)")
  case (Some r)
  then show ?thesis by (cases r) (auto simp: ExpandPrefixRanges_def)
qed (simp add: ExpandPrefixRanges_def)

subsection \<open>Prefixes\<close>

lemma apply_path_wf: "wf_range r \<Longrightarrow> \<not> range_IsEmpty r \<Longrightarrow> apply_path ops r = Some r' \<Longrightarrow> wf_range r'"
proof (induction ops arbitrary: r rule: rev_induct)
  case (snoc oper ops)
  then show ?case using op_Apply_wf [OF snoc.prems(1,2)] by (auto simp: apply_path_snoc split: option.splits)
qed simp

lemma denoted_wf: "tidy e start \<Longrightarrow> r \<in> denoted_ranges e start \<Longrightarrow> wf_range r"
  unfolding denoted_ranges_def tidy_def using apply_path_wf path_reachable by blast

definition denoted_prefixes :: "Expander \<Rightarrow> SetRef \<Rightarrow> prefix set" where
  "denoted_prefixes e start = {p. wf_prefix p \<and> Masked p = p \<and> (\<exists>r\<in>denoted_ranges e start. range_Contains r p)}"

lemma ranges_prefixes:
  assumes "tidy e start" "set (rsM out) = denoted_ranges e start"
  shows "set (concat (map range_All (rangeset_List out))) = denoted_prefixes e start"
  using set_range_All denoted_wf [OF assms(1)] assms(2) by (auto simp: rangeset_List_def denoted_prefixes_def)

lemma ExpandPrefixes_denotes:
  assumes "ExpandPrefixes e start = Some (Inr out)" "tidy e start"
  shows "set (psM out) = denoted_prefixes e start \<and> distinct (psM out) \<and> length (psM out) \<le> maxPrefixes e \<and>
    set (psMissing out) = {n \<in> reachable e start. fetchOne e n = Inl ErrNotFoundR}"
proof -
  obtain rs n where r: "expandRanges e start maxInt = Some (Inr (rs, n))"
      "add_prefixes start (maxPrefixes e) (concat (map range_All (rangeset_List rs))) [] = Inr (psM out)" "psMissing out = rsMissing rs"
    using assms(1) by (auto simp: ExpandPrefixes_def split: option.splits sum.splits)
  note d = expandRanges_denotes [OF r(1) assms(2)]
  show ?thesis using add_prefixes_set [OF r(2)] ranges_prefixes [OF assms(2), of rs] d r(3) by simp
qed

text \<open>The cap on prefixes counts each of them once.\<close>

lemma add_prefixes_total:
  "distinct out \<Longrightarrow> length out \<le> mx \<Longrightarrow> (\<exists>out'. add_prefixes ref mx ps out = Inr out') \<longleftrightarrow> card (set out \<union> set ps) \<le> mx"
proof (induction ps arbitrary: out)
  case (Cons p ps)
  have e: "set (add_key p out) \<union> set ps = set out \<union> set (p # ps)" by auto
  have "length (add_key p out) \<le> card (set out \<union> set (p # ps))"
    using Cons.prems(1) by (intro subset_length) auto
  then show ?case using Cons.IH [of "add_key p out"] Cons.prems e by (auto simp: Let_def)
qed (simp add: distinct_card)

lemma ExpandPrefixes_when:
  assumes tidy: "tidy e start"
  shows "(\<exists>out. ExpandPrefixes e start = Some (Inr out)) \<longleftrightarrow>
    (\<exists>rs. expandRanges e start maxInt = Some (Inr rs)) \<and> card (denoted_prefixes e start) \<le> maxPrefixes e"
proof (cases "\<exists>rs. expandRanges e start maxInt = Some (Inr rs)")
  case True
  then obtain rs n where r: "expandRanges e start maxInt = Some (Inr (rs, n))" by auto
  then have "set (concat (map range_All (rangeset_List rs))) = denoted_prefixes e start"
    using ranges_prefixes [OF tidy] expandRanges_denotes [OF _ tidy] by blast
  then have "(\<exists>ps. add_prefixes start (maxPrefixes e) (concat (map range_All (rangeset_List rs))) [] = Inr ps) \<longleftrightarrow>
      card (denoted_prefixes e start) \<le> maxPrefixes e"
    using add_prefixes_total [of "[]" "maxPrefixes e" start] by simp
  then show ?thesis using r by (auto simp: ExpandPrefixes_def split: sum.splits)
next
  case False
  then show ?thesis by (auto simp: ExpandPrefixes_def split: option.splits sum.splits)
qed

end
