(* ===== verification/Mem_Source.thy ===== *)
theory Mem_Source
  imports Resolve_Limits
begin

text \<open>
  The source over decoded objects (\<^verbatim>\<open>src/resolve/memsource.go\<close>): its indexes of sets, routes and claims, and what
  they answer in terms of the objects alone.  Go maps are functions with a default.  \<open>uni\<close> is what \<^verbatim>\<open>strings.ToUpper\<close> makes of
  text outside ASCII.
\<close>

subsection \<open>Definitions\<close>

record memSet =
  msSet :: NamedSet
  msSource :: string

record MemSource =
  msSets :: "SetName \<Rightarrow> memSet list"
  msDflt :: "(string \<Rightarrow> bool) option"
  msRoutes :: "asn \<Rightarrow> prefix list"
  msClaims :: "string \<Rightarrow> iface list"

fun rank :: "string list \<Rightarrow> string \<Rightarrow> nat" where
  "rank [] source = 0"
| "rank (src # prec) source = (if equalFoldASCII source (TrimSpace src) then 0 else Suc (rank prec source))"

definition admits :: "(string \<Rightarrow> string) \<Rightarrow> (string \<Rightarrow> bool) option \<Rightarrow> string \<Rightarrow> bool" where
  "admits uni dflt source = (case dflt of None \<Rightarrow> True | Some f \<Rightarrow> f (ToUpperWith uni (TrimSpace source)))"

fun sourceOf :: "iface \<Rightarrow> string" where
  "sourceOf (Ptr (ORoute t)) = osource t"
| "sourceOf (Ptr (ORoute6 t)) = osource t"
| "sourceOf (Ptr (OAutNum t)) = osource t"
| "sourceOf (Ptr (OInetRtr t)) = osource t"
| "sourceOf (Ptr (OSet k s)) = osource s"
| "sourceOf _ = []"

fun routeOf :: "iface \<Rightarrow> (prefix \<times> asn) option" where
  "routeOf (Ptr (ORoute t)) =
     (if prefix_isValid (rPrefix t) \<and> (rOrigin t \<noteq> 0 \<or> asnDecodes (oraw t) ''origin'') then Some (rPrefix t, rOrigin t) else None)"
| "routeOf (Ptr (ORoute6 t)) =
     (if prefix_isValid (rPrefix t) \<and> (rOrigin t \<noteq> 0 \<or> asnDecodes (oraw t) ''origin'') then Some (rPrefix t, rOrigin t) else None)"
| "routeOf _ = None"

fun claim_loop :: "iface \<Rightarrow> SetName list \<Rightarrow> SetName list \<Rightarrow> (string \<Rightarrow> iface list) \<Rightarrow> string \<Rightarrow> iface list" where
  "claim_loop ob seen [] claims = claims"
| "claim_loop ob seen (n # ns) claims =
     (if n \<in> set seen then claim_loop ob seen ns claims
      else claim_loop ob (n # seen) ns (claims(set_canon n := claims (set_canon n) @ [ob])))"

definition indexClaims :: "iface \<Rightarrow> (string \<Rightarrow> iface list) \<Rightarrow> string \<Rightarrow> iface list" where
  "indexClaims ob claims = (case claimant ob of None \<Rightarrow> claims | Some (memberOf, _, _) \<Rightarrow> claim_loop ob [] memberOf claims)"

fun set_copy :: "(string \<Rightarrow> string) \<Rightarrow> iface \<Rightarrow> memSet option" where
  "set_copy uni (Ptr (OSet k s)) = Some \<lparr>msSet = (k, s), msSource = ToUpperWith uni (TrimSpace (osource s))\<rparr>"
| "set_copy uni _ = None"

definition copy_name :: "memSet \<Rightarrow> SetName" where
  "copy_name c = sName (snd (msSet c))"

definition index_object :: "(string \<Rightarrow> string) \<Rightarrow> MemSource \<Rightarrow> iface \<Rightarrow> MemSource" where
  "index_object uni m ob =
     (if isNilObject ob then m
      else m\<lparr>msSets := (case set_copy uni ob of
                None \<Rightarrow> msSets m
              | Some c \<Rightarrow> (msSets m)(copy_name c := msSets m (copy_name c) @ [c])),
            msRoutes := (case routeOf ob of
                None \<Rightarrow> msRoutes m
              | Some (p, origin) \<Rightarrow>
                  if admits uni (msDflt m) (sourceOf ob) then (msRoutes m)(origin := msRoutes m origin @ [p]) else msRoutes m),
            msClaims := indexClaims ob (msClaims m)\<rparr>)"

definition finish_sets :: "string list \<Rightarrow> MemSource \<Rightarrow> MemSource" where
  "finish_sets prec m = m\<lparr>msSets := (\<lambda>n. SliceStable (\<lambda>a b. rank prec (msSource a) < rank prec (msSource b)) (msSets m n))\<rparr>"

definition newMemSource :: "(string \<Rightarrow> string) \<Rightarrow> iface list \<Rightarrow> string list \<Rightarrow> (string \<Rightarrow> bool) option \<Rightarrow> MemSource" where
  "newMemSource uni objs prec dflt =
     finish_sets prec (foldl (index_object uni) \<lparr>msSets = (\<lambda>_. []), msDflt = dflt, msRoutes = (\<lambda>_. []), msClaims = (\<lambda>_. [])\<rparr> objs)"

definition NewMemSource :: "(string \<Rightarrow> string) \<Rightarrow> iface list \<Rightarrow> string list \<Rightarrow> MemSource" where
  "NewMemSource uni objs prec = newMemSource uni objs prec None"

definition copy_found :: "(string \<Rightarrow> string) \<Rightarrow> (string \<Rightarrow> bool) option \<Rightarrow> SetRef \<Rightarrow> memSet \<Rightarrow> bool" where
  "copy_found uni dflt ref c \<longleftrightarrow> (if IsScoped ref then msSource c = ref_source ref else admits uni dflt (msSource c))"

definition src_GetSet :: "(string \<Rightarrow> string) \<Rightarrow> MemSource \<Rightarrow> SetRef \<Rightarrow> source_error + NamedSet option" where
  "src_GetSet uni m ref =
     (case find (copy_found uni (msDflt m) ref) (msSets m (ref_name ref)) of
        Some c \<Rightarrow> Inr (Some (msSet c))
      | None \<Rightarrow> Inl SrcNotFound)"

definition afiMatches :: "AFI \<Rightarrow> prefix \<Rightarrow> bool" where
  "afiMatches fam p = (case fam of AFIv4 \<Rightarrow> Is4 (Addr p) | AFIv6 \<Rightarrow> Is6 (Addr p) | _ \<Rightarrow> True)"

definition src_OriginatedRoutes :: "MemSource \<Rightarrow> asn \<Rightarrow> AFI \<Rightarrow> source_error + prefix list" where
  "src_OriginatedRoutes m a fam = Inr (filter (afiMatches fam) (msRoutes m a))"

definition src_MembersByRef :: "MemSource \<Rightarrow> NamedSet \<Rightarrow> source_error + iface list" where
  "src_MembersByRef m s = Inr (filter (\<lambda>ob. ClaimAllowed ob s) (msClaims m (set_canon (sName (snd s)))))"

definition mem_Source :: "(string \<Rightarrow> string) \<Rightarrow> MemSource \<Rightarrow> Source" where
  "mem_Source uni m =
     \<lparr>GetSet = src_GetSet uni m, OriginatedRoutes = src_OriginatedRoutes m, MembersByRef = src_MembersByRef m\<rparr>"

subsection \<open>The indexes\<close>

definition copies :: "(string \<Rightarrow> string) \<Rightarrow> iface list \<Rightarrow> SetName \<Rightarrow> memSet list" where
  "copies uni objs n = filter (\<lambda>c. copy_name c = n) (List.map_filter (set_copy uni) objs)"

definition origin_routes :: "(string \<Rightarrow> string) \<Rightarrow> (string \<Rightarrow> bool) option \<Rightarrow> iface list \<Rightarrow> asn \<Rightarrow> prefix list" where
  "origin_routes uni dflt objs a =
     map fst (filter (\<lambda>(p, origin). origin = a) (List.map_filter routeOf (filter (\<lambda>ob. admits uni dflt (sourceOf ob)) objs)))"

definition claims_named :: "iface \<Rightarrow> string \<Rightarrow> bool" where
  "claims_named ob canon \<longleftrightarrow> (\<exists>memberOf mntBy source. claimant ob = Some (memberOf, mntBy, source) \<and> canon \<in> set_canon ` set memberOf)"

lemma nil_indexes: "isNilObject ob \<Longrightarrow> set_copy uni ob = None \<and> routeOf ob = None \<and> claimant ob = None"
  by (cases ob) auto

lemma set_claim_loop:
  "set (claim_loop ob seen ns claims c) = set (claims c) \<union> (if c \<in> set_canon ` (set ns - set seen) then {ob} else {})"
proof (induction ns arbitrary: seen claims)
  case (Cons n ns)
  show ?case
  proof (cases "n \<in> set seen")
    case True
    then have "set (n # ns) - set seen = set ns - set seen" by auto
    then show ?thesis using Cons [of seen claims] True by simp
  next
    case False
    have "set_canon ` (set (n # ns) - set seen) = insert (set_canon n) (set_canon ` (set ns - set (n # seen)))"
      using False by auto
    then show ?thesis using Cons [of "n # seen"] False by auto
  qed
qed simp

lemma set_indexClaims: "set (indexClaims ob claims c) = set (claims c) \<union> (if claims_named ob c then {ob} else {})"
  by (auto simp: indexClaims_def claims_named_def set_claim_loop split: option.splits)

lemma foldl_index:
  "msSets (foldl (index_object uni) m objs) n = msSets m n @ copies uni objs n \<and>
   msRoutes (foldl (index_object uni) m objs) a = msRoutes m a @ origin_routes uni (msDflt m) objs a \<and>
   set (msClaims (foldl (index_object uni) m objs) c) = set (msClaims m c) \<union> {ob \<in> set objs. claims_named ob c} \<and>
   msDflt (foldl (index_object uni) m objs) = msDflt m"
proof (induction objs arbitrary: m)
  case (Cons ob objs)
  have d: "msDflt (index_object uni m ob) = msDflt m" by (simp add: index_object_def)
  have s: "msSets (index_object uni m ob) n @ copies uni objs n = msSets m n @ copies uni (ob # objs) n"
    using nil_indexes [of ob uni] by (auto simp: index_object_def copies_def List.map_filter_simps split: option.split)
  have r: "msRoutes (index_object uni m ob) a @ origin_routes uni (msDflt m) objs a = msRoutes m a @ origin_routes uni (msDflt m) (ob # objs) a"
    using nil_indexes [of ob uni] by (auto simp: index_object_def origin_routes_def List.map_filter_simps split: option.split)
  have c: "set (msClaims (index_object uni m ob) c) = set (msClaims m c) \<union> (if claims_named ob c then {ob} else {})"
    using nil_indexes [of ob uni] by (auto simp: index_object_def set_indexClaims claims_named_def)
  show ?case using Cons [of "index_object uni m ob"] d s r c by auto
qed (simp add: copies_def origin_routes_def List.map_filter_simps)

subsection \<open>Precedence\<close>

lemma SliceStable_key: "SliceStable (\<lambda>a b. f a < (f b :: nat)) xs = sort_key f xs"
proof -
  have "stable_insert (\<lambda>a b. f a < f b) x ys = insort_key f x ys" for x ys by (induction ys) auto
  then have "stable_insert (\<lambda>a b. f a < f b) = insort_key f" by blast
  then show ?thesis by (simp add: SliceStable_def sort_key_def)
qed

text \<open>The first of the elements with the least key.\<close>

definition preferred :: "('a \<Rightarrow> nat) \<Rightarrow> 'a list \<Rightarrow> 'a" where
  "preferred f xs = hd (filter (\<lambda>x. \<forall>y\<in>set xs. f x \<le> f y) xs)"

lemma hd_sort_key:
  assumes "xs \<noteq> []"
  shows "hd (sort_key f xs) = preferred f xs"
proof -
  obtain y ys where y: "sort_key f xs = y # ys" using assms by (metis length_0_conv length_sort list.exhaust)
  have "sorted (map f (y # ys))" using sorted_sort_key [of f xs] y by simp
  moreover have "set xs = set (y # ys)" using set_sort [of f xs] y by simp
  ultimately have "filter (\<lambda>x. \<forall>z\<in>set xs. f x \<le> f z) xs = filter (\<lambda>x. f x = f y) xs"
    by (intro filter_cong) (auto intro: order_antisym)
  also have "\<dots> = filter (\<lambda>x. f x = f y) (sort_key f xs)" using sort_key_stable [of f "f y" xs] by (simp add: eq_commute)
  finally show ?thesis by (simp add: preferred_def y)
qed

lemma find_sorted:
  "find P (sort_key f xs) = (if filter P xs = [] then None else Some (preferred f (filter P xs)))"
proof -
  have h: "find P ys = (if filter P ys = [] then None else Some (hd (filter P ys)))" for ys by (induction ys) auto
  have "sort_key f (filter P xs) = [] \<longleftrightarrow> filter P xs = []" by (metis length_0_conv length_sort)
  then show ?thesis unfolding h filter_sort using hd_sort_key [of "filter P xs" f] by simp
qed

subsection \<open>What the source answers\<close>

lemma new_MemSource:
  "msSets (newMemSource uni objs prec dflt) n = sort_key (\<lambda>c. rank prec (msSource c)) (copies uni objs n)"
  "msRoutes (newMemSource uni objs prec dflt) a = origin_routes uni dflt objs a"
  "set (msClaims (newMemSource uni objs prec dflt) c) = {ob \<in> set objs. claims_named ob c}"
  "msDflt (newMemSource uni objs prec dflt) = dflt"
  using foldl_index [of uni "\<lparr>msSets = (\<lambda>_. []), msDflt = dflt, msRoutes = (\<lambda>_. []), msClaims = (\<lambda>_. [])\<rparr>" objs n a c]
  by (simp_all add: newMemSource_def finish_sets_def SliceStable_key)

definition found_copies :: "(string \<Rightarrow> string) \<Rightarrow> iface list \<Rightarrow> (string \<Rightarrow> bool) option \<Rightarrow> SetRef \<Rightarrow> memSet list" where
  "found_copies uni objs dflt ref = filter (copy_found uni dflt ref) (copies uni objs (ref_name ref))"

lemma mem_GetSet:
  "GetSet (mem_Source uni (newMemSource uni objs prec dflt)) ref =
     (if found_copies uni objs dflt ref = [] then Inl SrcNotFound
      else Inr (Some (msSet (preferred (\<lambda>c. rank prec (msSource c)) (found_copies uni objs dflt ref)))))"
  by (simp add: mem_Source_def src_GetSet_def new_MemSource find_sorted found_copies_def)

lemma mem_OriginatedRoutes:
  "OriginatedRoutes (mem_Source uni (newMemSource uni objs prec dflt)) a fam = Inr (filter (afiMatches fam) (origin_routes uni dflt objs a))"
  by (simp add: mem_Source_def src_OriginatedRoutes_def new_MemSource)

lemma allowed_named: "ClaimAllowed ob s \<Longrightarrow> claims_named ob (set_canon (sName (snd s)))"
  by (auto simp: ClaimAllowed_def claims_named_def split: option.splits if_splits)

lemma mem_MembersByRef:
  "\<exists>obs. MembersByRef (mem_Source uni (newMemSource uni objs prec dflt)) s = Inr obs \<and> set obs = {ob \<in> set objs. ClaimAllowed ob s}"
  using allowed_named [of _ s] by (auto simp: mem_Source_def src_MembersByRef_def new_MemSource)

lemma preferred_in: "xs \<noteq> [] \<Longrightarrow> preferred f xs \<in> set xs"
  using hd_sort_key [of xs f] by (metis hd_in_set length_0_conv length_sort set_sort)

subsection \<open>Sources without faults\<close>

text \<open>What an expansion asks of a source: sets of the name asked for, and no faults of its own.\<close>

locale dutiful_source =
  fixes src :: Source
  assumes set_errors: "GetSet src ref = Inl err \<Longrightarrow> err = SrcNotFound"
    and set_named: "GetSet src ref = Inr (Some s) \<Longrightarrow> sName (snd s) = ref_name ref"
    and routes_given: "OriginatedRoutes src a fam \<noteq> Inl err"
    and claims_given: "MembersByRef src s \<noteq> Inl err"

text \<open>The set a source returns for a scoped reference is from that registry, in ASCII letter case.\<close>

definition scope_agrees :: "Source \<Rightarrow> SetRef \<Rightarrow> bool" where
  "scope_agrees src ref \<longleftrightarrow>
     (\<forall>s. GetSet src ref = Inr (Some s) \<longrightarrow> IsScoped ref \<longrightarrow> equalFoldASCII (TrimSpace (osource (snd s))) (ref_source ref))"

context dutiful_source
begin

lemma sets_answered:
  assumes "Src e = src"
  shows "answered e n \<longleftrightarrow> scope_agrees src n"
proof (cases "GetSet src n")
  case (Inl err)
  then show ?thesis using set_errors [OF Inl] assms by (simp add: answered_def fetchOne_def scope_agrees_def)
next
  case (Inr s)
  then show ?thesis using set_named [of n] assms
    by (cases s) (auto simp: answered_def fetchOne_def checkSet_def scope_agrees_def split: if_splits)
qed

lemma claims_always: "Src e = src \<Longrightarrow> claims_answered e start"
  using claims_given by (auto simp: claims_answered_def claimsOf_def isl_def split: sum.splits)

lemma routes_always: "Src e = src \<Longrightarrow> routes_answered e start"
  using routes_given by (auto simp: routes_answered_def isl_def)

lemma explorable_limits:
  assumes "Src e = src"
  shows "explorable e start \<longleftrightarrow>
    reachable e start \<subseteq> within e start (maxDepth e) \<and> finite (reachable e start) \<and> card (reachable e start) \<le> maxVisited e \<and>
    (\<forall>n\<in>reachable e start. \<not> IsAny (ref_name n) \<and> scope_agrees src n) \<and> \<not> isl (fetchOne e start)"
  using sets_answered [OF assms] by (simp add: explorable_def)

end

lemma copies_D:
  "c \<in> set (copies uni objs n) \<Longrightarrow>
     sName (snd (msSet c)) = n \<and> msSource c = ToUpperWith uni (TrimSpace (osource (snd (msSet c)))) \<and>
     Ptr (OSet (fst (msSet c)) (snd (msSet c))) \<in> set objs"
proof -
  have "set_copy uni ob = Some c \<Longrightarrow>
      msSource c = ToUpperWith uni (TrimSpace (osource (snd (msSet c)))) \<and> ob = Ptr (OSet (fst (msSet c)) (snd (msSet c)))" for ob
    by (cases "(uni, ob)" rule: set_copy.cases) auto
  then show "c \<in> set (copies uni objs n) \<Longrightarrow> ?thesis" by (auto simp: copies_def copy_name_def List.map_filter_def)
qed

lemma fold_upper: "isASCII s \<Longrightarrow> equalFoldASCII s (ToUpperWith uni s)"
  by (simp add: equalFoldASCII_def ToUpperWith_def ToUpper_def lowerASCII_def)

lemma mem_found:
  assumes "GetSet (mem_Source uni (newMemSource uni objs prec dflt)) ref = Inr (Some s)"
  shows "\<exists>c\<in>set (copies uni objs (ref_name ref)). copy_found uni dflt ref c \<and> s = msSet c"
  using assms preferred_in [of "found_copies uni objs dflt ref" "\<lambda>c. rank prec (msSource c)"]
  by (auto simp: mem_GetSet found_copies_def split: if_splits)

interpretation memsrc: dutiful_source "mem_Source uni (newMemSource uni objs prec dflt)" for uni objs prec dflt
proof
  fix ref err a fam s
  show "GetSet (mem_Source uni (newMemSource uni objs prec dflt)) ref = Inl err \<Longrightarrow> err = SrcNotFound"
    by (auto simp: mem_GetSet split: if_splits)
  show "GetSet (mem_Source uni (newMemSource uni objs prec dflt)) ref = Inr (Some s) \<Longrightarrow> sName (snd s) = ref_name ref"
    using mem_found copies_D by blast
  show "OriginatedRoutes (mem_Source uni (newMemSource uni objs prec dflt)) a fam \<noteq> Inl err" by (simp add: mem_OriginatedRoutes)
  show "MembersByRef (mem_Source uni (newMemSource uni objs prec dflt)) s \<noteq> Inl err" using mem_MembersByRef [of uni objs prec dflt s] by auto
qed

text \<open>A scope agrees when the sources of the sets are ASCII text.\<close>

definition ascii_sources :: "iface list \<Rightarrow> bool" where
  "ascii_sources objs \<longleftrightarrow> (\<forall>k s. Ptr (OSet k s) \<in> set objs \<longrightarrow> isASCII (TrimSpace (osource s)))"

lemma ascii_agrees:
  assumes "ascii_sources objs"
  shows "scope_agrees (mem_Source uni (newMemSource uni objs prec dflt)) ref"
  unfolding scope_agrees_def
proof (intro allI impI)
  fix s
  assume "GetSet (mem_Source uni (newMemSource uni objs prec dflt)) ref = Inr (Some s)" and sc: "IsScoped ref"
  then obtain c where c: "c \<in> set (copies uni objs (ref_name ref))" "copy_found uni dflt ref c" "s = msSet c" using mem_found by blast
  then have "isASCII (TrimSpace (osource (snd s)))" using copies_D [OF c(1)] assms unfolding ascii_sources_def by blast
  moreover have "ToUpperWith uni (TrimSpace (osource (snd s))) = ref_source ref" using copies_D [OF c(1)] c(2,3) sc by (simp add: copy_found_def)
  ultimately show "equalFoldASCII (TrimSpace (osource (snd s))) (ref_source ref)" using fold_upper by metis
qed

end
