(* ===== verification/Resolve_Example.thy ===== *)
theory Resolve_Example
  imports Mem_Source
begin

text \<open>
  A small registry: an as-set and a route-set that nest in a cycle, the route-set under an operator.
\<close>

definition sample_name :: "SetClass \<Rightarrow> string \<Rightarrow> SetName" where
  "sample_name cls t = \<lparr>set_canon = t, set_class = cls\<rparr>"

definition as_member :: "asn \<Rightarrow> SetMember" where
  "as_member a = (raw_member [])\<lparr>mKind := MemberAS, mAS := a\<rparr>"

definition set_member :: "SetName \<Rightarrow> RangeOperator \<Rightarrow> SetMember" where
  "set_member n oper = (raw_member [])\<lparr>mKind := MemberSet, mSet := n, mOp := oper\<rparr>"

definition range_member :: "PrefixRange \<Rightarrow> SetMember" where
  "range_member r = (raw_member [])\<lparr>mKind := MemberPrefixRange, mRange := r\<rparr>"

definition sample_set :: "SetName \<Rightarrow> SetMember list \<Rightarrow> string list \<Rightarrow> SetObject" where
  "sample_set n ms refs =
     \<lparr>MntBy = [''FOO-MNT''], osource = ''TEST'', MntLower = [], MntRoutes = [], MntIrt = [], oraw = None,
      sName = n, sMembers = ms, sMpMembers = [], sSrcMembers = [],
      sRouters = [], sMpRouters = [], sPeerings = [], sMpPeerings = [], sMbrsByRef = refs\<rparr>"

definition as_foo :: SetName where
  "as_foo = sample_name ClassAsSet ''AS-FOO''"

definition as_bar :: SetName where
  "as_bar = sample_name ClassAsSet ''AS-BAR''"

definition as_gone :: SetName where
  "as_gone = sample_name ClassAsSet ''AS-GONE''"

definition rs_foo :: SetName where
  "rs_foo = sample_name ClassRouteSet ''RS-FOO''"

definition block :: "u8 list \<Rightarrow> int \<Rightarrow> prefix" where
  "block bs n = PrefixFrom (AddrFrom4 bs) n"

definition sample_as :: NamedSet where
  "sample_as = (AsSet, sample_set as_foo [as_member 64496, set_member as_bar zeroOp] [])"

definition sample_as' :: NamedSet where
  "sample_as' = (AsSet, sample_set as_bar [as_member 64497, set_member as_foo zeroOp, set_member as_gone zeroOp] [''ANY''])"

definition sample_rs :: NamedSet where
  "sample_rs =
     (RouteSet, sample_set rs_foo
        [range_member (exact_range (block [192, 0, 2, 0] 24)), set_member rs_foo \<lparr>Op = RangeLength, opN = 25, opM = 25\<rparr>,
         set_member as_foo zeroOp] [])"

definition sample_claim :: AutNum where
  "sample_claim =
     \<lparr>MntBy = [''BAR-MNT''], osource = ''test'', MntLower = [], MntRoutes = [], MntIrt = [], oraw = None,
      anAS = 64498, anMemberOf = [as_bar]\<rparr>"

definition sample_prefix :: "u8 \<Rightarrow> prefix" where
  "sample_prefix b = block [198, 51, 100, b] 31"

definition sample_source :: Source where
  "sample_source =
     \<lparr>GetSet = (\<lambda>r. if r = Ref as_foo then Inr (Some sample_as)
                    else if r = Ref as_bar then Inr (Some sample_as')
                    else if r = Ref rs_foo then Inr (Some sample_rs)
                    else Inl SrcNotFound),
      OriginatedRoutes = (\<lambda>a fam. Inr (if a = 64496 then [sample_prefix 0] else if a = 64498 then [sample_prefix 2] else [])),
      MembersByRef = (\<lambda>s. Inr (if s = sample_as' then [Ptr (OAutNum sample_claim)] else []))\<rparr>"

definition sample_expander :: Expander where
  "sample_expander =
     \<lparr>Src = sample_source, MaxDepth = 4, MaxPrefixes = 9, MaxVisited = 12, expAFI = AFIAny, Exclude = \<lparr>exSets = [], exASNs = []\<rparr>\<rparr>"

lemma sample_ExpandAS:
  "ExpandAS sample_expander (Ref as_foo) =
     Inr \<lparr>asM = [64496, 64497, 64498], asMissing = [Ref as_gone], asAny = False\<rparr>"
  by code_simp

definition sample_ranges :: "PrefixRange list" where
  "sample_ranges =
     [exact_range (block [192, 0, 2, 0] 24), \<lparr>rprefix = block [192, 0, 2, 0] 24, rlo = 25, rhi = 25\<rparr>,
      exact_range (sample_prefix 0), exact_range (sample_prefix 2)]"

lemma sample_ExpandPrefixRanges:
  "ExpandPrefixRanges sample_expander (Ref rs_foo) =
     Some (Inr \<lparr>rsM = sample_ranges,
                rsMissing = [Ref as_gone]\<rparr>)"
  by code_simp

definition sample_prefixes :: "prefix list" where
  "sample_prefixes =
     [block [192, 0, 2, 0] 24, block [192, 0, 2, 0] 25, block [192, 0, 2, 128] 25, sample_prefix 0, sample_prefix 2]"

lemma sample_ExpandPrefixes:
  "ExpandPrefixes sample_expander (Ref rs_foo) =
     Some (Inr \<lparr>psM = sample_prefixes, psMissing = [Ref as_gone]\<rparr>)"
  by code_simp

lemma checkSet_same: "checkSet ref (Some s) = Inr s' \<Longrightarrow> s' = s"
  by (auto simp: checkSet_def split: if_splits prod.splits)

lemma sample_fetch: "fetchOne sample_expander n = Inr s \<Longrightarrow> s \<in> {sample_as, sample_as', sample_rs}"
  by (auto simp: fetchOne_def sample_expander_def sample_source_def split: if_splits dest: checkSet_same)

lemma sample_routes:
  "wf_range (exact_range (sample_prefix 0))" "wf_range (exact_range (sample_prefix 2))" "wf_range (exact_range (block [192, 0, 2, 0] 24))"
  by code_simp+

lemma sample_members:
  "m \<in> set (members s) \<Longrightarrow> s \<in> {sample_as, sample_as', sample_rs} \<Longrightarrow> mKind m = MemberPrefixRange \<Longrightarrow> wf_range (mRange m)"
  using sample_routes(3)
  by (auto simp: sample_as_def sample_as'_def sample_rs_def sample_set_def DirectMembers_def SetMembers_def
      as_member_def set_member_def range_member_def)

lemma sample_tidy: "tidy sample_expander start"
proof -
  have r: "wf_range (exact_range p)" if "originates sample_expander a p" for a p
    using that sample_routes by (auto simp: originates_def sample_expander_def sample_source_def split: if_splits)
  have "wf_range r" if s: "s \<in> {sample_as, sample_as', sample_rs}" and l: "lists_range sample_expander s r os" for s r os
    using l
  proof cases
    case (lists_member m)
    then show ?thesis using sample_members s by blast
  qed (use r in \<open>auto simp: honoured_def sample_expander_def sample_source_def split: if_splits\<close>)
  then show ?thesis unfolding tidy_def using sample_fetch by blast
qed

text \<open>The same as-sets in memory, with a second copy of one from a registry of lower precedence.\<close>

definition sample_objects :: "iface list" where
  "sample_objects =
     [Ptr (OSet AsSet ((snd sample_as)\<lparr>osource := ''other'', sMembers := []\<rparr>)), Nil, Ptr (OSet AsSet (snd sample_as)),
      Ptr (OSet AsSet (snd sample_as')), Ptr (OAutNum sample_claim)]"

definition sample_memory :: Expander where
  "sample_memory = sample_expander\<lparr>Src := mem_Source id (newMemSource id sample_objects [''Test''] None)\<rparr>"

lemma sample_memory_ExpandAS:
  "ExpandAS sample_memory (Ref as_foo) = Inr \<lparr>asM = [64496, 64497, 64498], asMissing = [Ref as_gone], asAny = False\<rparr>"
  by code_simp

lemma sample_sources: "ascii_sources sample_objects"
proof -
  have "isASCII (TrimSpace ''other'')" "isASCII (TrimSpace ''TEST'')" by code_simp+
  then show ?thesis
    by (auto simp: ascii_sources_def sample_objects_def sample_as_def sample_as'_def sample_set_def)
qed

text \<open>RIPE spelt with U+0131, a dotless i, which Unicode's upper case maps to I.\<close>

definition dotless :: string where
  "dotless = [CHR ''r'', CHR 0xC4, CHR 0xB1, CHR ''p'', CHR ''e'']"

definition dotless_memory :: "(string \<Rightarrow> string) \<Rightarrow> Expander" where
  "dotless_memory uni =
     sample_expander\<lparr>Src := mem_Source uni (newMemSource uni [Ptr (OSet AsSet ((snd sample_as)\<lparr>osource := dotless\<rparr>))] [] None)\<rparr>"

definition ripe_foo :: SetRef where
  "ripe_foo = \<lparr>ref_source = ''RIPE'', ref_name = as_foo\<rparr>"

text \<open>The source finds that set for a reference to RIPE, and the expansion then fails with a fault of the source.\<close>

lemma dotless_faults:
  assumes "uni dotless = ''RIPE''"
  shows "ExpandAS (dotless_memory uni) ripe_foo = Inl (WrongAnswer ripe_foo)"
proof -
  let ?s = "(snd sample_as)\<lparr>osource := dotless\<rparr>" and ?src = "mem_Source uni (newMemSource uni [Ptr (OSet AsSet ((snd sample_as)\<lparr>osource := dotless\<rparr>))] [] None)"
  have d: "TrimSpace dotless = dotless" "\<not> isASCII dotless" "\<not> equalFoldASCII dotless ''RIPE''" "\<not> IsAny as_foo"
    "set_class as_foo = ClassAsSet" "sName (snd sample_as) = as_foo" "IsScoped ripe_foo" by code_simp+
  have "found_copies uni [Ptr (OSet AsSet ?s)] None ripe_foo = [\<lparr>msSet = (AsSet, ?s), msSource = ''RIPE''\<rparr>]"
    using d assms
    by (simp add: found_copies_def copies_def List.map_filter_simps ToUpperWith_def copy_name_def copy_found_def ripe_foo_def)
  then have "GetSet ?src ripe_foo = Inr (Some (AsSet, ?s))" by (simp add: mem_GetSet preferred_def)
  then have "fetchOne (dotless_memory uni) ripe_foo = Inl (WrongAnswer ripe_foo)"
    using d by (simp add: fetchOne_def checkSet_def dotless_memory_def ripe_foo_def)
  then have "discover (dotless_memory uni) ripe_foo False = Inl (WrongAnswer ripe_foo)"
    using d by (simp add: discover_def ripe_foo_def discover_loop.simps visit_level.simps Let_def)
  then show ?thesis using d by (simp add: ExpandAS_def expandAS_def ripe_foo_def)
qed

end
