(* ===== verification/Resolve_Properties.thy ===== *)
theory Resolve_Properties
  imports Resolve_Example
begin

text \<open>
  The properties of set expansion: what each expansion denotes, when it answers, and the operator tables that
  make it end.
\<close>

text \<open>(C31) A prefix expansion that answers returns each range once: exactly the ranges listed along every path of
  members, under the operators of the path, also through cycles.  It lists the sets that were not found.\<close>

theorem ExpandPrefixRanges_exact:
  assumes "ExpandPrefixRanges e ref = Some (Inr out)" and "tidy e ref"
  shows "set (rsM out) = denoted_ranges e ref \<and> distinct (rsM out) \<and>
    set (rsMissing out) = {n \<in> reachable e ref. fetchOne e n = Inl ErrNotFoundR}"
  using assms expandRanges_denotes by (auto simp: ExpandPrefixRanges_Some)

theorem ExpandPrefixRanges_exact_witness:
  "denoted_ranges sample_expander (Ref rs_foo) =
     set sample_ranges"
  using ExpandPrefixRanges_exact [OF sample_ExpandPrefixRanges sample_tidy] by simp

text \<open>(C32) A prefix expansion always ends, and it answers exactly when the sets it reaches do: they lie within the
  depth limit, the lookups succeed, and the sets, states and ranges are no more than the limits.\<close>

theorem ExpandPrefixRanges_answers:
  assumes "tidy e ref"
  shows "ExpandPrefixRanges e ref \<noteq> None \<and>
    ((\<exists>out. ExpandPrefixRanges e ref = Some (Inr out)) \<longleftrightarrow>
       set_class (ref_name ref) \<in> {ClassAsSet, ClassRouteSet} \<and> explorable e ref \<and> claims_answered e ref \<and>
       routes_answered e ref \<and> within_limits e ref (maxPrefixes e))"
proof
  show "ExpandPrefixRanges e ref \<noteq> None" using expandRanges_total by (simp add: ExpandPrefixRanges_def)
  have "(\<exists>out. ExpandPrefixRanges e ref = Some (Inr out)) \<longleftrightarrow> (\<exists>out. expandRanges e ref (maxPrefixes e) = Some (Inr out))"
    by (auto simp: ExpandPrefixRanges_Some)
  then show "(\<exists>out. ExpandPrefixRanges e ref = Some (Inr out)) \<longleftrightarrow>
      set_class (ref_name ref) \<in> {ClassAsSet, ClassRouteSet} \<and> explorable e ref \<and> claims_answered e ref \<and>
      routes_answered e ref \<and> within_limits e ref (maxPrefixes e)"
    unfolding expandRanges_when [OF assms] .
qed

theorem ExpandPrefixRanges_answers_witness:
  "explorable sample_expander (Ref rs_foo) \<and> within_limits sample_expander (Ref rs_foo) 9"
proof -
  have "maxPrefixes sample_expander = 9" by (simp add: maxPrefixes_def sample_expander_def limit_def)
  then show ?thesis using ExpandPrefixRanges_answers [OF sample_tidy, of "Ref rs_foo"] sample_ExpandPrefixRanges by metis
qed

text \<open>(C35) The expansion to prefixes returns each prefix of the denoted ranges once, and among the sets whose ranges
  are found it fails exactly when there are more prefixes than the limit: duplicates are never charged.\<close>

theorem ExpandPrefixes_exact:
  assumes "tidy e ref" and "expandRanges e ref maxInt = Some (Inr ranges)"
  shows "case ExpandPrefixes e ref of
      Some (Inr out) \<Rightarrow> set (psM out) = denoted_prefixes e ref \<and> distinct (psM out) \<and> length (psM out) \<le> maxPrefixes e
    | Some (Inl err) \<Rightarrow> card (denoted_prefixes e ref) > maxPrefixes e
    | None \<Rightarrow> False"
proof -
  have w: "(\<exists>out. ExpandPrefixes e ref = Some (Inr out)) \<longleftrightarrow> card (denoted_prefixes e ref) \<le> maxPrefixes e"
    using ExpandPrefixes_when [OF assms(1)] assms(2) by blast
  have n: "ExpandPrefixes e ref \<noteq> None" using assms(2) by (auto simp: ExpandPrefixes_def split: prod.split sum.split)
  show ?thesis
    using ExpandPrefixes_denotes [OF _ assms(1)] w n by (auto split: option.split sum.split)
qed

theorem ExpandPrefixes_exact_witness:
  "denoted_prefixes sample_expander (Ref rs_foo) = set sample_prefixes"
proof -
  obtain rs where "expandRanges sample_expander (Ref rs_foo) maxInt = Some (Inr rs)"
    using sample_ExpandPrefixes by (auto simp: ExpandPrefixes_def split: option.splits sum.splits)
  from ExpandPrefixes_exact [OF sample_tidy this] show ?thesis by (simp add: sample_ExpandPrefixes)
qed

text \<open>(C33) The expansion of an as-set returns each AS listed, directly or by an honoured claim, in a set reachable
  from it, and the sets that were not found.\<close>

theorem ExpandAS_exact:
  assumes "ExpandAS e ref = Inr out"
  shows "set (asM out) = denoted_ases e ref \<and> distinct (asM out) \<and> \<not> asAny out \<and>
    set (asMissing out) = {n \<in> reachable e ref. fetchOne e n = Inl ErrNotFoundR}"
  by (rule ExpandAS_denotes [OF assms])

theorem ExpandAS_exact_witness:
  "denoted_ases sample_expander (Ref as_foo) = {64496, 64497, 64498}"
  using ExpandAS_exact [OF sample_ExpandAS] by simp

text \<open>(C34) The expansion of an as-set answers exactly for an as-set whose reachable sets are within the depth and
  visit limits, are not AS-ANY, and whose lookups succeed.\<close>

theorem ExpandAS_answers:
  "(\<exists>out. ExpandAS e ref = Inr out) \<longleftrightarrow> set_class (ref_name ref) = ClassAsSet \<and> explorable e ref \<and> claims_answered e ref"
  using ExpandAS_when [of e ref] by (cases "ExpandAS e ref") auto

text \<open>(C36) The table of an operator stack acts on every range as the operators of the path do one by one, innermost
  first.\<close>

theorem opStack_exact:
  assumes "wf_range r"
  shows "stack_apply (foldl stack_push zeroStack ops) r = (if range_IsEmpty r then None else apply_path ops r)"
  using stack_apply_path [OF assms] by (simp add: stack_of_def)

theorem opStack_exact_witness:
  "stack_apply (foldl stack_push zeroStack [\<lparr>Op = RangeLength, opN = 25, opM = 25\<rparr>, zeroOp]) (exact_range (block [192, 0, 2, 0] 24)) =
     Some (sample_ranges ! 1)"
proof -
  have "\<not> range_IsEmpty (exact_range (block [192, 0, 2, 0] 24))"
    and "apply_path [\<lparr>Op = RangeLength, opN = 25, opM = 25\<rparr>, zeroOp] (exact_range (block [192, 0, 2, 0] 24)) = Some (sample_ranges ! 1)"
    by code_simp+
  then show ?thesis unfolding opStack_exact [OF sample_routes(3)] by (simp only: if_False)
qed

text \<open>Two stacks that delete every range can differ in the upper bound they keep, so they are not always equal values.\<close>

lemma deleting_stacks_differ:
  "let oper = (\<lambda>n. \<lparr>Op = RangeLength, opN = n, opM = n\<rparr>);
       s = foldl stack_push zeroStack [oper 4, oper 8]; t = foldl stack_push zeroStack [oper 5, oper 8] in
   list_all (\<lambda>l. l = deleted) (lo4 s @ lo6 s @ lo4 t @ lo6 t) \<and> hi4 s \<noteq> hi4 t"
  by code_simp

text \<open>(C37) A prefix expansion stays within its limits: no more ranges than its cap and no more sets than
  \<^verbatim>\<open>MaxVisited\<close>, and it reports the number of sets reached.\<close>

theorem expandRanges_bounds:
  assumes "expandRanges e ref mx = Some (Inr (out, reached))" and "tidy e ref"
  shows "length (rsM out) \<le> mx \<and> reached = card (reachable e ref) \<and> reached \<le> maxVisited e"
proof -
  have d: "set (rsM out) = denoted_ranges e ref" "distinct (rsM out)" "reached = card (reachable e ref)"
    using expandRanges_denotes [OF assms] by blast+
  have w: "within_limits e ref mx" "explorable e ref" using expandRanges_when [OF assms(2)] assms(1) by blast+
  have "length (rsM out) = card (denoted_ranges e ref)" unfolding d(1) [symmetric] using distinct_card [OF d(2)] by simp
  then show ?thesis using w d(3) by (simp add: within_limits_def explorable_def)
qed

theorem expandRanges_bounds_witness:
  "card (reachable sample_expander (Ref rs_foo)) \<le> 12"
proof -
  have m: "maxVisited sample_expander = 12" by (simp add: maxVisited_def sample_expander_def limit_def)
  obtain n where "expandRanges sample_expander (Ref rs_foo) (maxPrefixes sample_expander) =
      Some (Inr (\<lparr>rsM = sample_ranges,
                rsMissing = [Ref as_gone]\<rparr>, n))"
    using sample_ExpandPrefixRanges unfolding ExpandPrefixRanges_Some by blast
  from expandRanges_bounds [OF this sample_tidy] show ?thesis by (simp add: m)
qed

text \<open>(C40) A member parsed for a class of set is of a kind that class may list: prefix ranges and range operators only
  in a route-set, both well formed.  A text that is not a member is kept as an invalid one.\<close>

theorem ParseSetMember_typed:
  assumes "ParseSetMember item container = (m, failed)"
  shows "(mKind m = MemberPrefixRange \<longrightarrow> container = ClassRouteSet \<and> wf_range (mRange m)) \<and>
    (\<not> op_IsZero (mOp m) \<longrightarrow> container = ClassRouteSet) \<and> wf_op (mOp m) \<and>
    mRaw m = item \<and> (failed \<longleftrightarrow> mKind m = MemberInvalid)"
  using ParseSetMember_fits [OF assms] by (simp add: fits_def)

theorem ParseSetMember_typed_witness:
  "wf_op (mOp (fst (ParseSetMember ''RS-FOO^25'' ClassRouteSet))) \<and> snd (ParseSetMember ''RS-FOO^25'' ClassAsSet)"
proof
  show "wf_op (mOp (fst (ParseSetMember ''RS-FOO^25'' ClassRouteSet)))"
    using ParseSetMember_typed [OF prod.collapse [symmetric]] by blast
  show "snd (ParseSetMember ''RS-FOO^25'' ClassAsSet)" by code_simp
qed

text \<open>(C38) The source over decoded objects answers from the objects alone: the first copy of a set of the best rank among
  those the reference may see, the routes with an origin in load order, and every claim a set honours: no index
  loses one.\<close>

theorem MemSource_exact:
  "GetSet (mem_Source uni (newMemSource uni objs prec dflt)) ref =
     (if found_copies uni objs dflt ref = [] then Inl SrcNotFound
      else Inr (Some (msSet (preferred (\<lambda>c. rank prec (msSource c)) (found_copies uni objs dflt ref))))) \<and>
   OriginatedRoutes (mem_Source uni (newMemSource uni objs prec dflt)) a fam = Inr (filter (afiMatches fam) (origin_routes uni dflt objs a)) \<and>
   (\<exists>obs. MembersByRef (mem_Source uni (newMemSource uni objs prec dflt)) s = Inr obs \<and> set obs = {ob \<in> set objs. ClaimAllowed ob s})"
  by (intro conjI mem_GetSet mem_OriginatedRoutes mem_MembersByRef)

text \<open>(C39) Over that source, whatever Unicode's upper case is, an as-set expands exactly when it is found, what it reaches
  is within the limits and is not AS-ANY, and every set found for a scoped reference has the registry of the
  reference as its \<^verbatim>\<open>source:\<close> in ASCII letter case.  When the sources of the sets are ASCII text the last is always
  so, and no expansion fails for a fault of the source.\<close>

theorem MemSource_answers:
  assumes "Src e = mem_Source uni (newMemSource uni objs prec dflt)"
  shows "((\<exists>out. ExpandAS e ref = Inr out) \<longleftrightarrow>
      set_class (ref_name ref) = ClassAsSet \<and> \<not> isl (fetchOne e ref) \<and> reachable e ref \<subseteq> within e ref (maxDepth e) \<and>
      finite (reachable e ref) \<and> card (reachable e ref) \<le> maxVisited e \<and>
      (\<forall>n\<in>reachable e ref. \<not> IsAny (ref_name n) \<and> scope_agrees (Src e) n)) \<and>
    (ascii_sources objs \<longrightarrow> (\<forall>n. scope_agrees (Src e) n))"
proof
  have "(\<exists>out. ExpandAS e ref = Inr out) \<longleftrightarrow> \<not> isl (ExpandAS e ref)" by (cases "ExpandAS e ref") auto
  then show "(\<exists>out. ExpandAS e ref = Inr out) \<longleftrightarrow>
      set_class (ref_name ref) = ClassAsSet \<and> \<not> isl (fetchOne e ref) \<and> reachable e ref \<subseteq> within e ref (maxDepth e) \<and>
      finite (reachable e ref) \<and> card (reachable e ref) \<le> maxVisited e \<and>
      (\<forall>n\<in>reachable e ref. \<not> IsAny (ref_name n) \<and> scope_agrees (Src e) n)"
    unfolding ExpandAS_when memsrc.explorable_limits [OF assms] assms [symmetric] using memsrc.claims_always [OF assms] by blast
  show "ascii_sources objs \<longrightarrow> (\<forall>n. scope_agrees (Src e) n)" using ascii_agrees assms by simp
qed

theorem MemSource_answers_witness:
  "reachable sample_memory (Ref as_foo) \<subseteq> within sample_memory (Ref as_foo) 4 \<and> scope_agrees (Src sample_memory) ripe_foo"
proof -
  have m: "maxDepth sample_memory = 4" by (simp add: maxDepth_def sample_memory_def sample_expander_def limit_def)
  have "Src sample_memory = mem_Source id (newMemSource id sample_objects [''Test''] None)" by (simp add: sample_memory_def)
  from MemSource_answers [OF this, of "Ref as_foo"] show ?thesis using sample_memory_ExpandAS sample_sources m by metis
qed

end
