(* ===== verification/Spec2Isabelle.thy ===== *)
theory Spec2Isabelle
  imports Prefix_Properties Rpki Aspa Names Text_Properties Addr_Range Lexer_Properties Ast_Properties Auth_Properties Resolve_Properties
begin

text \<open>
  A model of the Go module for the Routing Policy Specification Language (RPSL), the language of the
  Internet routing registries.

  \<^bold>\<open>The program.\<close>  Package \<^verbatim>\<open>lexer\<close> cuts a source into lines and attributes; \<^verbatim>\<open>ast\<close> makes lossless objects of
  them, which may be edited and re-formatted; \<^verbatim>\<open>object\<close> decodes them into typed classes whose attribute values
  are the types of package \<^verbatim>\<open>types\<close> (AS numbers, set names, addresses, prefix ranges, prefix spaces) and the
  expressions of package \<^verbatim>\<open>policy\<close>.  Package \<^verbatim>\<open>auth\<close> decides whether an update of a registry is authorised, over
  decoded objects.  The module \<^verbatim>\<open>resolve\<close> expands sets and filters over a data source, among them a source
  filtered by route origin validation (\<^verbatim>\<open>resolve/rpki\<close>), and its tools and servers print the results.

  \<^bold>\<open>What models what.\<close>  Strings are lists of bytes, fixed-width integers are words, errors are values, maps
  are association lists or functions.  The parts of Go's library the program is written against come first:
  \<^verbatim>\<open>Go_Sort\<close> (\<^verbatim>\<open>sort\<close>), \<^verbatim>\<open>Addr_Order\<close> (the order of addresses), \<^verbatim>\<open>Netip\<close>, \<^verbatim>\<open>Netip_Text\<close> (\<^verbatim>\<open>net/netip\<close>) and \<^verbatim>\<open>Go_Text\<close> (\<^verbatim>\<open>strings\<close>, \<^verbatim>\<open>strconv\<close>); \<^verbatim>\<open>Rpsl_Prelude\<close> holds shared facts.

  \<^item> \<^verbatim>\<open>src/types\<close>, prefix ranges and operators: \<^verbatim>\<open>Prefix_Range\<close>, \<^verbatim>\<open>Range_Enum\<close> (enumeration).
  \<^item> \<^verbatim>\<open>src/types\<close>, prefix spaces: \<^verbatim>\<open>Len_Mask\<close> and \<^verbatim>\<open>Prefix_Space\<close> (the trie and its operations),
    \<^verbatim>\<open>Space_Canonical\<close> (canonical form, equality; locale \<open>prefix_algebra\<close>), \<^verbatim>\<open>Space_Subset\<close> (inclusion),
    \<^verbatim>\<open>Space_Ranges\<close> and \<^verbatim>\<open>Space_Example\<close> (listing).  \<^verbatim>\<open>Prefix_Properties\<close> has the properties: the operations are the
    set operations, equality of values is equality of sets, listing and rebuilding are inverse.
  \<^item> \<^verbatim>\<open>src/types\<close>, address ranges: \<^verbatim>\<open>Addr_Range\<close> (128-bit arithmetic on two words; the fewest prefixes).
  \<^item> \<^verbatim>\<open>src/types\<close>, names and text forms: \<^verbatim>\<open>Names\<close>, \<^verbatim>\<open>Text_Forms\<close>, \<^verbatim>\<open>Text_Properties\<close>: parse and print round trips, the
    bytes a parsed name may hold, and the one case where a value's text is refused.
  \<^item> \<^verbatim>\<open>src/lexer\<close>: \<^verbatim>\<open>Lexer\<close>, \<^verbatim>\<open>Source_Lines\<close>, \<^verbatim>\<open>Lexer_Properties\<close>: tokens tile the source, each is an attribute line with its
    continuation lines or one other line, and every offset of a folded value maps back to its line, column and
    byte.
  \<^item> \<^verbatim>\<open>src/ast\<close>: \<^verbatim>\<open>Ast_Object\<close> (objects, reading, editing, building, formatting), \<^verbatim>\<open>Ast_Edit\<close> (coherence, the
    invariant), \<^verbatim>\<open>Ast_Write\<close>, \<^verbatim>\<open>Ast_Set\<close>, \<^verbatim>\<open>Ast_Format\<close>, \<^verbatim>\<open>Ast_Properties\<close>: parsing loses nothing, and what any sequence
    of edits writes reads back as what was asked.
  \<^item> \<^verbatim>\<open>src/auth\<close> with the parts of \<^verbatim>\<open>src/object\<close> it reads: \<^verbatim>\<open>Typed_Objects\<close> (classes, \<^verbatim>\<open>auth:\<close> lines, reverse
    domains), \<^verbatim>\<open>Auth_Check\<close> (credentials, irts, referral chains), \<^verbatim>\<open>Auth_Database\<close> (the interface and the database
    over decoded objects), \<^verbatim>\<open>Auth_Rules\<close> (RFC 2725 route creation, the rules of RIPE and IRRd).  \<^verbatim>\<open>Auth_Spec\<close> says who
    may make an update without order or early returns and proves that the rules decide that; \<^verbatim>\<open>Auth_Total\<close> has
    the locale \<open>answering_db\<close> of databases that always answer and its interpretation; \<^verbatim>\<open>Auth_Space\<close>,
    \<^verbatim>\<open>Auth_Memory\<close>, \<^verbatim>\<open>Auth_Walk\<close>, \<^verbatim>\<open>Auth_Reverse\<close> characterise covering, the database's searches, referral chains and
    reverse zones; \<^verbatim>\<open>Auth_Example\<close> is a small registry; \<^verbatim>\<open>Auth_Properties\<close> has the properties.
  \<^item> \<^verbatim>\<open>src/resolve\<close>, set expansion, with the members of sets of \<^verbatim>\<open>src/object\<close>: \<^verbatim>\<open>Set_Members\<close> (parsing a member, the
    members a resolver follows), \<^verbatim>\<open>Op_Stack\<close> (\<^verbatim>\<open>opstack.go\<close>), \<^verbatim>\<open>Resolve_Sets\<close> (\<^verbatim>\<open>source.go\<close>, \<^verbatim>\<open>claims.go\<close>, nesting and fetching of
    \<^verbatim>\<open>expander.go\<close>), \<^verbatim>\<open>Resolve_Discover\<close> (the breadth-first discovery), \<^verbatim>\<open>Resolve_Expand\<close> (routes, the walk and the
    expansions, \<^verbatim>\<open>result.go\<close> and the routers and peerings of \<^verbatim>\<open>expand_more.go\<close>), \<^verbatim>\<open>Mem_Source\<close> (\<^verbatim>\<open>memsource.go\<close>, with the locale
    \<open>dutiful_source\<close> of sources without faults of their own and its interpretation).  \<^verbatim>\<open>Resolve_Reach\<close> and
    \<^verbatim>\<open>Resolve_Graph\<close> show that discovery finds the reachable sets and when it succeeds; \<^verbatim>\<open>Resolve_Eval\<close>, \<^verbatim>\<open>Resolve_Ranges\<close>
    and \<^verbatim>\<open>Resolve_Limits\<close> that the walk collects the ranges of all paths of members and stops within its limits;
    \<^verbatim>\<open>Resolve_Example\<close> is a small registry with cycles; \<^verbatim>\<open>Resolve_Properties\<close> has the properties.
  \<^item> \<^verbatim>\<open>src/resolve/rpki\<close>: \<^verbatim>\<open>Rpki\<close> (RFC 6811 validation, the filtering source), \<^verbatim>\<open>Aspa\<close> (ASPA objects).

  \<^bold>\<open>Parameters.\<close>  What \<^verbatim>\<open>strings.ToUpper\<close> makes of text outside ASCII is an argument of the source over decoded objects.
  The verifier of credentials, the registry's database and the data source are interfaces of
  the program and arguments of the model; the properties hold for every instance unless they name one.

  \<^bold>\<open>Bounds.\<close>  One definition has fuel, the recursive \<^verbatim>\<open>walk\<close> of an expansion: every call is a visit and visits are
  capped, so \<^verbatim>\<open>maxVisited + 1\<close> is enough, and \<open>expandRanges_total\<close> shows that it never runs out.  Other loops are
  structural or have a measure (the bytes left, the bits left, the addresses left in a range, the maintainers
  left to walk, the sets that discovery may still visit).  A limit that is negative is \<^verbatim>\<open>math.MaxInt\<close> of 64 bits.

  \<^bold>\<open>Not modelled.\<close>  Error texts, except the reasons of an authorisation, which are results; letter case outside
  ASCII, except in the source over decoded objects; contexts and their cancellation; the concurrent fetching and the memo of an expander, which are meant
  to change no answer.  The expression parser of \<^verbatim>\<open>policy\<close>, the decoders of \<^verbatim>\<open>object\<close>, the reader of large dumps
  (\<^verbatim>\<open>stream.go\<close>), and of \<^verbatim>\<open>resolve\<close> the evaluation of filters and filter-sets, which works on that syntax, the indexes
  of policies, the network clients and servers, the generators of router configurations and the command-line
  tools.
\<close>

end
